(* ===== verification/Relay_Prelude.thy ===== *)
theory Relay_Prelude
  imports Main "HOL-Library.Sublist"
begin

text \<open>
  Shared vocabulary of the development: Go strings as byte lists, errors as values of a sum,
  run-time panics, and the generic facts on lists that several components use. The
  collections declared here carry the component proofs: \<open>relay_defs\<close> holds the defining
  equations of small record updates, \<open>subseq_rules\<close> the order facts on event histories. The
  locale \<open>bounded_runs\<close> is the argument by which runs of a step relation come to rest.
\<close>

named_theorems relay_defs "unfolding rules of small state updates"
named_theorems subseq_rules "facts on subsequences of histories"

section \<open>Go values\<close>

text \<open>
  A Go string is a sequence of bytes, and so is HOL's \<open>string\<close>: a character of a literal
  is one byte, and a code point outside ASCII is written as the bytes of its UTF-8 encoding.
\<close>

type_synonym gostring = string

text \<open>A Go call that returns \<open>(v, err)\<close>: \<open>Inl\<close> the error's message, \<open>Inr\<close> the value.\<close>

type_synonym 'a fallible = "gostring + 'a"

text \<open>Run-time panics the modelled code could raise.\<close>

datatype go_panic = CloseOfClosedChannel | MustFailed gostring | SliceOutOfRange

abbreviation nl :: char where "nl \<equiv> CHR 0x0A"
abbreviation tab :: char where "tab \<equiv> CHR 0x09"
abbreviation cr :: char where "cr \<equiv> CHR 0x0D"
abbreviation dquote :: char where "dquote \<equiv> CHR 0x22"
abbreviation backslash :: char where "backslash \<equiv> CHR 0x5C"

text \<open>UTF-8 bytes of the few code points outside ASCII that the source's literals contain.\<close>

definition u_ellipsis :: gostring where
  "u_ellipsis = [CHR 0xE2, CHR 0x80, CHR 0xA6]"

definition u_emdash :: gostring where
  "u_emdash = [CHR 0xE2, CHR 0x80, CHR 0x94]"

definition u_check :: gostring where
  "u_check = [CHR 0xE2, CHR 0x9C, CHR 0x85]"

definition u_cross :: gostring where
  "u_cross = [CHR 0xE2, CHR 0x9D, CHR 0x8C]"

text \<open>\<open>int64\<close> (and on 64-bit machines \<open>int\<close>) arithmetic wraps around.\<close>

definition int64 :: "int \<Rightarrow> int" where
  "int64 n = signed_take_bit 63 n"

lemma int64_small: "- (2 ^ 63) \<le> n \<Longrightarrow> n < 2 ^ 63 \<Longrightarrow> int64 n = n"
  by (simp add: int64_def signed_take_bit_int_eq_self)

lemma int64_over:
  assumes "2 ^ 63 \<le> n" "n < 2 ^ 64"
  shows "int64 n = n - 2 ^ 64"
proof -
  have "(n + 2 ^ 63) mod 2 ^ 64 = (n - 2 ^ 63 + 1 * 2 ^ 64) mod 2 ^ 64" by (simp add: add.commute)
  also have "\<dots> = n - 2 ^ 63" using assms by (subst mod_mult_self1) simp
  finally show ?thesis
    by (simp add: int64_def signed_take_bit_eq_take_bit_shift take_bit_int_def)
qed

section \<open>Index search and removal\<close>

text \<open>The loop \<open>for i, x := range xs { if P(x) { found = i; break } }\<close>.\<close>

fun first_index :: "('a \<Rightarrow> bool) \<Rightarrow> 'a list \<Rightarrow> nat option" where
  "first_index P [] = None"
| "first_index P (x # xs) = (if P x then Some 0 else map_option Suc (first_index P xs))"

text \<open>Go's \<open>append(xs[:i], xs[i+1:]...)\<close>.\<close>

definition remove_at :: "nat \<Rightarrow> 'a list \<Rightarrow> 'a list" where
  "remove_at i xs = take i xs @ drop (Suc i) xs"

lemma first_index_None: "first_index P xs = None \<longleftrightarrow> (\<forall>x \<in> set xs. \<not> P x)"
  by (induction xs) auto

lemma first_index_Some:
  "first_index P xs = Some i \<Longrightarrow> i < length xs \<and> P (xs ! i) \<and> (\<forall>j < i. \<not> P (xs ! j))"
proof (induction xs arbitrary: i)
  case (Cons x xs)
  then show ?case
    by (cases i) (auto split: if_splits simp: less_Suc_eq_0_disj)
qed simp

lemma first_index_split:
  assumes "first_index P xs = Some i"
  obtains ys y zs where "xs = ys @ y # zs" "length ys = i" "P y" "\<forall>x \<in> set ys. \<not> P x"
    "remove_at i xs = ys @ zs"
proof
  from first_index_Some [OF assms] have i: "i < length xs" "P (xs ! i)" "\<forall>j < i. \<not> P (xs ! j)"
    by auto
  show "xs = take i xs @ xs ! i # drop (Suc i) xs"
    using i(1) by (rule id_take_nth_drop)
  show "length (take i xs) = i" using i(1) by simp
  show "P (xs ! i)" by (rule i(2))
  show "\<forall>x \<in> set (take i xs). \<not> P x"
    using i by (auto simp: in_set_conv_nth)
  show "remove_at i xs = take i xs @ drop (Suc i) xs" by (simp add: remove_at_def)
qed

lemma set_remove_at: "set (remove_at i xs) \<subseteq> set xs"
  by (auto simp: remove_at_def dest: in_set_takeD in_set_dropD)

lemma length_remove_at: "i < length xs \<Longrightarrow> length (remove_at i xs) = length xs - 1"
  by (simp add: remove_at_def)

lemma subseq_remove_at [subseq_rules]: "subseq (remove_at i xs) xs"
proof (cases "i < length xs")
  case True
  have "subseq (take i xs @ drop (Suc i) xs) (take i xs @ xs ! i # drop (Suc i) xs)"
    by (intro list_emb_append_mono) auto
  with True show ?thesis
    by (simp add: remove_at_def id_take_nth_drop [symmetric])
qed (simp add: remove_at_def)

lemma find_SomeD: "find P xs = Some x \<Longrightarrow> x \<in> set xs \<and> P x"
  by (induction xs) (auto split: if_splits)

section \<open>Subsequences\<close>

lemma subseq_append_right [subseq_rules]: "subseq xs ys \<Longrightarrow> subseq (xs @ zs) (ys @ zs)"
  by (simp add: list_emb_append_mono)

lemma subseq_snoc_skip [subseq_rules]: "subseq xs ys \<Longrightarrow> subseq xs (ys @ [y])"
  by (metis append_Nil2 list_emb_append_mono list_emb_Nil)

lemma subseq_append_cancel: "subseq (xs @ ys @ zs) ws \<Longrightarrow> subseq (xs @ zs) ws"
  by (metis append.right_neutral list_emb_append_mono list_emb_Nil subseq_order.order_refl
      subseq_order.trans append_assoc append_Nil)

lemma subseq_distinct: "subseq xs ys \<Longrightarrow> distinct ys \<Longrightarrow> distinct xs"
  by (metis subseq_conv_nths distinct_nthsI)

lemma subseq_set: "subseq xs ys \<Longrightarrow> set xs \<subseteq> set ys"
  by (auto simp: subseq_conv_nths dest: in_set_nthsD)

lemma map_sum_InrE: "map_sum id f x = Inr y \<Longrightarrow> (\<And>z. x = Inr z \<Longrightarrow> y = f z \<Longrightarrow> P) \<Longrightarrow> P"
  by (cases x) auto

section \<open>Runs that must come to rest\<close>

text \<open>
  What a liveness argument needs of a step relation: an invariant its steps keep, a cost they lower,
  and that a state with no step left is settled. Then every run is bounded, a run that cannot go on
  is settled, and one exists.
\<close>

locale bounded_runs =
  fixes step :: "'s \<Rightarrow> 's \<Rightarrow> bool"
    and live :: "'s \<Rightarrow> bool"
    and cost :: "'s \<Rightarrow> nat"
    and settled :: "'s \<Rightarrow> bool"
  assumes live_step: "live s \<Longrightarrow> step s s' \<Longrightarrow> live s'"
    and cost_step: "live s \<Longrightarrow> step s s' \<Longrightarrow> cost s' < cost s"
    and stuck: "live s \<Longrightarrow> \<nexists>s'. step s s' \<Longrightarrow> settled s"
begin

lemma live_run: "(step ^^ n) s s' \<Longrightarrow> live s \<Longrightarrow> live s' \<and> n + cost s' \<le> cost s"
proof (induction n arbitrary: s)
  case 0
  then show ?case by simp
next
  case (Suc n)
  then obtain s1 where s1: "step s s1" "(step ^^ n) s1 s'" by (metis relpowp_Suc_D2)
  from Suc.IH [OF s1(2) live_step [OF Suc.prems(2) s1(1)]] cost_step [OF Suc.prems(2) s1(1)]
  show ?case by simp
qed

lemma run_bounded: "(step ^^ n) s s' \<Longrightarrow> live s \<Longrightarrow> n \<le> cost s"
  using live_run by fastforce

lemma run_settles: "(step ^^ n) s s' \<Longrightarrow> live s \<Longrightarrow> \<nexists>s''. step s' s'' \<Longrightarrow> settled s'"
  using live_run stuck by blast

lemma run_halts: "live s \<Longrightarrow> \<exists>n s'. (step ^^ n) s s' \<and> (\<nexists>s''. step s' s'')"
proof (induction "cost s" arbitrary: s rule: less_induct)
  case less
  show ?case
  proof (cases "\<exists>s1. step s s1")
    case True
    then obtain s1 where s1: "step s s1" by blast
    from less.hyps [OF cost_step [OF less.prems s1] live_step [OF less.prems s1]] relpowp_Suc_I2 [of step, OF s1]
    show ?thesis by blast
  next
    case False
    then show ?thesis by (intro exI [of _ 0] exI [of _ s]) simp
  qed
qed

end

end
