(* ===== verification/Relay_Types.thy ===== *)
theory Relay_Types
  imports Relay_Prelude
begin

text \<open>
  The data that passes between the components: the router's \<open>Turn\<close>, \<open>Attachment\<close> and
  \<open>Options\<close> (internal/router/router.go), the calls of its \<open>ChunkSink\<close> interface as events,
  and the parts of the ACP SDK's types the relay reads or builds. Of the SDK's union structs
  (pointer fields, at most one set) only the fields the relay inspects are kept.
\<close>

text \<open>A Go \<open>error\<close>: \<open>None\<close> is \<open>nil\<close>.\<close>

type_synonym error = "gostring option"

section \<open>Router input\<close>

record attachment =
  att_url :: gostring
  att_content_type :: gostring
  att_name :: gostring
  att_parsed_content :: gostring

record turn =
  t_role :: gostring
  t_content :: gostring
  t_message_id :: gostring
  t_attachments :: "attachment list"

record options =
  opt_model :: gostring
  opt_thinking :: gostring
  opt_hide_thinking :: bool

definition no_options :: options where
  "no_options = \<lparr>opt_model = [], opt_thinking = [], opt_hide_thinking = False\<rparr>"

section \<open>The ChunkSink interface as events\<close>

text \<open>One constructor per method of \<open>ChunkSink\<close>: a call is an event on the sink.\<close>

datatype sink_event =
    EvFirstChunk
  | EvText gostring
  | EvReplace gostring
  | EvError gostring gostring
  | EvDone

text \<open>Which sink a turn writes to: the SSE sink of one HTTP request, or a reaction's
  \<open>discardSink\<close>.\<close>

datatype sink_ref = HttpSink nat | DiscardSink gostring

section \<open>ACP values\<close>

text \<open>Content blocks, by the SDK helper that builds them.\<close>

datatype content_block =
    TextBlock gostring
  | ResourceLinkBlock gostring gostring "gostring option"   \<comment> \<open>name, uri, mime type\<close>
  | ResourceBlock gostring gostring "gostring option"       \<comment> \<open>uri, text, mime type\<close>
  | ImageBlock gostring gostring                            \<comment> \<open>base64 data, mime type\<close>

text \<open>The text of a chunk's content, \<open>None\<close> when the content is not a text block.\<close>

record session_update =
  upd_message :: "gostring option option"
  upd_thought :: "gostring option option"

text \<open>\<open>acp.StopReason\<close> is a string type: an unknown value falls through the switch.\<close>

datatype stop_reason =
    EndTurn | MaxTokens | MaxTurnRequests | Refusal | Cancelled | OtherStop gostring

end
