(* ===== verification/Session_Queue.thy ===== *)
theory Session_Queue
  imports Relay_Types
begin

text \<open>
  The per-session FIFO of pending turns (\<open>sessionQueue\<close>, internal/router/router.go): a
  mutex-guarded slice, an in-flight flag, a stopped flag and a notification channel of
  capacity one. A queued request is a pointer, so its identity \<open>rq_id\<close> indexes a heap with
  the fields other goroutines read: whether \<open>done\<close> is closed, \<open>err\<close> and \<open>shed\<close>. Closing
  a closed channel panics in Go, and so does the model.
\<close>

section \<open>Requests\<close>

datatype turn_kind = TurnUser | TurnReaction

record turn_req =
  rq_id :: nat
  rq_kind :: turn_kind
  rq_ctx :: nat
  rq_sink :: sink_ref
  rq_opts :: options
  rq_blocks :: "content_block list"
  rq_hide_thinking :: bool
  rq_enqueued_at :: int

record req_status =
  rs_done :: bool
  rs_err :: "gostring option"
  rs_shed :: bool

type_synonym req_heap = "nat \<Rightarrow> req_status"

definition fresh_status :: req_status where
  "fresh_status = \<lparr>rs_done = False, rs_err = None, rs_shed = False\<rparr>"

definition close_done :: "nat \<Rightarrow> req_heap \<Rightarrow> go_panic + req_heap" where
  "close_done i h =
     (if rs_done (h i) then Inl CloseOfClosedChannel
      else Inr (h(i := (h i)\<lparr>rs_done := True\<rparr>)))"

definition set_shed :: "nat \<Rightarrow> req_heap \<Rightarrow> req_heap" where
  "set_shed i h = h(i := (h i)\<lparr>rs_shed := True\<rparr>)"

definition set_err :: "nat \<Rightarrow> gostring option \<Rightarrow> req_heap \<Rightarrow> req_heap" where
  "set_err i e h = h(i := (h i)\<lparr>rs_err := e\<rparr>)"

section \<open>The queue\<close>

record session_queue =
  sq_q :: "turn_req list"
  sq_in_flight :: bool
  sq_stopped :: bool
  sq_notify :: bool

definition session_queue_cap :: nat where
  "session_queue_cap = 32"

text \<open>\<open>reactionMaxAge\<close>, in nanoseconds.\<close>

definition reaction_max_age :: int where
  "reaction_max_age = 60 * 1000000000"

definition new_session_queue :: session_queue where
  "new_session_queue = \<lparr>sq_q = [], sq_in_flight = False, sq_stopped = False, sq_notify = False\<rparr>"

abbreviation is_reaction :: "turn_req \<Rightarrow> bool" where
  "is_reaction r \<equiv> rq_kind r = TurnReaction"

abbreviation is_user :: "turn_req \<Rightarrow> bool" where
  "is_user r \<equiv> rq_kind r = TurnUser"

text \<open>Append and the non-blocking send on \<open>notify\<close>.\<close>

definition enqueue :: "turn_req \<Rightarrow> session_queue \<Rightarrow> session_queue" where
  "enqueue req sq = sq\<lparr>sq_q := sq_q sq @ [req], sq_notify := True\<rparr>"

definition push ::
  "turn_req \<Rightarrow> session_queue \<Rightarrow> req_heap \<Rightarrow> go_panic + (bool \<times> session_queue \<times> req_heap)" where
  "push req sq h =
     (if sq_stopped sq then Inr (False, sq, h)
      else if session_queue_cap \<le> length (sq_q sq) then
        (case first_index is_reaction (sq_q sq) of
           Some i \<Rightarrow>
             (let dropped = sq_q sq ! i; sq' = sq\<lparr>sq_q := remove_at i (sq_q sq)\<rparr> in
              case close_done (rq_id dropped) (set_shed (rq_id dropped) h) of
                Inl p \<Rightarrow> Inl p
              | Inr h' \<Rightarrow> Inr (True, enqueue req sq', h'))
         | None \<Rightarrow>
             (if is_reaction req then Inr (False, sq, h) else Inr (True, enqueue req sq, h)))
      else Inr (True, enqueue req sq, h))"

text \<open>The critical section of \<open>popOrWait\<close>: \<open>None\<close> when the queue is empty and the caller
  goes on to wait.\<close>

definition try_pop :: "session_queue \<Rightarrow> (turn_req \<times> session_queue) option" where
  "try_pop sq =
     (case sq_q sq of
        [] \<Rightarrow> None
      | r # rs \<Rightarrow> Some (r, sq\<lparr>sq_q := rs, sq_in_flight := True\<rparr>))"

definition finish_in_flight :: "session_queue \<Rightarrow> session_queue" where
  "finish_in_flight sq = sq\<lparr>sq_in_flight := False\<rparr>"

definition idle :: "session_queue \<Rightarrow> bool" where
  "idle sq \<longleftrightarrow> \<not> sq_in_flight sq \<and> length (sq_q sq) = 0"

fun shed_all :: "turn_req list \<Rightarrow> req_heap \<Rightarrow> go_panic + req_heap" where
  "shed_all [] h = Inr h"
| "shed_all (r # rs) h =
     (case close_done (rq_id r) (set_shed (rq_id r) h) of
        Inl p \<Rightarrow> Inl p
      | Inr h' \<Rightarrow> shed_all rs h')"

definition stop_queue :: "session_queue \<Rightarrow> req_heap \<Rightarrow> go_panic + (session_queue \<times> req_heap)" where
  "stop_queue sq h =
     (case shed_all (sq_q sq) h of
        Inl p \<Rightarrow> Inl p
      | Inr h' \<Rightarrow> Inr (sq\<lparr>sq_stopped := True, sq_q := []\<rparr>, h'))"

section \<open>What each operation does\<close>

lemma turn_kind_user [simp]: "rq_kind r \<noteq> TurnReaction \<longleftrightarrow> is_user r"
  by (cases "rq_kind r") auto

lemma close_done_Inr [simp]:
  "close_done i h = Inr h' \<longleftrightarrow> \<not> rs_done (h i) \<and> h' = h(i := (h i)\<lparr>rs_done := True\<rparr>)"
  by (auto simp: close_done_def)

lemma close_done_Inl [simp]: "close_done i h = Inl p \<longleftrightarrow> rs_done (h i) \<and> p = CloseOfClosedChannel"
  by (auto simp: close_done_def)

lemma enqueue_simps [simp]:
  "sq_q (enqueue r sq) = sq_q sq @ [r]" "sq_stopped (enqueue r sq) = sq_stopped sq"
  "sq_in_flight (enqueue r sq) = sq_in_flight sq" "sq_notify (enqueue r sq)"
  by (simp_all add: enqueue_def)

text \<open>A request rejected by \<open>push\<close> leaves everything as it was, and is a user turn only when
  the queue is stopped.\<close>

definition push_rejects :: "turn_req \<Rightarrow> session_queue \<Rightarrow> bool" where
  "push_rejects req sq \<longleftrightarrow>
     sq_stopped sq \<or>
     session_queue_cap \<le> length (sq_q sq) \<and> is_reaction req \<and> (\<forall>r \<in> set (sq_q sq). is_user r)"

text \<open>The reaction that \<open>push\<close> sheds: the oldest one, when the queue is at its cap.\<close>

definition push_sheds :: "session_queue \<Rightarrow> turn_req list \<Rightarrow> turn_req \<Rightarrow> turn_req list \<Rightarrow> bool" where
  "push_sheds sq ys d zs \<longleftrightarrow>
     \<not> sq_stopped sq \<and> session_queue_cap \<le> length (sq_q sq) \<and> sq_q sq = ys @ d # zs \<and>
     is_reaction d \<and> (\<forall>y \<in> set ys. is_user y)"

lemma push_cases:
  assumes "push req sq h = Inr (acc, sq', h')"
  obtains (rejected) "\<not> acc" "sq' = sq" "h' = h" "push_rejects req sq"
  | (added) "acc" "\<not> sq_stopped sq" "\<not> push_rejects req sq" "sq' = enqueue req sq" "h' = h"
      "session_queue_cap \<le> length (sq_q sq) \<Longrightarrow> \<forall>r \<in> set (sq_q sq @ [req]). is_user r"
  | (shed) ys d zs where "acc" "push_sheds sq ys d zs"
      "sq' = enqueue req (sq\<lparr>sq_q := ys @ zs\<rparr>)" "\<not> rs_done (h (rq_id d))"
      "h' = h(rq_id d := (h (rq_id d))\<lparr>rs_shed := True, rs_done := True\<rparr>)"
proof (cases "sq_stopped sq \<or> length (sq_q sq) < session_queue_cap")
  case True
  with assms show ?thesis
    using rejected added by (auto simp: push_def push_rejects_def split: if_splits)
next
  case open_full: False
  show ?thesis
  proof (cases "first_index is_reaction (sq_q sq)")
    case None
    then have users: "\<forall>r \<in> set (sq_q sq). is_user r"
      by (simp add: first_index_None)
    show ?thesis
    proof (cases "is_reaction req")
      case True
      with assms None open_full users show ?thesis
        using rejected by (simp add: push_def push_rejects_def)
    next
      case False
      with assms None open_full users show ?thesis
        using added by (simp add: push_def push_rejects_def)
    qed
  next
    case (Some i)
    then obtain ys d zs where split: "sq_q sq = ys @ d # zs" "length ys = i" "is_reaction d"
      "\<forall>y \<in> set ys. \<not> is_reaction y" "remove_at i (sq_q sq) = ys @ zs"
      by (rule first_index_split) blast
    have nth: "sq_q sq ! i = d" using split(1,2) by (simp add: nth_append)
    from assms Some open_full nth split(5)
    have "acc" "sq' = enqueue req (sq\<lparr>sq_q := ys @ zs\<rparr>)" "\<not> rs_done (h (rq_id d))"
      "h' = h(rq_id d := (h (rq_id d))\<lparr>rs_shed := True, rs_done := True\<rparr>)"
      by (auto simp: push_def Let_def set_shed_def close_done_def split: if_splits)
    moreover have "push_sheds sq ys d zs"
      using split open_full by (auto simp: push_sheds_def)
    ultimately show ?thesis using shed by blast
  qed
qed

lemma push_no_panic:
  assumes "\<forall>r \<in> set (sq_q sq). \<not> rs_done (h (rq_id r))"
  shows "\<exists>acc sq' h'. push req sq h = Inr (acc, sq', h')"
proof (cases "first_index is_reaction (sq_q sq)")
  case None
  then show ?thesis by (auto simp: push_def)
next
  case (Some i)
  then have "sq_q sq ! i \<in> set (sq_q sq)"
    using first_index_Some by fastforce
  with assms have "\<not> rs_done (set_shed (rq_id (sq_q sq ! i)) h (rq_id (sq_q sq ! i)))"
    by (simp add: set_shed_def)
  with Some show ?thesis
    by (auto simp: push_def Let_def close_done_def)
qed

lemma try_pop_Some [simp]:
  "try_pop sq = Some (r, sq') \<longleftrightarrow>
     (\<exists>rs. sq_q sq = r # rs \<and> sq' = sq\<lparr>sq_q := rs, sq_in_flight := True\<rparr>)"
  by (auto simp: try_pop_def split: list.splits)

lemma try_pop_None [simp]: "try_pop sq = None \<longleftrightarrow> sq_q sq = []"
  by (auto simp: try_pop_def split: list.splits)

lemma shed_all_Inr:
  assumes "distinct (map rq_id rs)" "\<forall>r \<in> set rs. \<not> rs_done (h (rq_id r))"
  shows "shed_all rs h = Inr (\<lambda>i. if i \<in> rq_id ` set rs
    then (h i)\<lparr>rs_shed := True, rs_done := True\<rparr> else h i)"
  using assms
proof (induction rs arbitrary: h)
  case (Cons r rs)
  let ?h = "h(rq_id r := (h (rq_id r))\<lparr>rs_shed := True, rs_done := True\<rparr>)"
  from Cons.prems have cd: "close_done (rq_id r) (set_shed (rq_id r) h) = Inr ?h"
    by (simp add: set_shed_def fun_eq_iff)
  have nd: "\<forall>x \<in> set rs. \<not> rs_done (?h (rq_id x))"
    using Cons.prems by (auto simp: image_iff)
  have "shed_all rs ?h = Inr (\<lambda>i. if i \<in> rq_id ` set rs
    then (?h i)\<lparr>rs_shed := True, rs_done := True\<rparr> else ?h i)"
    by (rule Cons.IH) (use Cons.prems nd in \<open>simp_all only: list.map distinct.simps\<close>)
  then have "shed_all (r # rs) h = Inr (\<lambda>i. if i \<in> rq_id ` set rs
    then (?h i)\<lparr>rs_shed := True, rs_done := True\<rparr> else ?h i)"
    by (simp only: shed_all.simps cd sum.case)
  then show ?case by (auto simp: fun_eq_iff)
qed simp

section \<open>The contract the session runner relies on\<close>

text \<open>
  \<open>runTurns\<close> and the submitters share the queue through two operations. The contract: what
  comes out, followed by what is still queued, is a subsequence of what went in (FIFO with
  losses), and elements marked \<open>keep\<close> are never lost. \<open>ok\<close> is the state invariant and
  \<open>fresh\<close> the submitter's obligation.
\<close>

datatype 'r queue_op = Put 'r | Get

fun run_ops ::
  "('r \<Rightarrow> 'q \<Rightarrow> 'q) \<Rightarrow> ('q \<Rightarrow> ('r \<times> 'q) option) \<Rightarrow> 'r queue_op list \<Rightarrow> 'q \<Rightarrow> 'r list \<times> 'q" where
  "run_ops put get [] q = ([], q)"
| "run_ops put get (Put r # ops) q = run_ops put get ops (put r q)"
| "run_ops put get (Get # ops) q =
     (case get q of
        None \<Rightarrow> run_ops put get ops q
      | Some (r, q') \<Rightarrow> (let (out, q'') = run_ops put get ops q' in (r # out, q'')))"

fun puts_of :: "'r queue_op list \<Rightarrow> 'r list" where
  "puts_of [] = []"
| "puts_of (Put r # ops) = r # puts_of ops"
| "puts_of (Get # ops) = puts_of ops"

locale shedding_fifo =
  fixes items :: "'q \<Rightarrow> 'r list"
    and put :: "'r \<Rightarrow> 'q \<Rightarrow> 'q"
    and get :: "'q \<Rightarrow> ('r \<times> 'q) option"
    and keep :: "'r \<Rightarrow> bool"
    and key :: "'r \<Rightarrow> 'k"
    and ok :: "'k set \<Rightarrow> 'q \<Rightarrow> bool"
  assumes get_None: "get q = None \<Longrightarrow> items q = []"
    and get_Some: "get q = Some (r, q') \<Longrightarrow> items q = r # items q'"
    and get_ok: "ok used q \<Longrightarrow> get q = Some (r, q') \<Longrightarrow> ok used q'"
    and put_order: "ok used q \<Longrightarrow> key r \<notin> used \<Longrightarrow> subseq (items (put r q)) (items q @ [r])"
    and put_keep: "ok used q \<Longrightarrow> key r \<notin> used \<Longrightarrow>
      filter keep (items (put r q)) = filter keep (items q @ [r])"
    and put_ok: "ok used q \<Longrightarrow> key r \<notin> used \<Longrightarrow> ok (insert (key r) used) (put r q)"
begin

lemma run_ops_fifo:
  assumes "ok used q" "distinct (map key (puts_of ops))" "key ` set (puts_of ops) \<inter> used = {}"
    and "run_ops put get ops q = (out, q')"
  shows "subseq (out @ items q') (items q @ puts_of ops)"
    and "filter keep (out @ items q') = filter keep (items q @ puts_of ops)"
proof -
  from assms have "subseq (out @ items q') (items q @ puts_of ops) \<and>
    filter keep (out @ items q') = filter keep (items q @ puts_of ops)"
  proof (induction ops arbitrary: q out used)
    case Nil
    then show ?case by simp
  next
    case (Cons op ops)
    show ?case
    proof (cases op)
      case (Put r)
      with Cons.prems have r: "key r \<notin> used" and run: "run_ops put get ops (put r q) = (out, q')"
        and d: "distinct (map key (puts_of ops))"
        and fr: "key ` set (puts_of ops) \<inter> insert (key r) used = {}"
        by auto
      from Cons.IH [OF put_ok [OF Cons.prems(1) r] d fr run]
      have sub: "subseq (out @ items q') (items (put r q) @ puts_of ops)"
        and kept: "filter keep (out @ items q') = filter keep (items (put r q)) @ filter keep (puts_of ops)"
        by simp_all
      have "subseq (items (put r q) @ puts_of ops) ((items q @ [r]) @ puts_of ops)"
        by (rule subseq_append_right) (rule put_order [OF Cons.prems(1) r])
      with sub have "subseq (out @ items q') ((items q @ [r]) @ puts_of ops)"
        by (rule subseq_order.order_trans)
      with kept put_keep [OF Cons.prems(1) r] Put show ?thesis by simp
    next
      case Get
      show ?thesis
      proof (cases "get q")
        case None
        with Get Cons show ?thesis by simp
      next
        case (Some p)
        then obtain r q1 where g: "get q = Some (r, q1)" by (cases p) auto
        obtain out1 where run: "run_ops put get ops q1 = (out1, q')" and out: "out = r # out1"
          using Cons.prems(4) Get g by (auto split: prod.splits)
        from Cons.IH [OF get_ok [OF Cons.prems(1) g] _ _ run] Cons.prems Get
        show ?thesis by (simp add: out get_Some [OF g])
      qed
    qed
  qed
  then show "subseq (out @ items q') (items q @ puts_of ops)"
    and "filter keep (out @ items q') = filter keep (items q @ puts_of ops)" by simp_all
qed

end

text \<open>The model's queue, with the heap of request statuses, provides the contract for user
  turns: a reaction may be lost, a user turn never is.\<close>

type_synonym queue_state = "session_queue \<times> req_heap"

definition put_req :: "turn_req \<Rightarrow> queue_state \<Rightarrow> queue_state" where
  "put_req r st = (case st of (sq, h) \<Rightarrow>
     (case push r sq h of Inl p \<Rightarrow> (sq, h) | Inr (acc, sq', h') \<Rightarrow> (sq', h')))"

definition get_req :: "queue_state \<Rightarrow> (turn_req \<times> queue_state) option" where
  "get_req st = (case st of (sq, h) \<Rightarrow>
     map_option (\<lambda>(r, sq'). (r, (sq', h))) (try_pop sq))"

definition queue_ok :: "nat set \<Rightarrow> queue_state \<Rightarrow> bool" where
  "queue_ok used st \<longleftrightarrow> (case st of (sq, h) \<Rightarrow>
     \<not> sq_stopped sq \<and> distinct (map rq_id (sq_q sq)) \<and> rq_id ` set (sq_q sq) \<subseteq> used \<and>
     (\<forall>i. i \<in> rq_id ` set (sq_q sq) \<or> i \<notin> used \<longrightarrow> \<not> rs_done (h i)))"

definition queue_items :: "queue_state \<Rightarrow> turn_req list" where
  "queue_items st = sq_q (fst st)"

lemma put_req_cases:
  assumes "queue_ok used (sq, h)"
  obtains (rejected) "put_req r (sq, h) = (sq, h)" "push_rejects r sq"
  | (added) "put_req r (sq, h) = (enqueue r sq, h)" "\<not> push_rejects r sq"
      "session_queue_cap \<le> length (sq_q sq) \<Longrightarrow> \<forall>x \<in> set (sq_q sq @ [r]). is_user x"
  | (shed) ys d zs where "push_sheds sq ys d zs"
      "put_req r (sq, h) = (enqueue r (sq\<lparr>sq_q := ys @ zs\<rparr>),
         h(rq_id d := (h (rq_id d))\<lparr>rs_shed := True, rs_done := True\<rparr>))"
proof -
  from assms have "\<forall>x \<in> set (sq_q sq). \<not> rs_done (h (rq_id x))"
    by (auto simp: queue_ok_def)
  then obtain acc sq' h' where p: "push r sq h = Inr (acc, sq', h')"
    using push_no_panic by blast
  then have put: "put_req r (sq, h) = (sq', h')" by (simp add: put_req_def)
  from p show thesis
  proof (cases rule: push_cases)
    case rejected
    with put that(1) show ?thesis by simp
  next
    case added
    with put that(2) show ?thesis by simp
  next
    case (shed ys d zs)
    with put that(3) show ?thesis by simp
  qed
qed

lemma put_req_order:
  assumes "queue_ok used (sq, h)"
  shows "subseq (queue_items (put_req r (sq, h))) (sq_q sq @ [r])"
  using assms
proof (cases rule: put_req_cases [where r = r])
  case (shed ys d zs)
  then show ?thesis
    by (auto simp: queue_items_def push_sheds_def intro!: list_emb_append_mono)
qed (simp_all add: queue_items_def subseq_snoc_skip)

lemma put_req_keep:
  assumes "queue_ok used (sq, h)"
  shows "filter is_user (queue_items (put_req r (sq, h))) = filter is_user (sq_q sq @ [r])"
  using assms
proof (cases rule: put_req_cases [where r = r])
  case rejected
  with assms show ?thesis by (simp add: queue_items_def push_rejects_def queue_ok_def)
next
  case (shed ys d zs)
  then show ?thesis by (simp add: queue_items_def push_sheds_def)
qed (simp add: queue_items_def)

lemma put_req_ok:
  assumes "queue_ok used (sq, h)" "rq_id r \<notin> used"
  shows "queue_ok (insert (rq_id r) used) (put_req r (sq, h))"
  using assms(1)
proof (cases rule: put_req_cases [where r = r])
  case rejected
  with assms show ?thesis by (auto simp: queue_ok_def)
next
  case added
  with assms show ?thesis by (auto simp: queue_ok_def)
next
  case (shed ys d zs)
  then have "sq_q sq = ys @ d # zs" by (simp add: push_sheds_def)
  with assms have "rq_id d \<notin> rq_id ` set (ys @ zs)" "rq_id d \<noteq> rq_id r"
    "rq_id d \<in> used" "distinct (map rq_id (ys @ zs))" "rq_id ` set (ys @ zs) \<subseteq> used"
    "\<not> sq_stopped sq" "\<And>i. i \<in> rq_id ` set (ys @ zs) \<or> i \<notin> used \<Longrightarrow> \<not> rs_done (h i)"
    by (auto simp: queue_ok_def)
  with shed(2) assms(2) show ?thesis by (auto simp: queue_ok_def)
qed

interpretation fifo: shedding_fifo queue_items put_req get_req is_user rq_id queue_ok
proof (unfold_locales, goal_cases)
  case (1 q)
  then show ?case by (cases q) (simp add: get_req_def queue_items_def)
next
  case (2 q r q')
  then show ?case by (cases q) (auto simp: get_req_def queue_items_def)
next
  case (3 used q r q')
  then show ?case by (cases q) (auto simp: get_req_def queue_ok_def)
next
  case (4 used q r)
  then show ?case by (cases q) (simp add: put_req_order queue_items_def [of "(_, _)"])
next
  case (5 used q r)
  then show ?case by (cases q) (simp add: put_req_keep queue_items_def [of "(_, _)"])
next
  case (6 used q r)
  then show ?case by (cases q) (simp add: put_req_ok)
qed

section \<open>FIFO order, no lost user turn, bounded reactions\<close>

lemma new_queue_ok: "queue_ok {} (new_session_queue, \<lambda>_. fresh_status)"
  by (simp add: queue_ok_def new_session_queue_def fresh_status_def)

text \<open>The soft cap: the queue grows past it with user turns only.\<close>

definition queue_capped :: "queue_state \<Rightarrow> bool" where
  "queue_capped st \<longleftrightarrow>
     (session_queue_cap < length (queue_items st) \<longrightarrow> (\<forall>r \<in> set (queue_items st). is_user r))"

lemma put_req_capped:
  assumes "queue_ok used st" "queue_capped st"
  shows "queue_capped (put_req r st)"
proof -
  obtain sq h where st: "st = (sq, h)" by (cases st)
  from assms(1) [unfolded st] show ?thesis
  proof (cases rule: put_req_cases [where r = r])
    case added
    with assms(2) show ?thesis
      by (auto simp: st queue_capped_def queue_items_def less_Suc_eq_le)
  next
    case (shed ys d zs)
    with assms(2) show ?thesis
      by (auto simp: st queue_capped_def queue_items_def push_sheds_def)
  qed (use assms(2) in \<open>simp add: st\<close>)
qed

lemma get_req_capped: "queue_capped st \<Longrightarrow> get_req st = Some (r, st') \<Longrightarrow> queue_capped st'"
  by (cases st) (auto simp: queue_capped_def queue_items_def get_req_def)

lemma run_ops_capped:
  assumes "queue_ok used st" "queue_capped st" "distinct (map rq_id (puts_of ops))"
    and "rq_id ` set (puts_of ops) \<inter> used = {}" "run_ops put_req get_req ops st = (out, st')"
  shows "queue_capped st'"
  using assms
proof (induction ops arbitrary: st out used)
  case (Cons op ops)
  show ?case
  proof (cases op)
    case (Put r)
    with Cons.prems have "rq_id r \<notin> used" by auto
    with Cons.prems Put show ?thesis
      by (intro Cons.IH [OF fifo.put_ok [of used st r] put_req_capped]) auto
  next
    case Get
    show ?thesis
    proof (cases "get_req st")
      case (Some p)
      with Cons.prems Get have "get_req st = Some (fst p, snd p)"
        "run_ops put_req get_req ops (snd p) = (tl out, st')"
        by (auto split: prod.splits)
      with Cons.prems Get show ?thesis
        by (intro Cons.IH [OF fifo.get_ok get_req_capped, of used st "fst p" "snd p" st "fst p"]) auto
    qed (use Cons Get in auto)
  qed
qed simp

text \<open>C9: Turns leave a session's queue in the order they were pushed, and no accepted user turn is
  lost: for any sequence of \<open>push\<close> and \<open>popOrWait\<close> calls on a new queue, what was popped
  followed by what is still queued is a subsequence of what was pushed, with exactly the same
  user turns.\<close>

theorem queue_fifo_keeps_user_turns:
  assumes "distinct (map rq_id (puts_of ops))"
    and "run_ops put_req get_req ops (new_session_queue, \<lambda>_. fresh_status) = (out, st)"
  shows "subseq (out @ queue_items st) (puts_of ops) \<and>
    filter is_user (out @ queue_items st) = filter is_user (puts_of ops)"
  using fifo.run_ops_fifo [OF new_queue_ok assms(1) _ assms(2)]
  by (simp add: queue_items_def new_session_queue_def)

text \<open>Reactions are bounded: after any such sequence at most 32 reactions are pending, and when
  more than 32 turns are pending they are all user turns.\<close>

theorem queue_reactions_bounded:
  assumes "distinct (map rq_id (puts_of ops))"
    and "run_ops put_req get_req ops (new_session_queue, \<lambda>_. fresh_status) = (out, st)"
  shows "length (filter is_reaction (queue_items st)) \<le> session_queue_cap \<and>
    (session_queue_cap < length (queue_items st) \<longrightarrow> filter is_reaction (queue_items st) = [])"
proof -
  have "queue_capped (new_session_queue, \<lambda>_. fresh_status)"
    by (simp add: queue_capped_def queue_items_def new_session_queue_def)
  with new_queue_ok assms have "queue_capped st"
    by (auto intro: run_ops_capped)
  then show ?thesis
    using length_filter_le [of is_reaction "queue_items st"]
    by (cases "session_queue_cap < length (queue_items st)")
      (auto simp: queue_capped_def filter_empty_conv simp del: length_filter_le)
qed

text \<open>Concrete requests for the witnesses.\<close>

definition demo_req :: "nat \<Rightarrow> turn_kind \<Rightarrow> turn_req" where
  "demo_req i k = \<lparr>rq_id = i, rq_kind = k, rq_ctx = i,
     rq_sink = (if k = TurnUser then HttpSink i else DiscardSink ''c''),
     rq_opts = no_options, rq_blocks = [TextBlock ''hi''], rq_hide_thinking = False,
     rq_enqueued_at = 0\<rparr>"

lemma demo_req_simps [simp]:
  "rq_id (demo_req i k) = i" "rq_kind (demo_req i k) = k" "demo_req i k = demo_req j k \<longleftrightarrow> i = j"
  by (auto simp: demo_req_def)

text \<open>A full queue: one reaction among 31 user turns, then a user turn that sheds it.\<close>

definition demo_ops :: "turn_req queue_op list" where
  "demo_ops = map (\<lambda>i. Put (demo_req i (if i = 3 then TurnReaction else TurnUser))) [0..<33] @ [Get]"

lemma puts_of_append [simp]: "puts_of (xs @ ys) = puts_of xs @ puts_of ys"
  by (induction xs rule: puts_of.induct) auto

lemma puts_of_map_Put [simp]: "puts_of (map (\<lambda>x. Put (f x)) xs) = map f xs"
  by (induction xs) auto

lemma demo_ops_puts:
  "puts_of demo_ops = map (\<lambda>i. demo_req i (if i = 3 then TurnReaction else TurnUser)) [0..<33]"
  by (simp add: demo_ops_def)

lemma demo_ops_distinct: "distinct (map rq_id (puts_of demo_ops))"
  by (simp add: demo_ops_puts comp_def)

theorem queue_fifo_keeps_user_turns_witness:
  "\<exists>out st. run_ops put_req get_req demo_ops (new_session_queue, \<lambda>_. fresh_status) = (out, st) \<and>
     filter is_user (out @ queue_items st) = filter is_user (puts_of demo_ops)"
proof -
  obtain out st where r:
    "run_ops put_req get_req demo_ops (new_session_queue, \<lambda>_. fresh_status) = (out, st)"
    by (cases "run_ops put_req get_req demo_ops (new_session_queue, \<lambda>_. fresh_status)")
  from queue_fifo_keeps_user_turns [OF demo_ops_distinct r] r show ?thesis by blast
qed

theorem queue_reactions_bounded_witness:
  "\<exists>out st. run_ops put_req get_req demo_ops (new_session_queue, \<lambda>_. fresh_status) = (out, st) \<and>
     length (filter is_reaction (queue_items st)) \<le> session_queue_cap"
proof -
  obtain out st where r:
    "run_ops put_req get_req demo_ops (new_session_queue, \<lambda>_. fresh_status) = (out, st)"
    by (cases "run_ops put_req get_req demo_ops (new_session_queue, \<lambda>_. fresh_status)")
  from queue_reactions_bounded [OF demo_ops_distinct r] r show ?thesis by blast
qed

end
