(* ===== verification/Chunk_Drain.thy ===== *)
theory Chunk_Drain
  imports Relay_Types
begin

text \<open>
  The drain of a session's chunk channel (\<open>drainChunks\<close>, \<open>drainProcessChunk\<close>,
  \<open>OnUpdate\<close>; internal/router/router.go). Messages arrive in channel order: a turn begins
  with its sink, streaming notifications follow, a turn ends with an acknowledgement. The
  section on rendering characterises exactly what one turn's sink receives: the visible
  chunks, with runs of thoughts set as Markdown block quotes.
\<close>

section \<open>State and messages\<close>

datatype chunk_kind = ChunkNone | ChunkMessage | ChunkThought

record turn_def =
  td_sink :: sink_ref
  td_hide_thinking :: bool

text \<open>\<open>chunkMsg\<close>: the kind of message is which field is set.\<close>

datatype chunk_msg =
    MsgNotif session_update
  | MsgBeginTurn turn_def
  | MsgEndTurn nat

text \<open>The local variables of \<open>drainChunks\<close>.\<close>

record drain_state =
  dr_td :: "turn_def option"
  dr_first :: bool
  dr_mode :: chunk_kind

definition drain_init :: drain_state where
  "drain_init = \<lparr>dr_td = None, dr_first = False, dr_mode = ChunkNone\<rparr>"

section \<open>One notification\<close>

definition classify :: "session_update \<Rightarrow> (chunk_kind \<times> gostring) option" where
  "classify u =
     (case upd_message u of
        Some (Some t) \<Rightarrow> Some (ChunkMessage, t)
      | _ \<Rightarrow>
        (case upd_thought u of
           Some (Some t) \<Rightarrow> Some (ChunkThought, t)
         | _ \<Rightarrow> None))"

definition thinking_header :: gostring where
  "thinking_header = ''> _Thinking'' @ u_ellipsis @ ''_'' @ [nl] @ ''> ''"

text \<open>\<open>strings.ReplaceAll(text, "\n", "\n> ")\<close>.\<close>

definition quote_newlines :: "gostring \<Rightarrow> gostring" where
  "quote_newlines s = concat (map (\<lambda>c. if c = nl then nl # ''> '' else [c]) s)"

definition chunk_prefix :: "chunk_kind \<Rightarrow> chunk_kind \<Rightarrow> gostring" where
  "chunk_prefix mode kind =
     (if mode = ChunkNone \<and> kind = ChunkThought then thinking_header
      else if mode = ChunkMessage \<and> kind = ChunkThought then [nl, nl] @ thinking_header
      else if mode = ChunkThought \<and> kind = ChunkMessage then [nl, nl]
      else [])"

definition drain_process_chunk ::
  "session_update \<Rightarrow> turn_def \<Rightarrow> bool \<Rightarrow> chunk_kind \<Rightarrow> bool \<times> chunk_kind \<times> sink_event list" where
  "drain_process_chunk u td first mode =
     (case classify u of
        None \<Rightarrow> (first, mode, [])
      | Some (kind, text) \<Rightarrow>
          if text = [] \<or> kind = ChunkThought \<and> td_hide_thinking td then (first, mode, [])
          else
            (let prefix = chunk_prefix mode kind;
                 body = (if kind = ChunkThought then quote_newlines text else text) in
             (True, kind, (if first then [] else [EvFirstChunk]) @ [EvText (prefix @ body)])))"

section \<open>The drain loop\<close>

text \<open>One iteration: the new state, the calls on the current sink, the acknowledged end of
  turn if there is one.\<close>

fun drain_step ::
  "chunk_msg \<Rightarrow> drain_state \<Rightarrow> drain_state \<times> (sink_ref \<times> sink_event) list \<times> nat option" where
  "drain_step (MsgBeginTurn td) d =
     (d\<lparr>dr_td := Some td, dr_first := False, dr_mode := ChunkNone\<rparr>, [], None)"
| "drain_step (MsgEndTurn ack) d = (d\<lparr>dr_td := None\<rparr>, [], Some ack)"
| "drain_step (MsgNotif u) d =
     (case dr_td d of
        None \<Rightarrow> (d, [], None)
      | Some td \<Rightarrow>
          (case drain_process_chunk u td (dr_first d) (dr_mode d) of
             (first, mode, evs) \<Rightarrow>
               (d\<lparr>dr_first := first, dr_mode := mode\<rparr>, map (Pair (td_sink td)) evs, None)))"

fun drain_run ::
  "chunk_msg list \<Rightarrow> drain_state \<Rightarrow> drain_state \<times> (sink_ref \<times> sink_event) list" where
  "drain_run [] d = (d, [])"
| "drain_run (m # ms) d =
     (case drain_step m d of (d', evs, _) \<Rightarrow>
       (case drain_run ms d' of (d'', evs') \<Rightarrow> (d'', evs @ evs')))"

text \<open>The calls a turn's sink receives for the notifications drained during the turn.\<close>

fun drain_updates :: "turn_def \<Rightarrow> session_update list \<Rightarrow> bool \<Rightarrow> chunk_kind \<Rightarrow> sink_event list" where
  "drain_updates td [] first mode = []"
| "drain_updates td (u # us) first mode =
     (case drain_process_chunk u td first mode of
        (first', mode', evs) \<Rightarrow> evs @ drain_updates td us first' mode')"

section \<open>What a turn renders\<close>

text \<open>The chunks a turn shows: message and thought texts that are not empty, without the
  thoughts when they are hidden.\<close>

definition visible :: "bool \<Rightarrow> chunk_kind \<times> gostring \<Rightarrow> bool" where
  "visible hide c \<longleftrightarrow> snd c \<noteq> [] \<and> \<not> (fst c = ChunkThought \<and> hide)"

definition turn_chunks :: "bool \<Rightarrow> session_update list \<Rightarrow> (chunk_kind \<times> gostring) list" where
  "turn_chunks hide us = filter (visible hide) (List.map_filter classify us)"

text \<open>Adjacent chunks of one kind form a block.\<close>

fun group_runs :: "(chunk_kind \<times> gostring) list \<Rightarrow> (chunk_kind \<times> gostring) list" where
  "group_runs [] = []"
| "group_runs ((k, t) # cs) =
     (case group_runs cs of
        (k', t') # rs \<Rightarrow> if k = k' then (k, t @ t') # rs else (k, t) # (k', t') # rs
      | [] \<Rightarrow> [(k, t)])"

definition render_block :: "chunk_kind \<times> gostring \<Rightarrow> gostring" where
  "render_block b =
     (if fst b = ChunkThought then thinking_header @ quote_newlines (snd b) else snd b)"

fun join_blocks :: "gostring list \<Rightarrow> gostring" where
  "join_blocks [] = []"
| "join_blocks [b] = b"
| "join_blocks (b # bs) = b @ [nl, nl] @ join_blocks bs"

text \<open>The specification: blocks separated by a blank line.\<close>

definition render_turn :: "bool \<Rightarrow> session_update list \<Rightarrow> gostring" where
  "render_turn hide us = join_blocks (map render_block (group_runs (turn_chunks hide us)))"

text \<open>What the sink's \<open>Text\<close> calls add up to.\<close>

fun text_of :: "sink_event list \<Rightarrow> gostring" where
  "text_of [] = []"
| "text_of (EvText t # es) = t @ text_of es"
| "text_of (_ # es) = text_of es"

lemma text_of_append [simp]: "text_of (xs @ ys) = text_of xs @ text_of ys"
  by (induction xs rule: text_of.induct) auto

lemma quote_newlines_simps [simp]:
  "quote_newlines [] = []" "quote_newlines (s @ t) = quote_newlines s @ quote_newlines t"
  by (simp_all add: quote_newlines_def)

text \<open>The chunk pieces, by recursion over the visible chunks.\<close>

fun piece :: "chunk_kind \<Rightarrow> chunk_kind \<times> gostring \<Rightarrow> gostring" where
  "piece mode (k, t) = chunk_prefix mode k @ (if k = ChunkThought then quote_newlines t else t)"

fun pieces :: "chunk_kind \<Rightarrow> (chunk_kind \<times> gostring) list \<Rightarrow> gostring list" where
  "pieces mode [] = []"
| "pieces mode (c # cs) = piece mode c # pieces (fst c) cs"

lemma turn_chunks_simps [simp]:
  "turn_chunks hide [] = []"
  "turn_chunks hide (u # us) =
     (case classify u of
        None \<Rightarrow> turn_chunks hide us
      | Some c \<Rightarrow> if visible hide c then c # turn_chunks hide us else turn_chunks hide us)"
  by (simp_all add: turn_chunks_def List.map_filter_simps split: option.splits)

lemma classify_kind: "classify u = Some (k, t) \<Longrightarrow> k = ChunkMessage \<or> k = ChunkThought"
  by (auto simp: classify_def split: option.splits)

lemma turn_chunks_kinds: "(k, t) \<in> set (turn_chunks hide us) \<Longrightarrow> k \<noteq> ChunkNone"
  by (induction us) (auto split: option.splits if_splits dest: classify_kind)

lemma drain_updates_pieces:
  "drain_updates td us first mode =
     (let cs = turn_chunks (td_hide_thinking td) us in
      (if first \<or> cs = [] then [] else [EvFirstChunk]) @ map EvText (pieces mode cs))"
  by (induction us arbitrary: first mode)
    (auto simp: drain_process_chunk_def visible_def Let_def split: option.splits)

lemma text_of_map_EvText [simp]: "text_of (map EvText ts) = concat ts"
  by (induction ts) auto

lemma group_runs_Cons_head:
  "\<exists>t' rs. group_runs ((k, t) # cs) = (k, t @ t') # rs"
  by (auto split: list.splits)

lemma join_blocks_Cons:
  "join_blocks (b # bs) = b @ concat (map (\<lambda>c. [nl, nl] @ c) bs)"
  by (induction bs arbitrary: b) auto

lemma pieces_group_runs:
  assumes "k \<noteq> ChunkNone" "\<forall>c \<in> set cs. fst c \<noteq> ChunkNone"
    and "group_runs ((k, t) # cs) = (k, t @ t') # rs"
  shows "concat (pieces k cs) = (if k = ChunkThought then quote_newlines t' else t') @
    concat (map (\<lambda>b. [nl, nl] @ render_block b) rs)"
  using assms
proof (induction cs arbitrary: k t t' rs)
  case Nil
  then show ?case by simp
next
  case (Cons c cs)
  obtain k1 t1 where c: "c = (k1, t1)" by (cases c)
  obtain u1 rs1 where g: "group_runs ((k1, t1) # cs) = (k1, t1 @ u1) # rs1"
    using group_runs_Cons_head by blast
  have k1: "k1 \<noteq> ChunkNone" and tail: "\<forall>c \<in> set cs. fst c \<noteq> ChunkNone"
    using Cons.prems(2) c by auto
  note IH = Cons.IH [OF k1 tail g]
  have split: "group_runs ((k, t) # c # cs) =
    (if k = k1 then (k, t @ t1 @ u1) # rs1 else (k, t) # (k1, t1 @ u1) # rs1)"
    by (subst group_runs.simps) (simp only: c g list.case prod.case)
  show ?case
  proof (cases "k = k1")
    case True
    with split Cons.prems(3) have "t' = t1 @ u1" "rs = rs1" by simp_all
    with True k1 IH show ?thesis
      by (cases k1) (simp_all add: c chunk_prefix_def)
  next
    case False
    with split Cons.prems(3) have "t' = []" "rs = (k1, t1 @ u1) # rs1" by simp_all
    with False k1 Cons.prems(1) IH show ?thesis
      by (cases k1; cases k) (simp_all add: c chunk_prefix_def render_block_def)
  qed
qed

lemma concat_pieces_render:
  assumes "\<forall>c \<in> set cs. fst c \<noteq> ChunkNone"
  shows "concat (pieces ChunkNone cs) = join_blocks (map render_block (group_runs cs))"
proof (cases cs)
  case (Cons c cs')
  obtain k t where c: "c = (k, t)" by (cases c)
  obtain t' rs where g: "group_runs ((k, t) # cs') = (k, t @ t') # rs"
    using group_runs_Cons_head by blast
  from assms Cons c have "k \<noteq> ChunkNone" "\<forall>c \<in> set cs'. fst c \<noteq> ChunkNone" by auto
  from pieces_group_runs [OF this g] \<open>k \<noteq> ChunkNone\<close> show ?thesis
    unfolding Cons c g
    by (cases k) (simp_all add: chunk_prefix_def render_block_def join_blocks_Cons comp_def)
qed simp

lemma concat_pieces_turn:
  "concat (pieces ChunkNone (turn_chunks hide us)) = render_turn hide us"
  unfolding render_turn_def
  by (rule concat_pieces_render) (auto dest: turn_chunks_kinds)

lemma length_pieces [simp]: "length (pieces mode cs) = length cs"
  by (induction cs arbitrary: mode) auto

text \<open>C11: During one turn the drain calls \<open>FirstChunk\<close> once, before any text and only when
  something is shown, then one \<open>Text\<close> per visible chunk; together the texts are the
  specified rendering of the turn, whatever way the agent cut its output into chunks:
  message blocks and quoted thinking blocks separated by a blank line.\<close>

theorem drain_renders_turn:
  "\<exists>ts. drain_updates td us False ChunkNone =
      (if turn_chunks (td_hide_thinking td) us = [] then [] else EvFirstChunk # map EvText ts) \<and>
    length ts = length (turn_chunks (td_hide_thinking td) us) \<and>
    concat ts = render_turn (td_hide_thinking td) us"
  by (rule exI [where x = "pieces ChunkNone (turn_chunks (td_hide_thinking td) us)"])
    (simp add: drain_updates_pieces Let_def concat_pieces_turn)

section \<open>Turns do not leak into each other\<close>

lemma drain_run_append:
  "drain_run (xs @ ys) d =
     (case drain_run xs d of (d', evs) \<Rightarrow>
       (case drain_run ys d' of (d'', evs') \<Rightarrow> (d'', evs @ evs')))"
  by (induction xs arbitrary: d) (auto split: prod.splits)

lemma drain_run_idle: "dr_td d = None \<Longrightarrow> drain_run (map MsgNotif us) d = (d, [])"
  by (induction us) auto

lemma drain_run_turn:
  "dr_td d = Some td \<Longrightarrow>
     snd (drain_run (map MsgNotif us) d) =
       map (Pair (td_sink td)) (drain_updates td us (dr_first d) (dr_mode d)) \<and>
     dr_td (fst (drain_run (map MsgNotif us) d)) = Some td"
proof (induction us arbitrary: d)
  case (Cons u us)
  obtain f m evs where p: "drain_process_chunk u td (dr_first d) (dr_mode d) = (f, m, evs)"
    by (cases "drain_process_chunk u td (dr_first d) (dr_mode d)")
  from Cons.IH [of "d\<lparr>dr_first := f, dr_mode := m\<rparr>"] Cons.prems p show ?case
    by (auto split: prod.splits)
qed simp

text \<open>A chunk that reaches the drain outside a turn is dropped, and within a turn only that
  turn's sink is written: after the end of a turn, late notifications, and a new turn with its
  notifications, the only new sink calls are those of the new turn, on its own sink.\<close>

theorem drain_isolates_turns:
  "snd (drain_run (ms @ MsgEndTurn a # map MsgNotif late @
       MsgBeginTurn td # map MsgNotif us @ [MsgEndTurn b]) d) =
     snd (drain_run ms d) @ map (Pair (td_sink td)) (drain_updates td us False ChunkNone)"
proof -
  obtain d1 e1 where 1: "drain_run ms d = (d1, e1)" by (cases "drain_run ms d")
  let ?d2 = "d1\<lparr>dr_td := None\<rparr>"
  let ?d3 = "d1\<lparr>dr_td := Some td, dr_first := False, dr_mode := ChunkNone\<rparr>"
  obtain d4 e4 where 4: "drain_run (map MsgNotif us) ?d3 = (d4, e4)"
    by (cases "drain_run (map MsgNotif us) ?d3")
  from drain_run_turn [of ?d3 td us] 4
  have "e4 = map (Pair (td_sink td)) (drain_updates td us False ChunkNone)" by simp
  then show ?thesis
    by (simp add: drain_run_append 1 4 drain_run_idle [of ?d2])
qed

definition is_thought :: "session_update \<Rightarrow> bool" where
  "is_thought u \<longleftrightarrow> (case classify u of Some (ChunkThought, t) \<Rightarrow> True | _ \<Rightarrow> False)"

text \<open>With \<open>hide_thinking\<close> the sink receives exactly what it would receive had the agent
  sent no thought chunks at all: hidden thoughts leave no separator and no first-chunk signal.\<close>

theorem hide_thinking_erases_thoughts:
  "drain_updates \<lparr>td_sink = k, td_hide_thinking = True\<rparr> us first mode =
   drain_updates \<lparr>td_sink = k, td_hide_thinking = hide\<rparr> (filter (\<lambda>u. \<not> is_thought u) us) first mode"
proof -
  have "turn_chunks True us = turn_chunks hide (filter (\<lambda>u. \<not> is_thought u) us)"
    by (induction us)
      (auto simp: is_thought_def visible_def split: option.splits chunk_kind.splits prod.splits)
  then show ?thesis by (simp add: drain_updates_pieces)
qed

end
