(* ===== verification/Router_State.thy ===== *)
theory Router_State
  imports Session_Queue Chunk_Drain
begin

text \<open>
  The router's state (\<open>Router\<close>, \<open>sessionState\<close>, \<open>Config\<close>; internal/router/router.go) and the
  agent it drives. A \<open>*sessionState\<close> is an index into a heap of session objects, because a
  session outlives its entry in the map while its goroutines still hold the pointer. The Go
  map from conversation ids is an association list without duplicate keys. The agent is
  outside the repository: each of its answers is an argument of the model, and every call
  made on it is recorded in the history \<open>ro_calls\<close>; calls on sinks are recorded in
  \<open>ro_events\<close>.
\<close>

section \<open>The agent\<close>

text \<open>\<open>acpclient.Caps\<close>.\<close>

record caps =
  cap_load_session :: bool
  cap_list_sessions :: bool
  cap_resume_session :: bool
  cap_embedded_context :: bool
  cap_system_prompt :: bool

datatype agent_call =
    CallNewSession gostring "content_block list"        \<comment> \<open>cwd, system prompt blocks\<close>
  | CallListSessions gostring
  | CallResumeSession gostring gostring                 \<comment> \<open>cwd, session id\<close>
  | CallPrompt gostring "content_block list"
  | CallCancel gostring
  | CallSetModel gostring gostring
  | CallSetConfig gostring gostring gostring            \<comment> \<open>session id, config id, value\<close>

text \<open>The answers of the agent: a prompt is answered by the notifications it emits before it
  returns, and a stop reason or an error.\<close>

record agent_env =
  ag_caps :: caps
  ag_new_session :: "gostring \<Rightarrow> content_block list \<Rightarrow> gostring fallible"
  ag_list_sessions :: "gostring \<Rightarrow> gostring list fallible"
  ag_resume_session :: "gostring \<Rightarrow> gostring \<Rightarrow> error"
  ag_set_model :: "gostring \<Rightarrow> gostring \<Rightarrow> error"
  ag_set_config :: "gostring \<Rightarrow> gostring \<Rightarrow> gostring \<Rightarrow> error"
  ag_prompt :: "gostring \<Rightarrow> content_block list \<Rightarrow> session_update list \<times> stop_reason fallible"
  ag_cancel :: "gostring \<Rightarrow> error"

section \<open>Configuration, sessions, router\<close>

record router_config =
  cfg_state_dir :: gostring
  cfg_session_ttl :: int
  cfg_defaults :: options
  cfg_system_prompt :: gostring
  cfg_max_inline_image_bytes :: int
  cfg_max_attachment_bytes :: int
  cfg_attachment_ttl :: int

record session_state =
  ss_conv_id :: gostring
  ss_user_id :: gostring
  ss_session_id :: gostring
  ss_cwd :: gostring
  ss_queue :: session_queue
  ss_run_stop :: bool       \<comment> \<open>\<open>runStop\<close> is closed\<close>
  ss_drain_stop :: bool     \<comment> \<open>\<open>drainStop\<close> is closed\<close>
  ss_drain :: drain_state
  ss_applied :: options
  ss_last_used :: int
  ss_pending_inline :: bool

record router =
  ro_sessions :: "(gostring \<times> nat) list"
  ro_objs :: "nat \<Rightarrow> session_state"
  ro_next_obj :: nat
  ro_reqs :: req_heap
  ro_next_req :: nat
  ro_calls :: "agent_call list"
  ro_events :: "(sink_ref \<times> sink_event) list"
  ro_files :: "gostring \<Rightarrow> gostring option"   \<comment> \<open>attachments on disk, by path\<close>

definition upd_session :: "nat \<Rightarrow> (session_state \<Rightarrow> session_state) \<Rightarrow> router \<Rightarrow> router" where
  "upd_session p f r = r\<lparr>ro_objs := (ro_objs r)(p := f (ro_objs r p))\<rparr>"

definition log_calls :: "agent_call list \<Rightarrow> router \<Rightarrow> router" where
  "log_calls cs r = r\<lparr>ro_calls := ro_calls r @ cs\<rparr>"

definition emit :: "sink_ref \<Rightarrow> sink_event list \<Rightarrow> router \<Rightarrow> router" where
  "emit k es r = r\<lparr>ro_events := ro_events r @ map (Pair k) es\<rparr>"

declare upd_session_def [relay_defs] log_calls_def [relay_defs] emit_def [relay_defs]

text \<open>\<open>touch\<close>: the session registered under the id now, if any.\<close>

definition touch :: "int \<Rightarrow> gostring \<Rightarrow> router \<Rightarrow> router" where
  "touch now conv r =
     (case map_of (ro_sessions r) conv of
        None \<Rightarrow> r
      | Some p \<Rightarrow> upd_session p (\<lambda>st. st\<lparr>ss_last_used := now\<rparr>) r)"

lemma touch_simps [simp]:
  "ro_sessions (touch now c r) = ro_sessions r" "ro_reqs (touch now c r) = ro_reqs r"
  "ro_calls (touch now c r) = ro_calls r" "ro_events (touch now c r) = ro_events r"
  "ro_next_obj (touch now c r) = ro_next_obj r" "ro_next_req (touch now c r) = ro_next_req r"
  by (simp_all add: touch_def upd_session_def split: option.splits)

text \<open>Only the time of last use changes.\<close>

lemma touch_objs:
  "ro_objs (touch now c r) p =
     (if map_of (ro_sessions r) c = Some p
      then (ro_objs r p)\<lparr>ss_last_used := now\<rparr> else ro_objs r p)"
  by (simp add: touch_def upd_session_def split: option.splits)

text \<open>An agent that answers everything with nothing, for the concrete witnesses.\<close>

definition quiet_caps :: caps where
  "quiet_caps = \<lparr>cap_load_session = False, cap_list_sessions = False, cap_resume_session = False,
     cap_embedded_context = False, cap_system_prompt = False\<rparr>"

definition quiet_agent :: agent_env where
  "quiet_agent = \<lparr>ag_caps = quiet_caps, ag_new_session = \<lambda>_ _. Inr ''s1'',
     ag_list_sessions = \<lambda>_. Inr [], ag_resume_session = \<lambda>_ _. None,
     ag_set_model = \<lambda>_ _. None, ag_set_config = \<lambda>_ _ _. None,
     ag_prompt = \<lambda>_ _. ([], Inr EndTurn), ag_cancel = \<lambda>_. None\<rparr>"

definition quiet_session :: session_state where
  "quiet_session = \<lparr>ss_conv_id = ''c'', ss_user_id = ''u'', ss_session_id = ''s1'', ss_cwd = ''/c'',
     ss_queue = new_session_queue, ss_run_stop = False, ss_drain_stop = False,
     ss_drain = drain_init, ss_applied = no_options, ss_last_used = 0, ss_pending_inline = False\<rparr>"

definition empty_router :: router where
  "empty_router = \<lparr>ro_sessions = [], ro_objs = (\<lambda>_. quiet_session), ro_next_obj = 0,
     ro_reqs = (\<lambda>_. fresh_status), ro_next_req = 0, ro_calls = [], ro_events = [],
     ro_files = (\<lambda>_. None)\<rparr>"

end
