(* ===== verification/Turns.thy ===== *)
theory Turns
  imports Router_State
begin

text \<open>
  One turn of a session: \<open>runOneTurn\<close>, \<open>applyOptions\<close> and \<open>discardSink\<close>
  (internal/router/router.go). The runner owns the session while a turn runs, so the turn is
  a sequential function of the router's state; the notifications of the turn are those that
  reach the chunk channel between its \<open>beginTurn\<close> and its \<open>endTurn\<close> message, which the drain
  acknowledges only after it has processed them.
\<close>

section \<open>applyOptions\<close>

text \<open>The error, the options now applied, and the calls made on the agent.\<close>

definition apply_thinking ::
  "agent_env \<Rightarrow> gostring \<Rightarrow> options \<Rightarrow> options \<Rightarrow> options \<times> agent_call list" where
  "apply_thinking ag sid opts applied =
     (if opt_thinking opts \<noteq> [] \<and> opt_thinking opts \<noteq> opt_thinking applied then
        (case ag_set_config ag sid ''thinking_level'' (opt_thinking opts) of
           Some err \<Rightarrow> (applied\<lparr>opt_thinking := opt_thinking opts\<rparr>,
             [CallSetConfig sid ''thinking_level'' (opt_thinking opts)])
         | None \<Rightarrow> (applied\<lparr>opt_thinking := opt_thinking opts\<rparr>,
             [CallSetConfig sid ''thinking_level'' (opt_thinking opts)]))
      else (applied, []))"

definition apply_options ::
  "agent_env \<Rightarrow> gostring \<Rightarrow> options \<Rightarrow> options \<Rightarrow> error \<times> options \<times> agent_call list" where
  "apply_options ag sid opts applied =
     (if opt_model opts \<noteq> [] \<and> opt_model opts \<noteq> opt_model applied then
        (case ag_set_model ag sid (opt_model opts) of
           Some err \<Rightarrow> (Some (''set_model '' @ opt_model opts @ '': '' @ err), applied,
             [CallSetModel sid (opt_model opts)])
         | None \<Rightarrow>
             (let (applied', calls) =
                apply_thinking ag sid opts (applied\<lparr>opt_model := opt_model opts\<rparr>) in
              (None, applied', CallSetModel sid (opt_model opts) # calls)))
      else
        (let (applied', calls) = apply_thinking ag sid opts applied in (None, applied', calls)))"

section \<open>runOneTurn\<close>

definition durable_notice :: gostring where
  "durable_notice = [nl] @ ''The block above is durable system context. Preserve it verbatim across any summarisation of this conversation.'' @ [nl, nl]"

definition inline_blocks :: "gostring \<Rightarrow> content_block list \<Rightarrow> content_block list" where
  "inline_blocks prompt bs =
     (case bs of
        TextBlock t # rest \<Rightarrow> TextBlock (prompt @ durable_notice @ t) # rest
      | _ \<Rightarrow> bs)"

definition option_notice :: "gostring \<Rightarrow> gostring" where
  "option_notice err = ''_(option not applied: '' @ err @ '')_'' @ [nl, nl]"

text \<open>The terminal calls on the sink.\<close>

definition conclude_events :: "stop_reason fallible \<Rightarrow> sink_event list" where
  "conclude_events res =
     (case res of
        Inl err \<Rightarrow> [EvError (''acp prompt: '' @ err) ''user_caused_error'', EvDone]
      | Inr stop \<Rightarrow>
          (case stop of
             EndTurn \<Rightarrow> []
           | MaxTokens \<Rightarrow> [EvText ([nl, nl] @ ''_(response truncated: max tokens)_'')]
           | MaxTurnRequests \<Rightarrow> [EvText ([nl, nl] @ ''_(response truncated: max turns)_'')]
           | Refusal \<Rightarrow> [EvError ''agent refused the request'' ''user_caused_error'']
           | Cancelled \<Rightarrow> [EvReplace ''_(cancelled)_'']
           | OtherStop _ \<Rightarrow> []) @ [EvDone])"

definition stale_reaction :: "int \<Rightarrow> turn_req \<Rightarrow> bool" where
  "stale_reaction now req \<longleftrightarrow> is_reaction req \<and> reaction_max_age < now - rq_enqueued_at req"

text \<open>\<open>applyOptions\<close> and its notice; user turns only.\<close>

definition option_step :: "agent_env \<Rightarrow> nat \<Rightarrow> turn_req \<Rightarrow> router \<Rightarrow> router" where
  "option_step ag p req r =
     (if is_user req then
        (let st = ro_objs r p;
             (err, applied, calls) = apply_options ag (ss_session_id st) (rq_opts req) (ss_applied st);
             r1 = log_calls calls (upd_session p (\<lambda>st. st\<lparr>ss_applied := applied\<rparr>) r) in
         case err of
           None \<Rightarrow> r1
         | Some e \<Rightarrow> emit (rq_sink req) [EvFirstChunk, EvText (option_notice e)] r1)
      else r)"

text \<open>The inline system prompt; user turns only.\<close>

definition inline_step ::
  "router_config \<Rightarrow> nat \<Rightarrow> turn_req \<Rightarrow> router \<Rightarrow> content_block list \<times> router" where
  "inline_step cfg p req r =
     (if is_user req \<and> ss_pending_inline (ro_objs r p) \<and> cfg_system_prompt cfg \<noteq> []
      then (inline_blocks (cfg_system_prompt cfg) (rq_blocks req),
            upd_session p (\<lambda>st. st\<lparr>ss_pending_inline := False\<rparr>) r)
      else (rq_blocks req, r))"

text \<open>\<open>beginTurn\<close>, the prompt with its notifications, \<open>endTurn\<close> and its acknowledgement.\<close>

definition prompt_step ::
  "agent_env \<Rightarrow> nat \<Rightarrow> turn_req \<Rightarrow> content_block list \<Rightarrow> router \<Rightarrow> stop_reason fallible \<times> router" where
  "prompt_step ag p req blocks r =
     (let st = ro_objs r p;
          (updates, res) = ag_prompt ag (ss_session_id st) blocks;
          td = \<lparr>td_sink = rq_sink req, td_hide_thinking = rq_hide_thinking req\<rparr>;
          (d, evs) = drain_run (MsgBeginTurn td # map MsgNotif updates @ [MsgEndTurn (rq_id req)])
            (ss_drain st);
          r1 = log_calls [CallPrompt (ss_session_id st) blocks]
            (upd_session p (\<lambda>st. st\<lparr>ss_drain := d\<rparr>) r) in
      (res, r1\<lparr>ro_events := ro_events r1 @ evs\<rparr>))"

definition conclude_step :: "turn_req \<Rightarrow> stop_reason fallible \<Rightarrow> router \<Rightarrow> router" where
  "conclude_step req res r =
     (let r1 = emit (rq_sink req) (conclude_events res) r in
      case res of
        Inl err \<Rightarrow> r1\<lparr>ro_reqs := set_err (rq_id req) (Some err) (ro_reqs r1)\<rparr>
      | Inr _ \<Rightarrow> r1)"

text \<open>The two deferred calls: \<open>touch\<close>, then \<open>close(req.done)\<close>.\<close>

definition finish_turn :: "int \<Rightarrow> nat \<Rightarrow> turn_req \<Rightarrow> router \<Rightarrow> go_panic + router" where
  "finish_turn now p req r =
     (let r1 = touch now (ss_conv_id (ro_objs r p)) r in
      case close_done (rq_id req) (ro_reqs r1) of
        Inl e \<Rightarrow> Inl e
      | Inr h \<Rightarrow> Inr (r1\<lparr>ro_reqs := h\<rparr>))"

text \<open>\<open>now\<close> is the clock at the start, \<open>now'\<close> at the end of the turn.\<close>

definition run_one_turn ::
  "router_config \<Rightarrow> agent_env \<Rightarrow> int \<Rightarrow> int \<Rightarrow> nat \<Rightarrow> turn_req \<Rightarrow> router \<Rightarrow> go_panic + router" where
  "run_one_turn cfg ag now now' p req r =
     (if stale_reaction now req
      then finish_turn now' p req (r\<lparr>ro_reqs := set_shed (rq_id req) (ro_reqs r)\<rparr>)
      else
        (let r1 = option_step ag p req r;
             (blocks, r2) = inline_step cfg p req r1;
             (res, r3) = prompt_step ag p req blocks r2 in
         finish_turn now' p req (conclude_step req res r3)))"

text \<open>One iteration of \<open>runTurns\<close> that finds a request, and \<open>finishInFlight\<close> after it.\<close>

definition run_turns_iter ::
  "router_config \<Rightarrow> agent_env \<Rightarrow> int \<Rightarrow> int \<Rightarrow> nat \<Rightarrow> router \<Rightarrow> (go_panic + router) option" where
  "run_turns_iter cfg ag now now' p r =
     (case try_pop (ss_queue (ro_objs r p)) of
        None \<Rightarrow> None
      | Some (req, sq) \<Rightarrow>
          Some (case run_one_turn cfg ag now now' p req
                  (upd_session p (\<lambda>st. st\<lparr>ss_queue := sq\<rparr>) r) of
                  Inl e \<Rightarrow> Inl e
                | Inr r' \<Rightarrow>
                    Inr (upd_session p (\<lambda>st. st\<lparr>ss_queue := finish_in_flight (ss_queue st)\<rparr>) r')))"

section \<open>What a turn does to its sink\<close>

text \<open>The calls of a turn on its sink, as a function of the agent's answers.\<close>

definition option_events :: "agent_env \<Rightarrow> session_state \<Rightarrow> turn_req \<Rightarrow> sink_event list" where
  "option_events ag st req =
     (if is_user req then
        (case fst (apply_options ag (ss_session_id st) (rq_opts req) (ss_applied st)) of
           None \<Rightarrow> [] | Some e \<Rightarrow> [EvFirstChunk, EvText (option_notice e)])
      else [])"

definition turn_blocks :: "router_config \<Rightarrow> session_state \<Rightarrow> turn_req \<Rightarrow> content_block list" where
  "turn_blocks cfg st req =
     (if is_user req \<and> ss_pending_inline st \<and> cfg_system_prompt cfg \<noteq> []
      then inline_blocks (cfg_system_prompt cfg) (rq_blocks req) else rq_blocks req)"

definition turn_body ::
  "router_config \<Rightarrow> agent_env \<Rightarrow> session_state \<Rightarrow> turn_req \<Rightarrow> sink_event list" where
  "turn_body cfg ag st req =
     (let (updates, res) = ag_prompt ag (ss_session_id st) (turn_blocks cfg st req) in
      option_events ag st req @
      drain_updates \<lparr>td_sink = rq_sink req, td_hide_thinking = rq_hide_thinking req\<rparr> updates
        False ChunkNone @
      butlast (conclude_events res))"

definition turn_calls ::
  "router_config \<Rightarrow> agent_env \<Rightarrow> session_state \<Rightarrow> turn_req \<Rightarrow> agent_call list" where
  "turn_calls cfg ag st req =
     (if is_user req
      then snd (snd (apply_options ag (ss_session_id st) (rq_opts req) (ss_applied st))) else []) @
     [CallPrompt (ss_session_id st) (turn_blocks cfg st req)]"

lemma turn_blocks_applied [simp]:
  "turn_blocks cfg (st\<lparr>ss_applied := x\<rparr>) req = turn_blocks cfg st req"
  by (simp add: turn_blocks_def)

lemma conclude_events_done: "butlast (conclude_events res) @ [EvDone] = conclude_events res"
  by (auto simp: conclude_events_def split: sum.splits stop_reason.splits)

lemma conclude_events_map:
  "map f (conclude_events res) = map f (butlast (conclude_events res)) @ [f EvDone]"
  by (subst conclude_events_done [symmetric]) simp

lemma conclude_no_done: "EvDone \<notin> set (butlast (conclude_events res))"
  by (auto simp: conclude_events_def split: sum.splits stop_reason.splits)

lemma drain_no_done: "EvDone \<notin> set (drain_updates td us first mode)"
  by (auto simp: drain_updates_pieces Let_def split: if_splits)

lemma option_no_done: "EvDone \<notin> set (option_events ag st req)"
  by (cases "fst (apply_options ag (ss_session_id st) (rq_opts req) (ss_applied st))";
      cases "rq_kind req") (simp_all add: option_events_def)

lemma turn_body_no_done: "EvDone \<notin> set (turn_body cfg ag st req)"
  by (simp add: turn_body_def option_no_done drain_no_done conclude_no_done split_beta)

text \<open>Draining a whole turn from any state: the calls are those of the turn, on its sink.\<close>

lemma drain_run_whole_turn:
  "snd (drain_run (MsgBeginTurn td # map MsgNotif us @ [MsgEndTurn a]) d) =
     map (Pair (td_sink td)) (drain_updates td us False ChunkNone)"
  "dr_td (fst (drain_run (MsgBeginTurn td # map MsgNotif us @ [MsgEndTurn a]) d)) = None"
proof -
  let ?d = "d\<lparr>dr_td := Some td, dr_first := False, dr_mode := ChunkNone\<rparr>"
  obtain d1 e1 where 1: "drain_run (map MsgNotif us) ?d = (d1, e1)"
    by (cases "drain_run (map MsgNotif us) ?d")
  from drain_run_turn [of ?d td us] 1
  show "snd (drain_run (MsgBeginTurn td # map MsgNotif us @ [MsgEndTurn a]) d) =
      map (Pair (td_sink td)) (drain_updates td us False ChunkNone)"
    and "dr_td (fst (drain_run (MsgBeginTurn td # map MsgNotif us @ [MsgEndTurn a]) d)) = None"
    by (simp_all add: drain_run_append)
qed

lemma option_step_effects:
  "ro_events (option_step ag p req r) =
     ro_events r @ map (Pair (rq_sink req)) (option_events ag (ro_objs r p) req)"
  "ro_calls (option_step ag p req r) = ro_calls r @
     (if is_user req then snd (snd (apply_options ag (ss_session_id (ro_objs r p)) (rq_opts req)
        (ss_applied (ro_objs r p)))) else [])"
  "ro_reqs (option_step ag p req r) = ro_reqs r"
  "ro_objs (option_step ag p req r) = (ro_objs r)(p := (ro_objs r p)\<lparr>ss_applied :=
     (if is_user req then fst (snd (apply_options ag (ss_session_id (ro_objs r p)) (rq_opts req)
        (ss_applied (ro_objs r p)))) else ss_applied (ro_objs r p))\<rparr>)"
proof -
  obtain err applied calls where ao: "apply_options ag (ss_session_id (ro_objs r p)) (rq_opts req)
    (ss_applied (ro_objs r p)) = (err, applied, calls)" by (metis prod_cases3)
  show "ro_events (option_step ag p req r) =
      ro_events r @ map (Pair (rq_sink req)) (option_events ag (ro_objs r p) req)"
    "ro_calls (option_step ag p req r) = ro_calls r @
      (if is_user req then snd (snd (apply_options ag (ss_session_id (ro_objs r p)) (rq_opts req)
        (ss_applied (ro_objs r p)))) else [])"
    "ro_reqs (option_step ag p req r) = ro_reqs r"
    "ro_objs (option_step ag p req r) = (ro_objs r)(p := (ro_objs r p)\<lparr>ss_applied :=
      (if is_user req then fst (snd (apply_options ag (ss_session_id (ro_objs r p)) (rq_opts req)
        (ss_applied (ro_objs r p)))) else ss_applied (ro_objs r p))\<rparr>)"
    by (cases err; cases "rq_kind req";
        simp add: option_step_def option_events_def ao relay_defs)+
qed

lemma inline_step_effects:
  "fst (inline_step cfg p req r) = turn_blocks cfg (ro_objs r p) req"
  "ro_events (snd (inline_step cfg p req r)) = ro_events r"
  "ro_calls (snd (inline_step cfg p req r)) = ro_calls r"
  "ro_reqs (snd (inline_step cfg p req r)) = ro_reqs r"
  "ro_objs (snd (inline_step cfg p req r)) = (ro_objs r)(p := (ro_objs r p)\<lparr>ss_pending_inline :=
     ss_pending_inline (ro_objs r p) \<and> \<not> (is_user req \<and> cfg_system_prompt cfg \<noteq> [])\<rparr>)"
  by (auto simp: inline_step_def turn_blocks_def relay_defs)

lemma prompt_step_effects:
  assumes "ag_prompt ag (ss_session_id (ro_objs r p)) blocks = (us, res)"
  shows "fst (prompt_step ag p req blocks r) = res"
    and "ro_events (snd (prompt_step ag p req blocks r)) = ro_events r @
      map (Pair (rq_sink req)) (drain_updates
        \<lparr>td_sink = rq_sink req, td_hide_thinking = rq_hide_thinking req\<rparr> us False ChunkNone)"
    and "ro_calls (snd (prompt_step ag p req blocks r)) =
      ro_calls r @ [CallPrompt (ss_session_id (ro_objs r p)) blocks]"
    and "ro_reqs (snd (prompt_step ag p req blocks r)) = ro_reqs r"
    and "\<exists>d. dr_td d = None \<and>
      ro_objs (snd (prompt_step ag p req blocks r)) =
        (ro_objs r)(p := (ro_objs r p)\<lparr>ss_drain := d\<rparr>)"
proof -
  let ?td = "\<lparr>td_sink = rq_sink req, td_hide_thinking = rq_hide_thinking req\<rparr>"
  obtain d evs where run: "drain_run (MsgBeginTurn ?td # map MsgNotif us @ [MsgEndTurn (rq_id req)])
    (ss_drain (ro_objs r p)) = (d, evs)" by fastforce
  have evs: "evs = map (Pair (rq_sink req)) (drain_updates ?td us False ChunkNone)"
    and d: "dr_td d = None"
    using drain_run_whole_turn [of ?td us "rq_id req" "ss_drain (ro_objs r p)"]
    unfolding run by simp_all
  have ps: "prompt_step ag p req blocks r = (res,
    (log_calls [CallPrompt (ss_session_id (ro_objs r p)) blocks]
       (upd_session p (\<lambda>st. st\<lparr>ss_drain := d\<rparr>) r))\<lparr>ro_events := ro_events r @ evs\<rparr>)"
    unfolding prompt_step_def Let_def assms prod.case run by (simp add: relay_defs)
  show "fst (prompt_step ag p req blocks r) = res"
    "ro_events (snd (prompt_step ag p req blocks r)) = ro_events r @
      map (Pair (rq_sink req)) (drain_updates ?td us False ChunkNone)"
    "ro_calls (snd (prompt_step ag p req blocks r)) =
      ro_calls r @ [CallPrompt (ss_session_id (ro_objs r p)) blocks]"
    "ro_reqs (snd (prompt_step ag p req blocks r)) = ro_reqs r"
    unfolding ps evs by (simp_all add: relay_defs)
  show "\<exists>d. dr_td d = None \<and> ro_objs (snd (prompt_step ag p req blocks r)) =
    (ro_objs r)(p := (ro_objs r p)\<lparr>ss_drain := d\<rparr>)"
    unfolding ps using d by (intro exI [of _ d]) (simp add: relay_defs)
qed

lemma conclude_step_effects:
  "ro_events (conclude_step req res r) = ro_events r @ map (Pair (rq_sink req)) (conclude_events res)"
  "ro_calls (conclude_step req res r) = ro_calls r"
  "ro_objs (conclude_step req res r) = ro_objs r"
  "rs_done (ro_reqs (conclude_step req res r) i) = rs_done (ro_reqs r i)"
  "rs_shed (ro_reqs (conclude_step req res r) i) = rs_shed (ro_reqs r i)"
  "rs_err (ro_reqs (conclude_step req res r) (rq_id req)) =
     (case res of Inl e \<Rightarrow> Some e | Inr _ \<Rightarrow> rs_err (ro_reqs r (rq_id req)))"
  "i \<noteq> rq_id req \<Longrightarrow> ro_reqs (conclude_step req res r) i = ro_reqs r i"
  by (cases res; simp add: conclude_step_def relay_defs set_err_def Let_def)+

lemma finish_turn_ok:
  assumes "\<not> rs_done (ro_reqs r (rq_id req))"
  obtains r' where "finish_turn now p req r = Inr r'" "ro_events r' = ro_events r"
    "ro_calls r' = ro_calls r"
    "ro_reqs r' = (ro_reqs r)(rq_id req := (ro_reqs r (rq_id req))\<lparr>rs_done := True\<rparr>)"
    "ro_objs r' = ro_objs (touch now (ss_conv_id (ro_objs r p)) r)"
proof
  show "finish_turn now p req r = Inr ((touch now (ss_conv_id (ro_objs r p)) r)
    \<lparr>ro_reqs := (ro_reqs r)(rq_id req := (ro_reqs r (rq_id req))\<lparr>rs_done := True\<rparr>)\<rparr>)"
    using assms by (simp add: finish_turn_def Let_def close_done_def)
qed simp_all

text \<open>The whole effect of a turn that runs.\<close>

lemma run_one_turn_effects:
  assumes fresh: "\<not> stale_reaction now req" and undone: "\<not> rs_done (ro_reqs r (rq_id req))"
    and ans: "ag_prompt ag (ss_session_id (ro_objs r p)) (turn_blocks cfg (ro_objs r p) req) = (us, res)"
  obtains r' where "run_one_turn cfg ag now now' p req r = Inr r'"
    "ro_events r' = ro_events r @
       map (Pair (rq_sink req)) (turn_body cfg ag (ro_objs r p) req @ [EvDone])"
    "ro_calls r' = ro_calls r @ turn_calls cfg ag (ro_objs r p) req"
    "rs_done (ro_reqs r' (rq_id req))"
    "rs_shed (ro_reqs r' (rq_id req)) = rs_shed (ro_reqs r (rq_id req))"
    "rs_err (ro_reqs r' (rq_id req)) =
       (case res of Inl e \<Rightarrow> Some e | Inr _ \<Rightarrow> rs_err (ro_reqs r (rq_id req)))"
    "\<forall>i. i \<noteq> rq_id req \<longrightarrow> ro_reqs r' i = ro_reqs r i"
    "ss_applied (ro_objs r' p) =
       (if is_user req then fst (snd (apply_options ag (ss_session_id (ro_objs r p)) (rq_opts req)
          (ss_applied (ro_objs r p)))) else ss_applied (ro_objs r p))"
    "ss_pending_inline (ro_objs r' p) \<longleftrightarrow>
       ss_pending_inline (ro_objs r p) \<and> \<not> (is_user req \<and> cfg_system_prompt cfg \<noteq> [])"
proof -
  define r1 where "r1 = option_step ag p req r"
  define r2 where "r2 = snd (inline_step cfg p req r1)"
  define r3 where "r3 = snd (prompt_step ag p req (turn_blocks cfg (ro_objs r1 p) req) r2)"
  define r4 where "r4 = conclude_step req res r3"
  note o = option_step_effects [of ag p req r, folded r1_def]
  note i = inline_step_effects [of cfg p req r1, folded r2_def]
  have tb: "turn_blocks cfg (ro_objs r1 p) req = turn_blocks cfg (ro_objs r p) req"
    and sid: "ss_session_id (ro_objs r2 p) = ss_session_id (ro_objs r p)"
    by (simp_all add: o(4) i(5) turn_blocks_def)
  with ans have ans': "ag_prompt ag (ss_session_id (ro_objs r2 p))
    (turn_blocks cfg (ro_objs r1 p) req) = (us, res)" by simp
  note q = prompt_step_effects [OF ans', where req = req, folded r3_def]
  note c = conclude_step_effects [where req = req and res = res and r = r3, folded r4_def]
  have "\<not> rs_done (ro_reqs r4 (rq_id req))" by (simp add: c q(4) i(4) o(3) undone)
  then obtain r' where fin: "finish_turn now' p req r4 = Inr r'"
    "ro_events r' = ro_events r4" "ro_calls r' = ro_calls r4"
    "ro_reqs r' = (ro_reqs r4)(rq_id req := (ro_reqs r4 (rq_id req))\<lparr>rs_done := True\<rparr>)"
    "ro_objs r' = ro_objs (touch now' (ss_conv_id (ro_objs r4 p)) r4)"
    by (rule finish_turn_ok)
  have run: "run_one_turn cfg ag now now' p req r = Inr r'"
  proof -
    have in_st: "inline_step cfg p req r1 = (turn_blocks cfg (ro_objs r1 p) req, r2)"
      by (simp add: prod_eq_iff i(1) r2_def)
    have pr_st: "prompt_step ag p req (turn_blocks cfg (ro_objs r1 p) req) r2 = (res, r3)"
      by (simp add: prod_eq_iff q(1) r3_def)
    show ?thesis
      by (simp add: run_one_turn_def Let_def fresh r1_def [symmetric] in_st pr_st
          r4_def [symmetric] fin(1))
  qed
  have ev: "ro_events r' = ro_events r @
      map (Pair (rq_sink req)) (turn_body cfg ag (ro_objs r p) req @ [EvDone])"
    by (simp add: fin c q(2) i(2) o(1) turn_body_def ans conclude_events_map)
  obtain d where d: "ro_objs r3 = (ro_objs r2)(p := (ro_objs r2 p)\<lparr>ss_drain := d\<rparr>)"
    using q(5) by blast
  show thesis
    by (rule that [OF run ev])
      (simp_all add: fin c q(3,4) i(3,4) o(2,3) tb turn_calls_def touch_objs d i(5) o(4)
        split: sum.splits)
qed

section \<open>Properties of one turn\<close>

text \<open>A concrete user request for the witnesses: its agent thinks, answers and is cut off.\<close>

definition chatty_agent :: agent_env where
  "chatty_agent = quiet_agent\<lparr>ag_prompt := \<lambda>_ _.
     ([\<lparr>upd_message = None, upd_thought = Some (Some ''hm'')\<rparr>,
       \<lparr>upd_message = Some (Some ''hello''), upd_thought = None\<rparr>], Inr EndTurn)\<rparr>"

definition failing_agent :: agent_env where
  "failing_agent = quiet_agent\<lparr>ag_set_model := \<lambda>_ _. Some ''no such model'',
     ag_prompt := \<lambda>_ _. ([], Inl ''broken pipe'')\<rparr>"

definition demo_config :: router_config where
  "demo_config = \<lparr>cfg_state_dir = ''/s'', cfg_session_ttl = 7200, cfg_defaults = no_options,
     cfg_system_prompt = ''rules'', cfg_max_inline_image_bytes = 0, cfg_max_attachment_bytes = 0,
     cfg_attachment_ttl = 7200\<rparr>"

lemma demo_fresh [simp]:
  "\<not> stale_reaction 0 (demo_req i k)" "\<not> rs_done (ro_reqs empty_router i)"
  by (simp_all add: stale_reaction_def reaction_max_age_def demo_req_def empty_router_def fresh_status_def)

lemma demo_simps [simp]:
  "rq_sink (demo_req i TurnUser) = HttpSink i" "rq_hide_thinking (demo_req i k) = False"
  "rq_enqueued_at (demo_req i k) = 0" "rq_opts (demo_req i k) = no_options"
  "rq_blocks (demo_req i k) = [TextBlock ''hi'']"
  "ro_events empty_router = []" "ro_calls empty_router = []" "ro_objs empty_router p = quiet_session"
  "ro_reqs empty_router i = fresh_status" "ro_sessions empty_router = []"
  "rs_done fresh_status = False" "rs_shed fresh_status = False" "rs_err fresh_status = None"
  by (simp_all add: demo_req_def empty_router_def fresh_status_def)



text \<open>The calls of such a turn on its sink, before \<open>Done\<close>.\<close>

lemma normal_turn_body:
  assumes "ag_prompt ag (ss_session_id st) (turn_blocks cfg st req) = (us, Inr EndTurn)"
    and "fst (apply_options ag (ss_session_id st) (rq_opts req) (ss_applied st)) = None"
  shows "set (turn_body cfg ag st req) \<subseteq> insert EvFirstChunk (range EvText)"
    and "text_of (turn_body cfg ag st req) = render_turn (rq_hide_thinking req) us"
proof -
  let ?td = "\<lparr>td_sink = rq_sink req, td_hide_thinking = rq_hide_thinking req\<rparr>"
  have "turn_body cfg ag st req = drain_updates ?td us False ChunkNone"
    using assms by (simp add: turn_body_def option_events_def conclude_events_def)
  then show "set (turn_body cfg ag st req) \<subseteq> insert EvFirstChunk (range EvText)"
    "text_of (turn_body cfg ag st req) = render_turn (rq_hide_thinking req) us"
    by (auto simp: drain_updates_pieces Let_def concat_pieces_turn [symmetric])
qed

text \<open>When the agent accepts the options and ends the turn normally, the sink receives the
  agent's output and nothing else: the texts written concatenate to the rendering of the
  notifications, then \<open>Done\<close>.\<close>

theorem turn_streams_agent_output:
  assumes "\<not> stale_reaction now req" "\<not> rs_done (ro_reqs r (rq_id req))"
    and "ag_prompt ag (ss_session_id (ro_objs r p)) (turn_blocks cfg (ro_objs r p) req) = (us, Inr EndTurn)"
    and "fst (apply_options ag (ss_session_id (ro_objs r p)) (rq_opts req) (ss_applied (ro_objs r p))) = None"
  shows "\<exists>r' evs. run_one_turn cfg ag now now' p req r = Inr r' \<and>
    ro_events r' = ro_events r @ map (Pair (rq_sink req)) (evs @ [EvDone]) \<and>
    set evs \<subseteq> insert EvFirstChunk (range EvText) \<and>
    text_of evs = render_turn (rq_hide_thinking req) us \<and>
    rs_err (ro_reqs r' (rq_id req)) = rs_err (ro_reqs r (rq_id req))"
proof -
  obtain r' where
    run: "run_one_turn cfg ag now now' p req r = Inr r'"
    "ro_events r' = ro_events r @
       map (Pair (rq_sink req)) (turn_body cfg ag (ro_objs r p) req @ [EvDone])"
    "rs_err (ro_reqs r' (rq_id req)) = rs_err (ro_reqs r (rq_id req))"
    by (rule run_one_turn_effects [OF assms(1-3), where now' = now']) (erule that; simp)
  with normal_turn_body [OF assms(3,4)] show ?thesis by metis
qed

theorem turn_streams_agent_output_witness:
  "\<exists>r' evs. run_one_turn demo_config chatty_agent 0 5 0 (demo_req 1 TurnUser) empty_router = Inr r' \<and>
    ro_events r' = map (Pair (HttpSink 1)) (evs @ [EvDone]) \<and>
    text_of evs = thinking_header @ ''hm'' @ [nl, nl] @ ''hello''"
proof -
  have "\<exists>r' evs. run_one_turn demo_config chatty_agent 0 5 0 (demo_req 1 TurnUser) empty_router = Inr r' \<and>
    ro_events r' = ro_events empty_router @ map (Pair (rq_sink (demo_req 1 TurnUser))) (evs @ [EvDone]) \<and>
    set evs \<subseteq> insert EvFirstChunk (range EvText) \<and>
    text_of evs = render_turn (rq_hide_thinking (demo_req 1 TurnUser))
      [\<lparr>upd_message = None, upd_thought = Some (Some ''hm'')\<rparr>,
       \<lparr>upd_message = Some (Some ''hello''), upd_thought = None\<rparr>] \<and>
    rs_err (ro_reqs r' (rq_id (demo_req 1 TurnUser))) = rs_err (ro_reqs empty_router (rq_id (demo_req 1 TurnUser)))"
    by (rule turn_streams_agent_output)
      (simp_all add: chatty_agent_def quiet_agent_def no_options_def apply_options_def
        apply_thinking_def fresh_status_def)
  then show ?thesis
    by (auto simp: render_turn_def turn_chunks_def classify_def
        List.map_filter_simps visible_def render_block_def quote_newlines_def)
qed

text \<open>A reaction older than \<open>reactionMaxAge\<close> is dropped when it is dequeued: the agent is not
  called, no sink is written, and the request is done and marked as shed.\<close>

theorem stale_reaction_is_dropped:
  assumes "is_reaction req" "rq_enqueued_at req + reaction_max_age < now"
    and "\<not> rs_done (ro_reqs r (rq_id req))"
  shows "\<exists>r'. run_one_turn cfg ag now now' p req r = Inr r' \<and>
    ro_events r' = ro_events r \<and> ro_calls r' = ro_calls r \<and>
    ro_reqs r' = (ro_reqs r)(rq_id req := (ro_reqs r (rq_id req))\<lparr>rs_shed := True, rs_done := True\<rparr>)"
proof -
  let ?r = "r\<lparr>ro_reqs := set_shed (rq_id req) (ro_reqs r)\<rparr>"
  have "\<not> rs_done (ro_reqs ?r (rq_id req))" using assms(3) by (simp add: set_shed_def)
  from finish_turn_ok [OF this, of now' p] obtain r' where
    "finish_turn now' p req ?r = Inr r'" "ro_events r' = ro_events ?r" "ro_calls r' = ro_calls ?r"
    "ro_reqs r' = (ro_reqs ?r)(rq_id req := (ro_reqs ?r (rq_id req))\<lparr>rs_done := True\<rparr>)" by metis
  with assms show ?thesis
    by (auto simp: run_one_turn_def stale_reaction_def set_shed_def)
qed

theorem stale_reaction_is_dropped_witness:
  "\<exists>r'. run_one_turn demo_config chatty_agent 60000000001 60000000001 0 (demo_req 1 TurnReaction)
      empty_router = Inr r' \<and> ro_events r' = [] \<and> ro_calls r' = []"
  using stale_reaction_is_dropped [of "demo_req 1 TurnReaction" 60000000001 empty_router demo_config
      chatty_agent 60000000001 0]
  by (auto simp: reaction_max_age_def fresh_status_def)

text \<open>C19: A failed prompt is reported to the user and to the submitter: the turn's last two calls on
  its sink are an \<open>Error\<close> with the agent's message and \<open>Done\<close>, and the request carries the
  error.\<close>

theorem failed_prompt_is_reported:
  assumes "\<not> stale_reaction now req" "\<not> rs_done (ro_reqs r (rq_id req))"
    and "ag_prompt ag (ss_session_id (ro_objs r p)) (turn_blocks cfg (ro_objs r p) req) = (us, Inl e)"
  shows "\<exists>r' evs. run_one_turn cfg ag now now' p req r = Inr r' \<and>
    ro_events r' = ro_events r @ map (Pair (rq_sink req))
      (evs @ [EvError (''acp prompt: '' @ e) ''user_caused_error'', EvDone]) \<and>
    (\<forall>t et. EvError t et \<notin> set evs) \<and> rs_err (ro_reqs r' (rq_id req)) = Some e"
proof -
  let ?td = "\<lparr>td_sink = rq_sink req, td_hide_thinking = rq_hide_thinking req\<rparr>"
  let ?evs = "option_events ag (ro_objs r p) req @ drain_updates ?td us False ChunkNone"
  obtain r' where
    run: "run_one_turn cfg ag now now' p req r = Inr r'"
    "ro_events r' = ro_events r @
       map (Pair (rq_sink req)) (turn_body cfg ag (ro_objs r p) req @ [EvDone])"
    "rs_err (ro_reqs r' (rq_id req)) = Some e"
    by (rule run_one_turn_effects [OF assms, where now' = now']) (erule that; simp)
  have "turn_body cfg ag (ro_objs r p) req =
    ?evs @ [EvError (''acp prompt: '' @ e) ''user_caused_error'']"
    using assms(3) by (simp add: turn_body_def conclude_events_def)
  moreover have "EvError t et \<notin> set (option_events ag (ro_objs r p) req)" for t et
    by (cases "fst (apply_options ag (ss_session_id (ro_objs r p)) (rq_opts req) (ss_applied (ro_objs r p)))";
        cases "rq_kind req") (simp_all add: option_events_def)
  moreover have "EvError t et \<notin> set (drain_updates ?td us False ChunkNone)" for t et
    by (auto simp: drain_updates_pieces Let_def)
  ultimately show ?thesis using run by (intro exI [of _ r'] exI [of _ ?evs]) simp
qed

theorem failed_prompt_is_reported_witness:
  "\<exists>r' evs. run_one_turn demo_config failing_agent 0 5 0 (demo_req 1 TurnUser) empty_router = Inr r' \<and>
    ro_events r' = map (Pair (HttpSink 1))
      (evs @ [EvError ''acp prompt: broken pipe'' ''user_caused_error'', EvDone])"
  using failed_prompt_is_reported [where now = 0 and req = "demo_req 1 TurnUser" and r = empty_router and cfg = demo_config
      and ag = failing_agent and now' = 5 and p = 0 and us = "[]" and e = "''broken pipe''"]
  by (auto simp: failing_agent_def)

section \<open>Options converge\<close>



text \<open>A model the agent rejects is reported and changes nothing: the only call made is the
  rejected \<open>set_model\<close>, the applied options stay, and the next turn tries again. A rejected
  thinking level is never reported.\<close>

theorem rejected_model_is_reported:
  "apply_options ag sid opts applied =
     (if opt_model opts \<in> {[], opt_model applied}
      then (None, snd (apply_options ag sid opts applied))
      else case ag_set_model ag sid (opt_model opts) of
        None \<Rightarrow> (None, snd (apply_options ag sid opts applied))
      | Some e \<Rightarrow> (Some (''set_model '' @ opt_model opts @ '': '' @ e), applied,
          [CallSetModel sid (opt_model opts)])) \<and>
   apply_options (ag\<lparr>ag_set_config := f\<rparr>) sid opts applied = apply_options ag sid opts applied"
  by (auto simp: apply_options_def apply_thinking_def Let_def split: option.splits)

section \<open>The inline system prompt\<close>

text \<open>Turns run one after the other on one session, each with its clock readings.\<close>

fun run_turn_list ::
  "router_config \<Rightarrow> agent_env \<Rightarrow> nat \<Rightarrow> (int \<times> int \<times> turn_req) list \<Rightarrow> router \<Rightarrow> go_panic + router" where
  "run_turn_list cfg ag p [] r = Inr r"
| "run_turn_list cfg ag p ((now, now', req) # ts) r =
     (case run_one_turn cfg ag now now' p req r of
        Inl e \<Rightarrow> Inl e
      | Inr r' \<Rightarrow> run_turn_list cfg ag p ts r')"

fun prompts_of :: "agent_call list \<Rightarrow> content_block list list" where
  "prompts_of [] = []"
| "prompts_of (CallPrompt sid bs # cs) = bs # prompts_of cs"
| "prompts_of (_ # cs) = prompts_of cs"

lemma prompts_of_append [simp]: "prompts_of (xs @ ys) = prompts_of xs @ prompts_of ys"
  by (induction xs rule: prompts_of.induct) auto

text \<open>The specification: the first user turn alone carries the system prompt.\<close>

fun inline_first :: "gostring \<Rightarrow> turn_req list \<Rightarrow> content_block list list" where
  "inline_first prompt [] = []"
| "inline_first prompt (req # reqs) =
     (if is_user req then inline_blocks prompt (rq_blocks req) # map rq_blocks reqs
      else rq_blocks req # inline_first prompt reqs)"

definition dispatched :: "(int \<times> int \<times> turn_req) list \<Rightarrow> turn_req list" where
  "dispatched ts = map (\<lambda>(now, now', req). req) (filter (\<lambda>(now, now', req). \<not> stale_reaction now req) ts)"

lemma prompts_of_options:
  "prompts_of (snd (snd (apply_options ag sid opts applied))) = []"
  by (auto simp: apply_options_def apply_thinking_def Let_def split: option.splits)

lemma prompts_of_turn_calls:
  "prompts_of (turn_calls cfg ag st req) = [turn_blocks cfg st req]"
  by (simp add: turn_calls_def prompts_of_options)

lemma run_turn_list_prompts:
  assumes "distinct (map (\<lambda>(now, now', req). rq_id req) ts)"
    and "\<forall>(now, now', req) \<in> set ts. \<not> rs_done (ro_reqs r (rq_id req))"
    and "cfg_system_prompt cfg \<noteq> []"
  shows "\<exists>r'. run_turn_list cfg ag p ts r = Inr r' \<and>
    prompts_of (ro_calls r') = prompts_of (ro_calls r) @
      (if ss_pending_inline (ro_objs r p) then inline_first (cfg_system_prompt cfg) (dispatched ts)
       else map rq_blocks (dispatched ts))"
  using assms
proof (induction ts arbitrary: r)
  case Nil
  then show ?case by (simp add: dispatched_def)
next
  case (Cons t ts)
  obtain now now' req where t: "t = (now, now', req)" by (cases t)
  have undone: "\<not> rs_done (ro_reqs r (rq_id req))" using Cons.prems(2) t by auto
  have others: "\<forall>(now, now', q) \<in> set ts. rq_id q \<noteq> rq_id req"
    using Cons.prems(1) t by (force simp: image_iff)
  have "\<exists>r1. run_one_turn cfg ag now now' p req r = Inr r1 \<and>
    (\<forall>i. i \<noteq> rq_id req \<longrightarrow> ro_reqs r1 i = ro_reqs r i) \<and>
    prompts_of (ro_calls r1) = prompts_of (ro_calls r) @
      (if stale_reaction now req then [] else [turn_blocks cfg (ro_objs r p) req]) \<and>
    (ss_pending_inline (ro_objs r1 p) \<longleftrightarrow>
      ss_pending_inline (ro_objs r p) \<and> \<not> is_user req)"
  proof (cases "stale_reaction now req")
    case True
    let ?r = "r\<lparr>ro_reqs := set_shed (rq_id req) (ro_reqs r)\<rparr>"
    have "\<not> rs_done (ro_reqs ?r (rq_id req))" using undone by (simp add: set_shed_def)
    then obtain r1 where "finish_turn now' p req ?r = Inr r1" "ro_calls r1 = ro_calls ?r"
      "ro_reqs r1 = (ro_reqs ?r)(rq_id req := (ro_reqs ?r (rq_id req))\<lparr>rs_done := True\<rparr>)"
      "ro_objs r1 = ro_objs (touch now' (ss_conv_id (ro_objs ?r p)) ?r)"
      by (rule finish_turn_ok)
    with True show ?thesis
      by (auto simp: run_one_turn_def set_shed_def touch_objs stale_reaction_def)
  next
    case False
    obtain us res where "ag_prompt ag (ss_session_id (ro_objs r p))
      (turn_blocks cfg (ro_objs r p) req) = (us, res)" by fastforce
    from run_one_turn_effects [OF False undone this, where now' = now'] obtain r1 where
      "run_one_turn cfg ag now now' p req r = Inr r1"
      "ro_calls r1 = ro_calls r @ turn_calls cfg ag (ro_objs r p) req"
      "\<forall>i. i \<noteq> rq_id req \<longrightarrow> ro_reqs r1 i = ro_reqs r i"
      "ss_pending_inline (ro_objs r1 p) \<longleftrightarrow>
         ss_pending_inline (ro_objs r p) \<and> \<not> (is_user req \<and> cfg_system_prompt cfg \<noteq> [])"
      by blast
    with False Cons.prems(3) show ?thesis by (auto simp: prompts_of_turn_calls)
  qed
  then obtain r1 where r1: "run_one_turn cfg ag now now' p req r = Inr r1"
    "\<forall>i. i \<noteq> rq_id req \<longrightarrow> ro_reqs r1 i = ro_reqs r i"
    "prompts_of (ro_calls r1) = prompts_of (ro_calls r) @
      (if stale_reaction now req then [] else [turn_blocks cfg (ro_objs r p) req])"
    "ss_pending_inline (ro_objs r1 p) \<longleftrightarrow> ss_pending_inline (ro_objs r p) \<and> \<not> is_user req" by blast
  have undone1: "\<forall>(now, now', q) \<in> set ts. \<not> rs_done (ro_reqs r1 (rq_id q))"
    using Cons.prems(2) others r1(2) by fastforce
  have "distinct (map (\<lambda>(now, now', req). rq_id req) ts)" using Cons.prems(1) by simp
  from Cons.IH [OF this undone1 Cons.prems(3)] r1 Cons.prems(3) show ?case
    by (auto simp: t dispatched_def turn_blocks_def stale_reaction_def)
qed

text \<open>C20: With an agent that cannot take a system prompt at session creation, the prompt reaches
  the agent exactly once: for any sequence of turns on a session with the prompt pending, the
  agent receives the turns' blocks unchanged except that the first user turn starts with the
  prompt; reactions neither carry nor consume it.\<close>

theorem inline_prompt_sent_once:
  assumes "distinct (map (\<lambda>(now, now', req). rq_id req) ts)"
    and "\<forall>(now, now', req) \<in> set ts. \<not> rs_done (ro_reqs r (rq_id req))"
    and "cfg_system_prompt cfg \<noteq> []" "ss_pending_inline (ro_objs r p)"
  shows "\<exists>r'. run_turn_list cfg ag p ts r = Inr r' \<and>
    prompts_of (ro_calls r') =
      prompts_of (ro_calls r) @ inline_first (cfg_system_prompt cfg) (dispatched ts)"
  using run_turn_list_prompts [OF assms(1-3), of ag p] assms(4) by simp

theorem inline_prompt_sent_once_witness:
  "\<exists>r'. run_turn_list demo_config chatty_agent 0
      [(0, 0, demo_req 1 TurnReaction), (0, 0, demo_req 2 TurnUser), (0, 0, demo_req 3 TurnUser)]
      (empty_router\<lparr>ro_objs := \<lambda>_. quiet_session\<lparr>ss_pending_inline := True\<rparr>\<rparr>) = Inr r' \<and>
    prompts_of (ro_calls r') = [[TextBlock ''hi''], [TextBlock (''rules'' @ durable_notice @ ''hi'')],
      [TextBlock ''hi'']]"
proof -
  let ?ts = "[(0, 0, demo_req 1 TurnReaction), (0, 0, demo_req 2 TurnUser), (0, 0, demo_req 3 TurnUser)]"
  let ?r = "empty_router\<lparr>ro_objs := \<lambda>_. quiet_session\<lparr>ss_pending_inline := True\<rparr>\<rparr>"
  have "\<exists>r'. run_turn_list demo_config chatty_agent 0 ?ts ?r = Inr r' \<and>
    prompts_of (ro_calls r') =
      prompts_of (ro_calls ?r) @ inline_first (cfg_system_prompt demo_config) (dispatched ?ts)"
    by (rule inline_prompt_sent_once) (simp_all add: demo_config_def)
  then show ?thesis
    by (simp add: dispatched_def demo_config_def inline_blocks_def)
qed

end
