(* ===== verification/Go_Utf8.thy ===== *)
theory Go_Utf8
  imports Relay_Prelude
begin

text \<open>
  Runes of a Go string: \<open>utf8.DecodeRuneInString\<close>, the conversions between strings and
  rune slices, and \<open>truncateRunes\<close> / \<open>truncate\<close> (internal/httpsrv/handler.go,
  cmd/poe-acp/helpers.go). A byte that does not start a well-formed sequence decodes as the
  replacement rune U+FFFD and has width one.
\<close>

section \<open>Bytes\<close>

abbreviation byte_of :: "char \<Rightarrow> nat" where
  "byte_of c \<equiv> of_char c"

abbreviation chr :: "nat \<Rightarrow> char" where
  "chr n \<equiv> char_of n"

lemma byte_of_bound [simp]: "byte_of c < 256"
  by (metis of_char_mod_256 mod_less_divisor zero_less_numeral)

definition cont_byte :: "char \<Rightarrow> bool" where
  "cont_byte c \<longleftrightarrow> 0x80 \<le> byte_of c \<and> byte_of c \<le> 0xBF"

definition rune_error :: nat where
  "rune_error = 0xFFFD"

text \<open>The range of the second byte depends on the first.\<close>

definition second_lo :: "nat \<Rightarrow> nat" where
  "second_lo x = (if x = 0xE0 then 0xA0 else if x = 0xF0 then 0x90 else 0x80)"

definition second_hi :: "nat \<Rightarrow> nat" where
  "second_hi x = (if x = 0xED then 0x9F else if x = 0xF4 then 0x8F else 0xBF)"

definition second_ok :: "nat \<Rightarrow> char \<Rightarrow> bool" where
  "second_ok x b \<longleftrightarrow> second_lo x \<le> byte_of b \<and> byte_of b \<le> second_hi x"

section \<open>Decoding and encoding one rune\<close>

text \<open>Rune and width; the empty string has width 0, an invalid byte width 1.\<close>

fun decode_rune :: "gostring \<Rightarrow> nat \<times> nat" where
  "decode_rune [] = (rune_error, 0)"
| "decode_rune (a # s) =
     (let x = byte_of a in
      if x < 0x80 then (x, 1)
      else if 0xC2 \<le> x \<and> x \<le> 0xDF then
        (case s of
           b # _ \<Rightarrow>
             if second_ok x b then ((x - 0xC0) * 64 + (byte_of b - 0x80), 2) else (rune_error, 1)
         | [] \<Rightarrow> (rune_error, 1))
      else if 0xE0 \<le> x \<and> x \<le> 0xEF then
        (case s of
           b # c # _ \<Rightarrow>
             if second_ok x b \<and> cont_byte c
             then ((x - 0xE0) * 4096 + (byte_of b - 0x80) * 64 + (byte_of c - 0x80), 3)
             else (rune_error, 1)
         | _ \<Rightarrow> (rune_error, 1))
      else if 0xF0 \<le> x \<and> x \<le> 0xF4 then
        (case s of
           b # c # d # _ \<Rightarrow>
             if second_ok x b \<and> cont_byte c \<and> cont_byte d
             then ((x - 0xF0) * 262144 + (byte_of b - 0x80) * 4096 + (byte_of c - 0x80) * 64 +
               (byte_of d - 0x80), 4)
             else (rune_error, 1)
         | _ \<Rightarrow> (rune_error, 1))
      else (rune_error, 1))"

text \<open>\<open>utf8.EncodeRune\<close>: surrogates and values past U+10FFFF encode the replacement rune.\<close>

definition encode_rune :: "nat \<Rightarrow> gostring" where
  "encode_rune c =
     (if c < 0x80 then [chr c]
      else if c < 0x800 then [chr (0xC0 + c div 64), chr (0x80 + c mod 64)]
      else if 0xD800 \<le> c \<and> c \<le> 0xDFFF \<or> 0x10FFFF < c then [chr 0xEF, chr 0xBF, chr 0xBD]
      else if c < 0x10000 then
        [chr (0xE0 + c div 4096), chr (0x80 + c div 64 mod 64), chr (0x80 + c mod 64)]
      else [chr (0xF0 + c div 262144), chr (0x80 + c div 4096 mod 64),
        chr (0x80 + c div 64 mod 64), chr (0x80 + c mod 64)])"

lemma decode_rune_width: "s \<noteq> [] \<Longrightarrow> 1 \<le> snd (decode_rune s) \<and> snd (decode_rune s) \<le> length s"
  by (cases s) (auto simp: Let_def split: list.splits)

text \<open>A well-formed sequence re-encodes to the same bytes, and a wide one has no ASCII byte.\<close>

lemma chr_eq: "n = byte_of c \<Longrightarrow> chr n = c"
  by simp

lemma div_mod_lin: "d < (m::nat) \<Longrightarrow> (q * m + d) div m = q \<and> (q * m + d) mod m = d"
  by simp

lemma two_bytes:
  "0xC2 \<le> x \<Longrightarrow> x \<le> 0xDF \<Longrightarrow> 0x80 \<le> b \<Longrightarrow> b \<le> (0xBF::nat) \<Longrightarrow> c = (x - 0xC0) * 64 + (b - 0x80) \<Longrightarrow>
   0x80 \<le> c \<and> c < 0x800 \<and> 0xC0 + c div 64 = x \<and> 0x80 + c mod 64 = b"
  using div_mod_lin [of "b - 0x80" 64 "x - 0xC0"] by auto

lemma three_bytes:
  assumes "0xE0 \<le> x" "x \<le> 0xEF" "(if x = 0xE0 then 0xA0 else 0x80) \<le> b"
    "b \<le> (if x = 0xED then 0x9F else 0xBF)" "0x80 \<le> d" "d \<le> (0xBF::nat)"
    "c = (x - 0xE0) * 4096 + (b - 0x80) * 64 + (d - 0x80)"
  shows "0x800 \<le> c \<and> c < 0x10000 \<and> \<not> (0xD800 \<le> c \<and> c \<le> 0xDFFF) \<and> 0xE0 + c div 4096 = x \<and>
    0x80 + c div 64 mod 64 = b \<and> 0x80 + c mod 64 = d"
proof -
  define x' where "x' = x - 0xE0"
  define b' where "b' = b - 0x80"
  define d' where "d' = d - 0x80"
  have x: "x = x' + 0xE0" and b: "b = b' + 0x80" and d: "d = d' + 0x80"
    using assms by (auto simp: x'_def b'_def d'_def split: if_splits)
  have c: "c = (x' * 64 + b') * 64 + d'" and c2: "c = x' * 4096 + (b' * 64 + d')"
    using assms(7) by (auto simp: x b d)
  have lim: "b' < 64" "d' < 64" "x' < 16" using assms by (auto simp: x b d split: if_splits)
  have q: "c div 64 = x' * 64 + b' \<and> c mod 64 = d'"
    unfolding c by (rule div_mod_lin) (rule lim)
  have "b' * 64 + d' < 4096" using lim by simp
  from div_mod_lin [OF this] have q2: "c div 4096 = x'" unfolding c2 by blast
  from div_mod_lin [OF lim(1)] have m: "(x' * 64 + b') mod 64 = b'" by blast
  have "0xE0 + c div 4096 = x \<and> 0x80 + c div 64 mod 64 = b \<and> 0x80 + c mod 64 = d"
    unfolding q [THEN conjunct1] q [THEN conjunct2] q2 m by (simp add: x b d)
  moreover have "0x800 \<le> c \<and> c < 0x10000 \<and> \<not> (0xD800 \<le> c \<and> c \<le> 0xDFFF)"
    using assms(3,4) c2 lim by (auto simp: x b split: if_splits)
  ultimately show ?thesis by blast
qed

lemma four_bytes:
  assumes "0xF0 \<le> x" "x \<le> 0xF4" "(if x = 0xF0 then 0x90 else 0x80) \<le> b"
    "b \<le> (if x = 0xF4 then 0x8F else 0xBF)" "0x80 \<le> d" "d \<le> (0xBF::nat)" "0x80 \<le> e" "e \<le> (0xBF::nat)"
    "c = (x - 0xF0) * 262144 + (b - 0x80) * 4096 + (d - 0x80) * 64 + (e - 0x80)"
  shows "0x10000 \<le> c \<and> c \<le> 0x10FFFF \<and> 0xF0 + c div 262144 = x \<and>
    0x80 + c div 4096 mod 64 = b \<and> 0x80 + c div 64 mod 64 = d \<and> 0x80 + c mod 64 = e"
proof -
  define x' where "x' = x - 0xF0"
  define b' where "b' = b - 0x80"
  define d' where "d' = d - 0x80"
  define e' where "e' = e - 0x80"
  have x: "x = x' + 0xF0" and b: "b = b' + 0x80" and d: "d = d' + 0x80" and e: "e = e' + 0x80"
    using assms by (auto simp: x'_def b'_def d'_def e'_def split: if_splits)
  have c: "c = ((x' * 64 + b') * 64 + d') * 64 + e'"
    and c2: "c = (x' * 64 + b') * 4096 + (d' * 64 + e')"
    and c3: "c = x' * 262144 + (b' * 4096 + d' * 64 + e')"
    using assms(9) by (auto simp: x b d e)
  have lim: "b' < 64" "d' < 64" "e' < 64" "x' < 5"
    using assms by (auto simp: x b d e split: if_splits)
  have q: "c div 64 = (x' * 64 + b') * 64 + d' \<and> c mod 64 = e'"
    unfolding c by (rule div_mod_lin) (rule lim)
  have "d' * 64 + e' < 4096" using lim by simp
  from div_mod_lin [OF this] have q2: "c div 4096 = x' * 64 + b'" unfolding c2 by blast
  have "b' * 4096 + d' * 64 + e' < 262144" using lim by simp
  from div_mod_lin [OF this] have q3: "c div 262144 = x'" unfolding c3 by blast
  from div_mod_lin [OF lim(1)] div_mod_lin [OF lim(2)]
  have m: "(x' * 64 + b') mod 64 = b'" "((x' * 64 + b') * 64 + d') mod 64 = d'" by blast+
  have "0xF0 + c div 262144 = x \<and> 0x80 + c div 4096 mod 64 = b \<and> 0x80 + c div 64 mod 64 = d \<and>
    0x80 + c mod 64 = e"
    unfolding q [THEN conjunct1] q [THEN conjunct2] q2 q3 m by (simp add: x b d e)
  moreover have "0x10000 \<le> c \<and> c \<le> 0x10FFFF"
    using assms(3,4) c3 lim by (auto simp: x b split: if_splits)
  ultimately show ?thesis by blast
qed

lemma encode_decode_rune:
  assumes "decode_rune s = (c, n)" "s \<noteq> []" "\<not> (c = rune_error \<and> n = 1)"
  shows "encode_rune c = take n s \<and> (0x80 \<le> byte_of (hd s) \<longrightarrow> (\<forall>b \<in> set (take n s). 0x80 \<le> byte_of b))"
proof -
  obtain a r where s: "s = a # r" using assms(2) by (cases s) auto
  let ?x = "byte_of a"
  consider (one) "?x < 0x80"
    | (two) "0xC2 \<le> ?x" "?x \<le> 0xDF" | (three) "0xE0 \<le> ?x" "?x \<le> 0xEF"
    | (four) "0xF0 \<le> ?x" "?x \<le> 0xF4" | (bad) "0x80 \<le> ?x" "?x < 0xC2 \<or> 0xF4 < ?x"
    by linarith
  then show ?thesis
  proof cases
    case one
    with assms(1) s show ?thesis by (auto simp: encode_rune_def)
  next
    case two
    with assms(1,3) s obtain b t where r: "r = b # t" and ok: "second_ok ?x b"
      and c: "c = (?x - 0xC0) * 64 + (byte_of b - 0x80)" and n: "n = 2"
      by (auto simp: Let_def rune_error_def split: list.splits if_splits)
    have b: "0x80 \<le> byte_of b" "byte_of b \<le> 0xBF"
      using ok two by (auto simp: second_ok_def second_lo_def second_hi_def)
    from two_bytes [OF two b c] b two show ?thesis
      by (auto simp: encode_rune_def s r n)
  next
    case three
    with assms(1,3) s obtain b d t where r: "r = b # d # t" and ok: "second_ok ?x b" "cont_byte d"
      and c: "c = (?x - 0xE0) * 4096 + (byte_of b - 0x80) * 64 + (byte_of d - 0x80)" and n: "n = 3"
      by (auto simp: Let_def rune_error_def split: list.splits if_splits)
    have b: "(if ?x = 0xE0 then 0xA0 else 0x80) \<le> byte_of b"
      "byte_of b \<le> (if ?x = 0xED then 0x9F else 0xBF)"
      using ok three by (auto simp: second_ok_def second_lo_def second_hi_def split: if_splits)
    have d: "0x80 \<le> byte_of d" "byte_of d \<le> 0xBF"
      using ok by (auto simp: cont_byte_def)
    have "0x80 \<le> byte_of b" using b by (auto split: if_splits)
    with three_bytes [OF three b d c] d three show ?thesis
      by (auto simp: encode_rune_def s r n)
  next
    case four
    with assms(1,3) s obtain b d e t where r: "r = b # d # e # t"
      and ok: "second_ok ?x b" "cont_byte d" "cont_byte e"
      and c: "c = (?x - 0xF0) * 262144 + (byte_of b - 0x80) * 4096 + (byte_of d - 0x80) * 64 +
        (byte_of e - 0x80)" and n: "n = 4"
      by (auto simp: Let_def rune_error_def split: list.splits if_splits)
    have b: "(if ?x = 0xF0 then 0x90 else 0x80) \<le> byte_of b"
      "byte_of b \<le> (if ?x = 0xF4 then 0x8F else 0xBF)"
      using ok four by (auto simp: second_ok_def second_lo_def second_hi_def split: if_splits)
    have d: "0x80 \<le> byte_of d" "byte_of d \<le> 0xBF" "0x80 \<le> byte_of e" "byte_of e \<le> 0xBF"
      using ok by (auto simp: cont_byte_def)
    have "0x80 \<le> byte_of b" using b by (auto split: if_splits)
    with four_bytes [OF four b d c] d four show ?thesis
      by (auto simp: encode_rune_def s r n)
  next
    case bad
    with assms(1,3) s show ?thesis by (auto simp: Let_def split: if_splits)
  qed
qed

definition valid_rune :: "nat \<Rightarrow> bool" where
  "valid_rune c \<longleftrightarrow> c \<le> 0x10FFFF \<and> \<not> (0xD800 \<le> c \<and> c \<le> 0xDFFF)"

lemma byte_of_chr: "n < 256 \<Longrightarrow> byte_of (chr n) = n"
  by (simp add: of_char_of)

lemma decode_encode_rune:
  assumes "valid_rune c"
  shows "decode_rune (encode_rune c @ t) = (c, length (encode_rune c))"
proof -
  consider (one) "c < 0x80" | (two) "0x80 \<le> c" "c < 0x800" | (three) "0x800 \<le> c" "c < 0x10000"
    | (four) "0x10000 \<le> c" "c \<le> 0x10FFFF"
    using assms unfolding valid_rune_def by linarith
  then show ?thesis
  proof cases
    case one
    then show ?thesis by (simp add: encode_rune_def byte_of_chr)
  next
    case two
    define q where "q = c div 64"
    define r where "r = c mod 64"
    have c: "c = q * 64 + r" and r: "r < 64" by (simp_all add: q_def r_def)
    have q: "2 \<le> q" "q < 32" using two c r by auto
    have "encode_rune c = [chr (0xC0 + q), chr (0x80 + r)]"
      using two by (simp add: encode_rune_def q_def r_def)
    moreover have "second_ok (0xC0 + q) (chr (0x80 + r))"
      using q r by (simp add: second_ok_def second_lo_def second_hi_def byte_of_chr)
    ultimately show ?thesis
      using q r c by (simp add: byte_of_chr Let_def)
  next
    case three
    define p where "p = c div 4096"
    define q where "q = c div 64 mod 64"
    define r where "r = c mod 64"
    have "c div 64 = p * 64 + q"
      using div_mult2_eq [of c 64 64] by (simp add: p_def q_def)
    moreover have "c = (c div 64) * 64 + r" by (simp add: r_def)
    ultimately have c: "c = (p * 64 + q) * 64 + r" by simp
    have l: "q < 64" "r < 64" by (simp_all add: q_def r_def)
    have p: "p < 16" using three c by auto
    have enc: "encode_rune c = [chr (0xE0 + p), chr (0x80 + q), chr (0x80 + r)]"
      using three assms by (auto simp: encode_rune_def p_def q_def r_def valid_rune_def)
    have "second_ok (0xE0 + p) (chr (0x80 + q))"
      using p l c three assms
      by (auto simp: second_ok_def second_lo_def second_hi_def byte_of_chr valid_rune_def)
    moreover have "cont_byte (chr (0x80 + r))" using l by (simp add: cont_byte_def byte_of_chr)
    ultimately show ?thesis
      unfolding enc using p l c by (simp add: byte_of_chr Let_def)
  next
    case four
    define o1 where "o1 = c div 262144"
    define p where "p = c div 4096 mod 64"
    define q where "q = c div 64 mod 64"
    define r where "r = c mod 64"
    have "c div 4096 = o1 * 64 + p"
      using div_mult2_eq [of c 4096 64] by (simp add: o1_def p_def)
    moreover have "c div 64 = (c div 4096) * 64 + q"
      using div_mult2_eq [of c 64 64] by (simp add: q_def)
    moreover have "c = (c div 64) * 64 + r" by (simp add: r_def)
    ultimately have c: "c = ((o1 * 64 + p) * 64 + q) * 64 + r" by simp
    have l: "p < 64" "q < 64" "r < 64" by (simp_all add: p_def q_def r_def)
    have o1: "o1 < 5" using four c by auto
    have enc: "encode_rune c = [chr (0xF0 + o1), chr (0x80 + p), chr (0x80 + q), chr (0x80 + r)]"
      using four by (auto simp: encode_rune_def o1_def p_def q_def r_def)
    have "second_ok (0xF0 + o1) (chr (0x80 + p))"
      using o1 l c four by (auto simp: second_ok_def second_lo_def second_hi_def byte_of_chr)
    moreover have "cont_byte (chr (0x80 + q))" "cont_byte (chr (0x80 + r))"
      using l by (simp_all add: cont_byte_def byte_of_chr)
    ultimately show ?thesis
      unfolding enc using o1 l c by (simp add: byte_of_chr Let_def)
  qed
qed

section \<open>Strings and rune slices\<close>

text \<open>\<open>[]rune(s)\<close>.\<close>

function runes :: "gostring \<Rightarrow> nat list" where
  "runes s =
     (if s = [] then [] else fst (decode_rune s) # runes (drop (snd (decode_rune s)) s))"
  by pat_completeness auto
termination
  by (relation "measure length") (use decode_rune_width in fastforce)+

declare runes.simps [simp del]

lemma runes_Nil [simp]: "runes [] = []"
  by (simp add: runes.simps)

text \<open>\<open>string(rs)\<close>.\<close>

definition string_of_runes :: "nat list \<Rightarrow> gostring" where
  "string_of_runes rs = concat (map encode_rune rs)"

lemma encode_rune_nonempty [simp]: "encode_rune c \<noteq> []"
  by (simp add: encode_rune_def)

lemma decode_rune_valid: "valid_rune (fst (decode_rune s))"
proof (cases "s = [] \<or> decode_rune s = (rune_error, 1)")
  case True
  then show ?thesis by (auto simp: valid_rune_def rune_error_def)
next
  case False
  obtain c n where d: "decode_rune s = (c, n)" by (cases "decode_rune s")
  with False encode_decode_rune [OF d] have e: "encode_rune c = take n s" by auto
  show ?thesis
  proof (rule ccontr)
    assume "\<not> valid_rune (fst (decode_rune s))"
    with d have "encode_rune c = encode_rune rune_error" "c \<noteq> rune_error"
      by (auto simp: valid_rune_def encode_rune_def rune_error_def)
    then have "decode_rune (take n s @ drop n s) = (rune_error, length (take n s))"
      using decode_encode_rune [of rune_error "drop n s"] e
      by (simp add: valid_rune_def rune_error_def)
    with d \<open>c \<noteq> rune_error\<close> show False by simp
  qed
qed

lemma runes_valid: "\<forall>c \<in> set (runes s). valid_rune c"
proof (induction s rule: runes.induct)
  case (1 s)
  then show ?case
    by (subst runes.simps) (auto simp: decode_rune_valid)
qed

lemma runes_encode: "valid_rune c \<Longrightarrow> runes (encode_rune c @ s) = c # runes s"
  by (subst runes.simps) (simp add: decode_encode_rune)

lemma runes_string_of_runes:
  "\<forall>c \<in> set rs. valid_rune c \<Longrightarrow> runes (string_of_runes rs @ s) = rs @ runes s"
  by (induction rs) (simp_all add: string_of_runes_def runes_encode)

text \<open>The string with every invalid byte replaced by U+FFFD.\<close>

definition to_valid_utf8 :: "gostring \<Rightarrow> gostring" where
  "to_valid_utf8 s = string_of_runes (runes s)"

definition valid_utf8 :: "gostring \<Rightarrow> bool" where
  "valid_utf8 s \<longleftrightarrow> to_valid_utf8 s = s"

lemma runes_to_valid [simp]: "runes (to_valid_utf8 s) = runes s"
  using runes_string_of_runes [OF runes_valid, of s "[]"] by (simp add: to_valid_utf8_def)

lemma valid_to_valid [simp]: "valid_utf8 (to_valid_utf8 s)"
  by (simp add: valid_utf8_def to_valid_utf8_def [of "to_valid_utf8 s"])
    (simp add: to_valid_utf8_def)

section \<open>Truncation for the logs\<close>

definition truncate_runes :: "gostring \<Rightarrow> int \<Rightarrow> gostring" where
  "truncate_runes s n =
     (if n \<le> 0 then []
      else if int (length s) \<le> n then s
      else
        (let rs = runes s in
         if int (length rs) \<le> n then s else string_of_runes (take (nat n) rs) @ u_ellipsis))"

lemma runes_ellipsis: "runes u_ellipsis = [0x2026]"
proof -
  have "u_ellipsis = encode_rune 0x2026 @ []"
    by (simp add: u_ellipsis_def encode_rune_def char_of_def bit_0)
  with runes_encode [of "0x2026" "[]"] show ?thesis by (simp add: valid_rune_def)
qed

lemma truncate_runes_cut:
  assumes "0 < n" "n < int (length (runes s))" "n < int (length s)"
  shows "runes (truncate_runes s n) = take (nat n) (runes s) @ [0x2026]"
  using assms runes_string_of_runes [of "take (nat n) (runes s)" u_ellipsis] runes_valid
  by (auto simp: truncate_runes_def Let_def runes_ellipsis dest: in_set_takeD)

end
