(* ===== verification/Go_Json.thy ===== *)
theory Go_Json
  imports Go_Utf8
begin

text \<open>
  The part of \<open>encoding/json\<close> the relay's output depends on: \<open>json.Marshal\<close> of the maps and
  structs it emits. A map is written with its keys sorted and a struct with its fields in
  declaration order, so both are lists of pairs in the order written. Strings are escaped as
  \<open>appendString\<close> does with HTML escaping on. The reader's side, \<open>json_unescape\<close>, is the
  specification the encoder is proved against.
\<close>

section \<open>Values\<close>

datatype json =
    JNull
  | JBool bool
  | JInt int
  | JString gostring
  | JArray "json list"
  | JObject "(gostring \<times> json) list"

section \<open>Writing strings\<close>

definition hex_digit :: "nat \<Rightarrow> char" where
  "hex_digit n = (if n < 10 then chr (48 + n) else chr (87 + n))"

text \<open>One ASCII byte.\<close>

definition escape_byte :: "char \<Rightarrow> gostring" where
  "escape_byte b =
     (let n = byte_of b in
      if b = dquote \<or> b = backslash then [backslash, b]
      else if n = 0x08 then [backslash, CHR ''b'']
      else if n = 0x0C then [backslash, CHR ''f'']
      else if n = 0x0A then [backslash, CHR ''n'']
      else if n = 0x0D then [backslash, CHR ''r'']
      else if n = 0x09 then [backslash, CHR ''t'']
      else if n < 0x20 \<or> b = CHR ''<'' \<or> b = CHR ''>'' \<or> b = CHR ''&''
        then [backslash, CHR ''u'', CHR ''0'', CHR ''0'', hex_digit (n div 16), hex_digit (n mod 16)]
      else [b])"

definition escape_fffd :: gostring where
  "escape_fffd = backslash # ''ufffd''"

text \<open>The rest of \<open>appendString\<close>: one rune at a time.\<close>

function json_escape :: "gostring \<Rightarrow> gostring" where
  "json_escape s =
     (case s of
        [] \<Rightarrow> []
      | b # bs \<Rightarrow>
          if byte_of b < (0x80 :: nat) then escape_byte b @ json_escape bs
          else
            (let (c, n) = decode_rune s in
             (if c = rune_error \<and> n = 1 then escape_fffd
              else if c = 0x2028 \<or> c = 0x2029 then [backslash] @ ''u202'' @ [hex_digit (c mod 16)]
              else take n s) @ json_escape (drop n s)))"
  by pat_completeness auto
termination
proof (relation "measure length", goal_cases)
  case (3 s b bs x c n)
  from 3 have "snd (decode_rune s) = n" "s \<noteq> []" by (auto simp del: decode_rune.simps dest: sym)
  with decode_rune_width [of s] show ?case by (auto simp del: decode_rune.simps)
qed auto

declare json_escape.simps [simp del]

definition json_string :: "gostring \<Rightarrow> gostring" where
  "json_string s = [dquote] @ json_escape s @ [dquote]"

section \<open>Writing values\<close>

fun digits_of :: "nat \<Rightarrow> gostring" where
  "digits_of n = (if n < 10 then [chr (48 + n)] else digits_of (n div 10) @ [chr (48 + n mod 10)])"

declare digits_of.simps [simp del]

text \<open>\<open>strconv.Itoa\<close>, also what \<open>%d\<close> prints.\<close>

definition itoa :: "int \<Rightarrow> gostring" where
  "itoa i = (if i < 0 then ''-'' @ digits_of (nat (- i)) else digits_of (nat i))"

fun join_with :: "gostring \<Rightarrow> gostring list \<Rightarrow> gostring" where
  "join_with sep [] = []"
| "join_with sep [x] = x"
| "join_with sep (x # y # zs) = x @ sep @ join_with sep (y # zs)"

fun json_encode :: "json \<Rightarrow> gostring" where
  "json_encode JNull = ''null''"
| "json_encode (JBool b) = (if b then ''true'' else ''false'')"
| "json_encode (JInt i) = itoa i"
| "json_encode (JString s) = json_string s"
| "json_encode (JArray vs) = ''['' @ join_with '','' (map json_encode vs) @ '']''"
| "json_encode (JObject kvs) =
     ''{'' @ join_with '','' (map (\<lambda>(k, v). json_string k @ '':'' @ json_encode v) kvs) @ ''}''"

section \<open>Reading strings back\<close>

definition hex_value :: "char \<Rightarrow> nat option" where
  "hex_value c =
     (let n = byte_of c in
      if 48 \<le> n \<and> n \<le> 57 then Some (n - 48)
      else if 97 \<le> n \<and> n \<le> 102 then Some (n - 87)
      else if 65 \<le> n \<and> n \<le> 70 then Some (n - 55)
      else None)"

text \<open>Decodes the body of a JSON string up to its closing quote; the rest is returned. Escapes
  outside the basic plane (surrogate pairs) are not needed for what the relay writes.\<close>

fun json_unescape :: "gostring \<Rightarrow> (gostring \<times> gostring) option" where
  "json_unescape [] = None"
| "json_unescape (c # s) =
     (if c = dquote then Some ([], s)
      else if c \<noteq> backslash then map_option (apfst (\<lambda>t. c # t)) (json_unescape s)
      else
        (case s of
           [] \<Rightarrow> None
         | e # s' \<Rightarrow>
             if e = dquote \<or> e = backslash \<or> e = CHR ''/''
             then map_option (apfst (\<lambda>t. e # t)) (json_unescape s')
             else if e = CHR ''b'' then map_option (apfst (\<lambda>t. chr 8 # t)) (json_unescape s')
             else if e = CHR ''f'' then map_option (apfst (\<lambda>t. chr 12 # t)) (json_unescape s')
             else if e = CHR ''n'' then map_option (apfst (\<lambda>t. chr 10 # t)) (json_unescape s')
             else if e = CHR ''r'' then map_option (apfst (\<lambda>t. chr 13 # t)) (json_unescape s')
             else if e = CHR ''t'' then map_option (apfst (\<lambda>t. chr 9 # t)) (json_unescape s')
             else if e = CHR ''u'' then
               (case s' of
                  h1 # h2 # h3 # h4 # s'' \<Rightarrow>
                    (case (hex_value h1, hex_value h2, hex_value h3, hex_value h4) of
                       (Some a, Some b, Some x, Some d) \<Rightarrow>
                         map_option (apfst (\<lambda>t. encode_rune (a * 4096 + b * 256 + x * 16 + d) @ t))
                           (json_unescape s'')
                     | _ \<Rightarrow> None)
                | _ \<Rightarrow> None)
             else None))"

section \<open>The reader inverts the writer\<close>

declare decode_rune.simps [simp del]

lemma byte_of_literal_iff: "byte_of b = n \<longleftrightarrow> n < 256 \<and> b = chr n"
  by (auto simp: byte_of_chr)

lemma hex_value_digit: "n < 16 \<Longrightarrow> hex_value (hex_digit n) = Some n"
  by (auto simp: hex_value_def hex_digit_def Let_def byte_of_chr)

lemma hex_value_literals [simp]:
  "hex_value (CHR ''0'') = Some 0" "hex_value (CHR ''2'') = Some 2" "hex_value (CHR ''f'') = Some 15"
  "hex_value (CHR ''d'') = Some 13"
  by (simp_all add: hex_value_def Let_def)

lemma unescape_plain:
  "c \<noteq> dquote \<Longrightarrow> c \<noteq> backslash \<Longrightarrow>
     json_unescape (c # t) = map_option (apfst (\<lambda>u. c # u)) (json_unescape t)"
  by simp

lemma unescape_u00:
  assumes "byte_of b < (0x80 :: nat)"
  shows "json_unescape ([backslash, CHR ''u'', CHR ''0'', CHR ''0'', hex_digit (byte_of b div 16),
      hex_digit (byte_of b mod 16)] @ t) = map_option (apfst (\<lambda>u. b # u)) (json_unescape t)"
proof -
  have "hex_value (hex_digit (byte_of b div 16)) = Some (byte_of b div 16)"
    "hex_value (hex_digit (byte_of b mod 16)) = Some (byte_of b mod 16)"
    using assms by (auto intro: hex_value_digit)
  moreover have "encode_rune (byte_of b div 16 * 16 + byte_of b mod 16) = [b]"
    using assms by (simp add: encode_rune_def)
  moreover have "(@) [b] = (#) b" by (simp add: fun_eq_iff)
  ultimately show ?thesis by simp
qed

lemma unescape_escape_byte:
  assumes "byte_of b < (0x80 :: nat)"
  shows "json_unescape (escape_byte b @ t) = map_option (apfst (\<lambda>u. b # u)) (json_unescape t)"
proof -
  let ?hex = "[backslash, CHR ''u'', CHR ''0'', CHR ''0'',
    hex_digit (byte_of b div 16), hex_digit (byte_of b mod 16)]"
  have e: "escape_byte b = (if byte_of b < (0x20 :: nat) \<or> b = CHR ''<'' \<or> b = CHR ''>'' \<or> b = CHR ''&''
      then ?hex else [b])"
    if "b \<noteq> dquote" "b \<noteq> backslash" "b \<notin> {chr 8, chr 12, chr 10, chr 13, chr 9}"
    using that by (auto simp: escape_byte_def Let_def byte_of_literal_iff)
  consider (quote) "b = dquote \<or> b = backslash"
    | (short) "b = chr 8 \<or> b = chr 12 \<or> b = chr 10 \<or> b = chr 13 \<or> b = chr 9"
    | (hex) "escape_byte b = ?hex"
    | (plain) "b \<noteq> dquote" "b \<noteq> backslash" "escape_byte b = [b]"
    using e by (metis (no_types, lifting) empty_iff insert_iff)
  then show ?thesis
  proof cases
    case quote
    then show ?thesis by (auto simp: escape_byte_def)
  next
    case short
    then show ?thesis by (auto simp: escape_byte_def Let_def byte_of_chr char_of_def bit_0)
  next
    case hex
    then show ?thesis using unescape_u00 [OF assms, of t] by simp
  next
    case plain
    then show ?thesis by (simp only: append.simps unescape_plain plain)
  qed
qed

lemma unescape_wide:
  "\<forall>b \<in> set xs. (0x80 :: nat) \<le> byte_of b \<Longrightarrow>
     json_unescape (xs @ t) = map_option (apfst (\<lambda>u. xs @ u)) (json_unescape t)"
proof (induction xs)
  case Nil
  then show ?case by (cases "json_unescape t") auto
next
  case (Cons b xs)
  then have "(0x80 :: nat) \<le> byte_of b" by simp
  then have "b \<noteq> dquote" "b \<noteq> backslash" by auto
  with Cons show ?case
    by (simp add: unescape_plain option.map_comp comp_def apfst_compose)
qed

lemma to_valid_utf8_Nil [simp]: "to_valid_utf8 [] = []"
  by (simp add: to_valid_utf8_def string_of_runes_def)

lemma to_valid_utf8_step:
  assumes "decode_rune s = (c, n)" "s \<noteq> []"
  shows "to_valid_utf8 s = encode_rune c @ to_valid_utf8 (drop n s)"
  using assms by (simp add: to_valid_utf8_def string_of_runes_def runes.simps [of s])

lemma encode_rune_error: "encode_rune rune_error = [CHR 0xEF, CHR 0xBF, CHR 0xBD]"
  by (simp add: encode_rune_def rune_error_def char_of_def bit_0)

lemma unescape_fffd:
  "json_unescape (escape_fffd @ t) = map_option (apfst (\<lambda>u. encode_rune rune_error @ u)) (json_unescape t)"
  by (simp add: escape_fffd_def rune_error_def)

lemma unescape_u202x:
  assumes "c = 0x2028 \<or> c = 0x2029"
  shows "json_unescape (([backslash] @ ''u202'' @ [hex_digit (c mod 16)]) @ t) =
    map_option (apfst (\<lambda>u. encode_rune c @ u)) (json_unescape t)"
proof -
  have "hex_value (hex_digit (c mod 16)) = Some (c mod 16)" by (rule hex_value_digit) simp
  moreover have "2 * 4096 + 2 * 16 + c mod 16 = c" using assms by auto
  ultimately show ?thesis by simp
qed

lemma json_unescape_escape:
  "json_unescape (json_escape s @ dquote # rest) = Some (to_valid_utf8 s, rest)"
proof (induction s rule: json_escape.induct)
  case (1 s)
  show ?case
  proof (cases s)
    case Nil
    then show ?thesis by (simp add: json_escape.simps)
  next
    case (Cons b bs)
    show ?thesis
    proof (cases "byte_of b < (0x80 :: nat)")
      case True
      have "to_valid_utf8 s = [b] @ to_valid_utf8 bs"
        using True to_valid_utf8_step [of s "byte_of b" 1] Cons
        by (simp add: decode_rune.simps encode_rune_def)
      moreover have "json_escape s = escape_byte b @ json_escape bs"
        using Cons True by (subst json_escape.simps) simp
      ultimately show ?thesis
        using 1(1) [OF Cons True] by (simp add: unescape_escape_byte True)
    next
      case False
      obtain c n where d: "decode_rune s = (c, n)" by (cases "decode_rune s")
      let ?u = "if c = rune_error \<and> n = 1 then escape_fffd
        else if c = 0x2028 \<or> c = 0x2029 then [backslash] @ ''u202'' @ [hex_digit (c mod 16)]
        else take n s"
      have esc: "json_escape s = ?u @ json_escape (drop n s)"
        using Cons False d by (subst json_escape.simps) (simp add: Let_def)
      have IH: "json_unescape (json_escape (drop n s) @ dquote # rest) =
        Some (to_valid_utf8 (drop n s), rest)"
        using 1(2) [OF Cons False] d by simp
      have unit: "json_unescape (?u @ t) = map_option (apfst (\<lambda>u. encode_rune c @ u)) (json_unescape t)" for t
      proof (cases "c = rune_error \<and> n = 1")
        case True
        then show ?thesis by (simp add: unescape_fffd)
      next
        case ok: False
        from encode_decode_rune [OF d _ ok] Cons False
        have e: "encode_rune c = take n s" "\<forall>b \<in> set (take n s). (0x80 :: nat) \<le> byte_of b" by auto
        show ?thesis
        proof (cases "c = 0x2028 \<or> c = 0x2029")
          case True
          with ok unescape_u202x [OF True] show ?thesis by (simp only: if_False if_True)
        next
          case False
          with ok e unescape_wide [OF e(2)] show ?thesis by (simp only: if_False)
        qed
      qed
      show ?thesis
        unfolding esc append_assoc unit IH
        using to_valid_utf8_step [OF d] Cons by simp
    qed
  qed
qed

text \<open>No control byte survives escaping, so a frame's data is one line.\<close>

lemma hex_digit_printable: "n < 16 \<Longrightarrow> (0x20 :: nat) \<le> byte_of (hex_digit n)"
  by (simp add: hex_digit_def byte_of_chr)

lemma escape_byte_printable: "b' \<in> set (escape_byte b) \<Longrightarrow> (0x20 :: nat) \<le> byte_of b'"
  by (auto simp: escape_byte_def Let_def hex_digit_printable less_mult_imp_div_less
      split: if_splits)

lemma json_escape_printable: "b \<in> set (json_escape s) \<Longrightarrow> (0x20 :: nat) \<le> byte_of b"
proof (induction s rule: json_escape.induct)
  case (1 s)
  show ?case
  proof (cases s)
    case Nil
    with 1(3) show ?thesis by (simp add: json_escape.simps)
  next
    case (Cons a bs)
    show ?thesis
    proof (cases "byte_of a < (0x80 :: nat)")
      case True
      then have "json_escape s = escape_byte a @ json_escape bs"
        using Cons by (subst json_escape.simps) simp
      with 1(1) [OF Cons True] 1(3) show ?thesis by (auto dest: escape_byte_printable)
    next
      case False
      obtain c n where d: "decode_rune s = (c, n)" by (cases "decode_rune s")
      have "b \<in> set (json_escape (drop n s)) \<or> b \<in> set escape_fffd \<or>
          b \<in> set ([backslash] @ ''u202'' @ [hex_digit (c mod 16)]) \<or>
          \<not> (c = rune_error \<and> n = 1) \<and> b \<in> set (take n s)"
        using 1(3) Cons False d
        by (subst (asm) json_escape.simps) (auto simp: Let_def split: if_splits)
      moreover have "\<not> (c = rune_error \<and> n = 1) \<Longrightarrow> b \<in> set (take n s) \<Longrightarrow> (0x80 :: nat) \<le> byte_of b"
        using encode_decode_rune [OF d] Cons False by auto
      moreover have "b \<in> set (json_escape (drop n s)) \<Longrightarrow> (0x20 :: nat) \<le> byte_of b"
        using 1(2) [OF Cons False] d by simp
      ultimately show ?thesis
        by (auto simp: escape_fffd_def hex_digit_printable)
    qed
  qed
qed

end
