(* ===== verification/Go_Strings.thy ===== *)
theory Go_Strings
  imports Go_Json
begin

text \<open>
  The operations of Go's \<open>strings\<close>, \<open>strconv\<close> and \<open>path/filepath\<close> (on Unix) that the relay
  uses, on byte strings. Where Go consults its Unicode tables beyond ASCII (case mapping,
  printability) the table is an argument, a \<open>unicode\<close> record; white space is exact.
\<close>

section \<open>Searching and cutting\<close>

definition has_prefix :: "gostring \<Rightarrow> gostring \<Rightarrow> bool" where
  "has_prefix s p \<longleftrightarrow> take (length p) s = p"

definition has_suffix :: "gostring \<Rightarrow> gostring \<Rightarrow> bool" where
  "has_suffix s p \<longleftrightarrow> length p \<le> length s \<and> drop (length s - length p) s = p"

definition trim_prefix :: "gostring \<Rightarrow> gostring \<Rightarrow> gostring" where
  "trim_prefix s p = (if has_prefix s p then drop (length p) s else s)"

definition trim_suffix :: "gostring \<Rightarrow> gostring \<Rightarrow> gostring" where
  "trim_suffix s p = (if has_suffix s p then take (length s - length p) s else s)"

fun index_of :: "gostring \<Rightarrow> gostring \<Rightarrow> nat option" where
  "index_of [] p = (if p = [] then Some 0 else None)"
| "index_of (c # s) p = (if has_prefix (c # s) p then Some 0 else map_option Suc (index_of s p))"

definition contains :: "gostring \<Rightarrow> gostring \<Rightarrow> bool" where
  "contains s p \<longleftrightarrow> index_of s p \<noteq> None"

text \<open>\<open>strings.Cut\<close> around the first occurrence of a byte.\<close>

fun cut_byte :: "char \<Rightarrow> gostring \<Rightarrow> (gostring \<times> gostring) option" where
  "cut_byte c [] = None"
| "cut_byte c (x # s) =
     (if x = c then Some ([], s) else map_option (\<lambda>(a, b). (x # a, b)) (cut_byte c s))"

text \<open>\<open>strings.Split\<close> at a byte: never empty.\<close>

fun split_byte :: "char \<Rightarrow> gostring \<Rightarrow> gostring list" where
  "split_byte c [] = [[]]"
| "split_byte c (x # s) =
     (case split_byte c s of
        [] \<Rightarrow> [[x]]
      | w # ws \<Rightarrow> if x = c then [] # w # ws else (x # w) # ws)"

lemma has_prefix_append [simp]: "has_prefix (p @ s) p"
  by (simp add: has_prefix_def)

lemma has_prefix_Nil [simp]: "has_prefix s []"
  by (simp add: has_prefix_def)

lemma has_prefix_iff: "has_prefix s p \<longleftrightarrow> (\<exists>t. s = p @ t)"
  by (metis append_take_drop_id has_prefix_append has_prefix_def)

lemma trim_prefix_append [simp]: "trim_prefix (p @ s) p = s"
  by (simp add: trim_prefix_def)

lemma split_byte_nonempty [simp]: "split_byte c s \<noteq> []"
  by (cases s) (auto split: list.splits)

lemma join_split_byte [simp]: "join_with [c] (split_byte c s) = s"
proof (induction s)
  case (Cons x s)
  obtain w ws where sp: "split_byte c s = w # ws" by (metis neq_Nil_conv split_byte_nonempty)
  show ?case
  proof (cases "x = c")
    case True
    with Cons sp show ?thesis by simp
  next
    case False
    have "join_with [c] ((x # w) # ws) = x # join_with [c] (w # ws)" by (cases ws) auto
    with Cons sp False show ?thesis by simp
  qed
qed simp

lemma split_byte_parts: "w \<in> set (split_byte c s) \<Longrightarrow> c \<notin> set w"
  by (induction s arbitrary: w) (auto split: list.splits if_splits)

lemma split_byte_single: "c \<notin> set s \<Longrightarrow> split_byte c s = [s]"
  by (induction s) auto

lemma split_byte_append: "c \<notin> set w \<Longrightarrow> split_byte c (w @ c # s) = w # split_byte c s"
proof (induction w)
  case Nil
  then show ?case by (cases "split_byte c s") simp_all
qed (auto split: list.splits)

section \<open>White space\<close>

text \<open>The encodings of the code points with Unicode's \<open>White_Space\<close> property. A rune of this
  set is at an end of a string exactly when its encoding is: no other decoding ends or starts
  with these bytes at a rune boundary.\<close>

definition space_runes :: "gostring list" where
  "space_runes = [[CHR 0x09], [CHR 0x0A], [CHR 0x0B], [CHR 0x0C], [CHR 0x0D], [CHR 0x20],
     [CHR 0xC2, CHR 0x85], [CHR 0xC2, CHR 0xA0], [CHR 0xE1, CHR 0x9A, CHR 0x80],
     [CHR 0xE2, CHR 0x80, CHR 0x80], [CHR 0xE2, CHR 0x80, CHR 0x81], [CHR 0xE2, CHR 0x80, CHR 0x82],
     [CHR 0xE2, CHR 0x80, CHR 0x83], [CHR 0xE2, CHR 0x80, CHR 0x84], [CHR 0xE2, CHR 0x80, CHR 0x85],
     [CHR 0xE2, CHR 0x80, CHR 0x86], [CHR 0xE2, CHR 0x80, CHR 0x87], [CHR 0xE2, CHR 0x80, CHR 0x88],
     [CHR 0xE2, CHR 0x80, CHR 0x89], [CHR 0xE2, CHR 0x80, CHR 0x8A], [CHR 0xE2, CHR 0x80, CHR 0xA8],
     [CHR 0xE2, CHR 0x80, CHR 0xA9], [CHR 0xE2, CHR 0x80, CHR 0xAF], [CHR 0xE2, CHR 0x81, CHR 0x9F],
     [CHR 0xE3, CHR 0x80, CHR 0x80]]"

lemma space_runes_nonempty: "e \<in> set space_runes \<Longrightarrow> e \<noteq> []"
  by (auto simp: space_runes_def)

definition leading_space :: "gostring \<Rightarrow> nat" where
  "leading_space s = (case find (has_prefix s) space_runes of None \<Rightarrow> 0 | Some e \<Rightarrow> length e)"

definition trailing_space :: "gostring \<Rightarrow> nat" where
  "trailing_space s = (case find (has_suffix s) space_runes of None \<Rightarrow> 0 | Some e \<Rightarrow> length e)"

lemma leading_space_le: "leading_space s \<le> length s"
  by (auto simp: leading_space_def has_prefix_iff find_Some_iff split: option.splits)

lemma trailing_space_le: "trailing_space s \<le> length s"
  by (auto simp: trailing_space_def has_suffix_def find_Some_iff split: option.splits)

function trim_left_space :: "gostring \<Rightarrow> gostring" where
  "trim_left_space s =
     (if leading_space s = 0 then s else trim_left_space (drop (leading_space s) s))"
  by pat_completeness auto
termination
proof (relation "measure length", goal_cases)
  case (2 s)
  with leading_space_le [of s] show ?case by simp
qed simp

function trim_right_space :: "gostring \<Rightarrow> gostring" where
  "trim_right_space s =
     (if trailing_space s = 0 then s
      else trim_right_space (take (length s - trailing_space s) s))"
  by pat_completeness auto
termination
proof (relation "measure length", goal_cases)
  case (2 s)
  with trailing_space_le [of s] show ?case by (simp add: min_def)
qed simp

declare trim_left_space.simps [simp del] trim_right_space.simps [simp del]

definition trim_space :: "gostring \<Rightarrow> gostring" where
  "trim_space s = trim_right_space (trim_left_space s)"

lemma leading_space_0: "leading_space s = 0 \<longleftrightarrow> (\<forall>e \<in> set space_runes. \<not> has_prefix s e)"
  using space_runes_nonempty
  by (auto simp: leading_space_def find_None_iff find_Some_iff split: option.splits)

lemma trailing_space_0: "trailing_space s = 0 \<longleftrightarrow> (\<forall>e \<in> set space_runes. \<not> has_suffix s e)"
  using space_runes_nonempty
  by (auto simp: trailing_space_def find_None_iff find_Some_iff split: option.splits)

lemma trim_left_space_done: "leading_space (trim_left_space s) = 0"
  by (induction s rule: trim_left_space.induct) (subst trim_left_space.simps, simp)

lemma trim_right_space_done: "trailing_space (trim_right_space s) = 0"
  by (induction s rule: trim_right_space.induct) (subst trim_right_space.simps, simp)

lemma trim_right_space_prefix: "\<exists>t. s = trim_right_space s @ t"
proof (induction s rule: trim_right_space.induct)
  case (1 s)
  show ?case
  proof (cases "trailing_space s = 0")
    case True
    then show ?thesis by (subst trim_right_space.simps) simp
  next
    case False
    from 1 [OF this] obtain t where
      "take (length s - trailing_space s) s = trim_right_space (take (length s - trailing_space s) s) @ t"
      by blast
    then have "s = trim_right_space (take (length s - trailing_space s) s) @ t @
      drop (length s - trailing_space s) s"
      by (metis append.assoc append_take_drop_id)
    with False show ?thesis
      by (subst trim_right_space.simps) auto
  qed
qed

text \<open>A trimmed string has no white space at either end.\<close>

lemma trim_space_ends:
  "leading_space (trim_space s) = 0" "trailing_space (trim_space s) = 0"
proof -
  let ?l = "trim_left_space s"
  obtain t where t: "?l = trim_right_space ?l @ t" using trim_right_space_prefix by blast
  have "\<not> has_prefix (trim_right_space ?l) e" if "e \<in> set space_runes" for e
    using trim_left_space_done [of s] that t
    by (metis append.assoc has_prefix_iff leading_space_0)
  then show "leading_space (trim_space s) = 0" by (simp add: trim_space_def leading_space_0)
  show "trailing_space (trim_space s) = 0" by (simp add: trim_space_def trim_right_space_done)
qed

lemma trim_space_trimmed: "leading_space s = 0 \<Longrightarrow> trailing_space s = 0 \<Longrightarrow> trim_space s = s"
  by (simp add: trim_space_def trim_left_space.simps trim_right_space.simps)

lemma trim_space_idem [simp]: "trim_space (trim_space s) = trim_space s"
  by (simp add: trim_space_trimmed trim_space_ends)

text \<open>\<open>strings.Trim\<close> with an ASCII cutset.\<close>

definition trim_set :: "gostring \<Rightarrow> gostring \<Rightarrow> gostring" where
  "trim_set s cutset =
     rev (dropWhile (\<lambda>c. c \<in> set cutset) (rev (dropWhile (\<lambda>c. c \<in> set cutset) s)))"

section \<open>Case and quoting\<close>

text \<open>The Unicode tables beyond ASCII: lower case, equality under simple folding, printability.\<close>

record unicode =
  u_lower :: "nat \<Rightarrow> nat"
  u_fold_eq :: "nat \<Rightarrow> nat \<Rightarrow> bool"
  u_print :: "nat \<Rightarrow> bool"

definition ascii_tables :: unicode where
  "ascii_tables = \<lparr>u_lower = (\<lambda>c. c), u_fold_eq = (\<lambda>a b. a = b), u_print = (\<lambda>_. True)\<rparr>"

definition lower_ascii :: "nat \<Rightarrow> nat" where
  "lower_ascii c = (if 65 \<le> c \<and> c \<le> 90 then c + 32 else c)"

definition is_ascii :: "gostring \<Rightarrow> bool" where
  "is_ascii s \<longleftrightarrow> (\<forall>b \<in> set s. byte_of b < (0x80 :: nat))"

definition to_lower :: "unicode \<Rightarrow> gostring \<Rightarrow> gostring" where
  "to_lower U s =
     (if is_ascii s then map (\<lambda>b. chr (lower_ascii (byte_of b))) s
      else string_of_runes (map (\<lambda>c. if c < 0x80 then lower_ascii c else u_lower U c) (runes s)))"

text \<open>Two runes that differ fold to the same letter within ASCII only by case; a pair with a rune
  outside ASCII is decided by the table.\<close>

definition fold_eq :: "unicode \<Rightarrow> nat \<Rightarrow> nat \<Rightarrow> bool" where
  "fold_eq U a b \<longleftrightarrow>
     (if a < 0x80 \<and> b < 0x80 then lower_ascii a = lower_ascii b else a = b \<or> u_fold_eq U a b)"

definition equal_fold :: "unicode \<Rightarrow> gostring \<Rightarrow> gostring \<Rightarrow> bool" where
  "equal_fold U s t \<longleftrightarrow> list_all2 (fold_eq U) (runes s) (runes t)"

text \<open>On ASCII strings it compares the lower-case forms.\<close>

lemma runes_ascii: "is_ascii s \<Longrightarrow> runes s = map byte_of s"
proof (induction s)
  case Nil
  then show ?case by (subst runes.simps) simp
next
  case (Cons b s)
  then have "byte_of b < (0x80 :: nat)" "is_ascii s" by (simp_all add: is_ascii_def)
  with Cons.IH show ?case by (subst runes.simps) (simp add: decode_rune.simps)
qed

lemma equal_fold_ascii:
  assumes "is_ascii s" "is_ascii t"
  shows "equal_fold U s t \<longleftrightarrow> map (\<lambda>b. lower_ascii (byte_of b)) s = map (\<lambda>b. lower_ascii (byte_of b)) t"
proof -
  have "list_all2 (fold_eq U) (map byte_of s) (map byte_of t) \<longleftrightarrow>
    list_all2 (\<lambda>a b. lower_ascii (byte_of a) = lower_ascii (byte_of b)) s t"
    using assms by (auto simp: list_all2_conv_all_nth fold_eq_def is_ascii_def)
  then show ?thesis
    unfolding equal_fold_def list_all2_eq list.rel_map using assms by (simp add: runes_ascii list.rel_map)
qed

text \<open>\<open>%q\<close>: \<open>strconv.Quote\<close>.\<close>

fun hex_fixed :: "nat \<Rightarrow> nat \<Rightarrow> gostring" where
  "hex_fixed 0 n = []"
| "hex_fixed (Suc w) n = hex_fixed w (n div 16) @ [hex_digit (n mod 16)]"

definition quote_rune :: "unicode \<Rightarrow> nat \<Rightarrow> gostring" where
  "quote_rune U c =
     (if c = 34 \<or> c = 92 then [backslash, chr c]
      else if c < 0x80 \<and> 32 \<le> c \<and> c \<noteq> 127 then [chr c]
      else if 0x80 \<le> c \<and> u_print U c then encode_rune c
      else if c = 7 then [backslash, CHR ''a''] else if c = 8 then [backslash, CHR ''b'']
      else if c = 12 then [backslash, CHR ''f''] else if c = 10 then [backslash, CHR ''n'']
      else if c = 13 then [backslash, CHR ''r''] else if c = 9 then [backslash, CHR ''t'']
      else if c = 11 then [backslash, CHR ''v'']
      else if c < 32 \<or> c = 127 then backslash # CHR ''x'' # hex_fixed 2 c
      else if c < 0x10000 then backslash # CHR ''u'' # hex_fixed 4 c
      else backslash # CHR ''U'' # hex_fixed 8 c)"

function quote_body :: "unicode \<Rightarrow> gostring \<Rightarrow> gostring" where
  "quote_body U s =
     (if s = [] then []
      else
        (let (c, n) = decode_rune s in
         (if c = rune_error \<and> n = 1 then backslash # CHR ''x'' # hex_fixed 2 (byte_of (hd s))
          else quote_rune U c) @ quote_body U (drop n s)))"
  by pat_completeness auto
termination
proof (relation "measure (\<lambda>(U, s). length s)", goal_cases)
  case (2 U s x c n)
  then show ?case using decode_rune_width [of s] by (cases "decode_rune s") auto
qed simp

declare quote_body.simps [simp del]

definition go_quote :: "unicode \<Rightarrow> gostring \<Rightarrow> gostring" where
  "go_quote U s = [dquote] @ quote_body U s @ [dquote]"

text \<open>Simplification rules that evaluate these operations on literals.\<close>

named_theorems go_eval "evaluation of string operations on literals"

lemma bit_Suc_0 [go_eval]: "bit (Suc 0) 0"
  by (simp add: bit_0)

declare char_of_def [go_eval] contains_def [go_eval] has_prefix_def [go_eval] has_suffix_def [go_eval]
  trim_prefix_def [go_eval] trim_suffix_def [go_eval] to_lower_def [go_eval] is_ascii_def [go_eval]
  lower_ascii_def [go_eval]

section \<open>Sorting\<close>

text \<open>\<open>sort.Strings\<close>, bytewise.\<close>

fun str_le :: "gostring \<Rightarrow> gostring \<Rightarrow> bool" where
  "str_le [] _ = True"
| "str_le (_ # _) [] = False"
| "str_le (a # s) (b # t) \<longleftrightarrow>
     (if a = b then str_le s t else (byte_of a :: nat) < byte_of b)"

fun insert_by :: "('a \<Rightarrow> 'a \<Rightarrow> bool) \<Rightarrow> 'a \<Rightarrow> 'a list \<Rightarrow> 'a list" where
  "insert_by le x [] = [x]"
| "insert_by le x (y # ys) = (if le x y then x # y # ys else y # insert_by le x ys)"

definition sort_by :: "('a \<Rightarrow> 'a \<Rightarrow> bool) \<Rightarrow> 'a list \<Rightarrow> 'a list" where
  "sort_by le xs = foldr (insert_by le) xs []"

lemma str_le_refl [simp]: "str_le s s"
  by (induction s) auto

lemma byte_of_eq_iff: "(byte_of a :: nat) = byte_of b \<longleftrightarrow> a = b"
  by (metis char_of_char)

lemma str_le_total: "str_le s t \<or> str_le t s"
proof (induction s t rule: str_le.induct)
  case (3 a s b t)
  consider "a = b" | "(byte_of a :: nat) < byte_of b" | "(byte_of b :: nat) < byte_of a"
    using byte_of_eq_iff [of a b] by linarith
  then show ?case using 3 by cases auto
qed auto

lemma str_le_trans: "str_le s t \<Longrightarrow> str_le t u \<Longrightarrow> str_le s u"
proof (induction s u arbitrary: t rule: str_le.induct)
  case (2 a s)
  then show ?case by (cases t) auto
next
  case (3 a s c u)
  then show ?case by (cases t) (auto split: if_splits)
qed auto

lemma str_le_antisym: "str_le s t \<Longrightarrow> str_le t s \<Longrightarrow> s = t"
proof (induction s t rule: str_le.induct)
  case (1 t)
  then show ?case by (cases t) auto
qed (auto split: if_splits)

lemma set_insert_by [simp]: "set (insert_by le x xs) = insert x (set xs)"
  by (induction xs) auto

lemma set_sort_by [simp]: "set (sort_by le xs) = set xs"
  by (induction xs) (auto simp: sort_by_def)

lemma length_insert_by [simp]: "length (insert_by le x xs) = Suc (length xs)"
  by (induction xs) auto

lemma length_sort_by [simp]: "length (sort_by le xs) = length xs"
  by (induction xs) (auto simp: sort_by_def)

definition by_key :: "('a \<Rightarrow> gostring) \<Rightarrow> 'a \<Rightarrow> 'a \<Rightarrow> bool" where
  "by_key f x y \<longleftrightarrow> str_le (f x) (f y)"

lemma sorted_insert_by:
  "sorted_wrt (by_key f) xs \<Longrightarrow> sorted_wrt (by_key f) (insert_by (by_key f) x xs)"
proof (induction xs)
  case (Cons y ys)
  show ?case
  proof (cases "by_key f x y")
    case True
    with Cons.prems show ?thesis by (auto simp: by_key_def intro: str_le_trans)
  next
    case False
    then have "by_key f y x" using str_le_total by (auto simp: by_key_def)
    with Cons False show ?thesis by simp
  qed
qed simp

lemma sorted_sort_by: "sorted_wrt (by_key f) (sort_by (by_key f) xs)"
  by (induction xs) (simp_all add: sort_by_def sorted_insert_by)

lemma distinct_insert_by: "distinct (map g (insert_by le x xs)) \<longleftrightarrow> g x \<notin> g ` set xs \<and> distinct (map g xs)"
  by (induction xs) auto

lemma distinct_sort_by [simp]: "distinct (map g (sort_by le xs)) \<longleftrightarrow> distinct (map g xs)"
proof (induction xs)
  case (Cons x xs)
  have "sort_by le (x # xs) = insert_by le x (sort_by le xs)" by (simp add: sort_by_def)
  with Cons show ?case by (simp add: distinct_insert_by)
qed (simp add: sort_by_def)

end
