(* ===== verification/Go_Path.thy ===== *)
theory Go_Path
  imports Go_Strings
begin

text \<open>
  \<open>path/filepath\<close> on Unix: \<open>Clean\<close>, \<open>Join\<close>, \<open>Dir\<close>, \<open>Base\<close>, \<open>Ext\<close>, \<open>IsAbs\<close>. \<open>Clean\<close> is
  given by the components of the path: empty and \<open>.\<close> components vanish, \<open>..\<close> removes the
  component before it.
\<close>

abbreviation slash :: char where "slash \<equiv> CHR ''/''"
abbreviation dot :: char where "dot \<equiv> CHR ''.''"

definition is_abs :: "gostring \<Rightarrow> bool" where
  "is_abs p \<longleftrightarrow> has_prefix p [slash]"

text \<open>The components kept so far, last one first.\<close>

fun clean_step :: "bool \<Rightarrow> gostring \<Rightarrow> gostring list \<Rightarrow> gostring list" where
  "clean_step rooted c acc =
     (if c = [] \<or> c = [dot] then acc
      else if c = [dot, dot] then
        (case acc of
           [] \<Rightarrow> if rooted then [] else [c]
         | a # rest \<Rightarrow> if a = [dot, dot] then c # acc else rest)
      else c # acc)"

definition clean_comps :: "gostring \<Rightarrow> gostring list" where
  "clean_comps p = rev (fold (clean_step (is_abs p)) (split_byte slash p) [])"

definition path_of :: "bool \<Rightarrow> gostring list \<Rightarrow> gostring" where
  "path_of rooted cs =
     (if rooted then slash # join_with [slash] cs
      else if cs = [] then [dot] else join_with [slash] cs)"

definition path_clean :: "gostring \<Rightarrow> gostring" where
  "path_clean p = path_of (is_abs p) (clean_comps p)"

text \<open>\<open>Join\<close> ignores leading empty elements, and is empty when all are.\<close>

definition path_join :: "gostring list \<Rightarrow> gostring" where
  "path_join elems =
     (case dropWhile (\<lambda>e. e = []) elems of
        [] \<Rightarrow> []
      | es \<Rightarrow> path_clean (join_with [slash] es))"

text \<open>The part of the path up to and including its last slash, and the part after it.\<close>

definition split_last :: "gostring \<Rightarrow> gostring \<times> gostring" where
  "split_last p =
     (let base = rev (takeWhile (\<lambda>c. c \<noteq> slash) (rev p)) in
      (take (length p - length base) p, base))"

definition path_dir :: "gostring \<Rightarrow> gostring" where
  "path_dir p = path_clean (fst (split_last p))"

definition path_base :: "gostring \<Rightarrow> gostring" where
  "path_base p =
     (if p = [] then [dot]
      else
        (let q = rev (dropWhile (\<lambda>c. c = slash) (rev p)) in
         if q = [] then [slash] else snd (split_last q)))"

text \<open>From the last dot after the last slash; empty without one.\<close>

definition path_ext :: "gostring \<Rightarrow> gostring" where
  "path_ext p =
     (let base = snd (split_last p);
          suffix = takeWhile (\<lambda>c. c \<noteq> dot) (rev base) in
      if length suffix < length base then dot # rev suffix else [])"

section \<open>Joining a plain name\<close>

text \<open>A name that is one ordinary path component.\<close>

definition plain_name :: "gostring \<Rightarrow> bool" where
  "plain_name n \<longleftrightarrow> n \<noteq> [] \<and> n \<noteq> [dot] \<and> n \<noteq> [dot, dot] \<and> slash \<notin> set n"

lemma is_abs_append: "p \<noteq> [] \<Longrightarrow> is_abs (p @ s) = is_abs p"
  by (cases p) (auto simp: is_abs_def has_prefix_def)

lemma split_byte_snoc:
  "c \<notin> set n \<Longrightarrow> split_byte c (p @ c # n) = split_byte c p @ [n]"
proof (induction p)
  case Nil
  then show ?case by (simp add: split_byte_single)
next
  case (Cons x p)
  obtain w ws where "split_byte c p = w # ws" by (metis neq_Nil_conv split_byte_nonempty)
  with Cons show ?case by simp
qed

lemma clean_comps_snoc:
  assumes "plain_name n" "p \<noteq> []"
  shows "clean_comps (p @ slash # n) = clean_comps p @ [n]"
  using assms by (simp add: clean_comps_def plain_name_def split_byte_snoc is_abs_append)

lemma path_join2: "p \<noteq> [] \<Longrightarrow> n \<noteq> [] \<Longrightarrow> path_join [p, n] = path_clean (p @ slash # n)"
  by (simp add: path_join_def)

lemma path_join3:
  "p \<noteq> [] \<Longrightarrow> path_join [p, m, n] = path_clean (p @ slash # m @ slash # n)"
  by (simp add: path_join_def)

lemma join_with_snoc: "cs \<noteq> [] \<Longrightarrow> join_with sep (cs @ [n]) = join_with sep cs @ sep @ n"
  by (induction sep cs rule: join_with.induct) auto

text \<open>Cleaning keeps only proper components, and a rooted path has no \<open>..\<close> left.\<close>

definition proper :: "gostring \<Rightarrow> bool" where
  "proper c \<longleftrightarrow> c \<noteq> [] \<and> c \<noteq> [dot] \<and> c \<noteq> [dot, dot]"

lemma clean_step_rooted: "list_all proper acc \<Longrightarrow> list_all proper (clean_step True c acc)"
  by (cases acc) (auto simp: proper_def)

lemma clean_fold_rooted:
  "list_all proper acc \<Longrightarrow> list_all proper (fold (clean_step True) cs acc)"
proof (induction cs arbitrary: acc)
  case (Cons c cs)
  from Cons.IH [OF clean_step_rooted [OF Cons.prems]] show ?case by (simp del: clean_step.simps)
qed simp

lemma clean_step_slash:
  "\<forall>d \<in> set acc. slash \<notin> set d \<Longrightarrow> slash \<notin> set c \<Longrightarrow> \<forall>d \<in> set (clean_step r c acc). slash \<notin> set d"
  by (cases acc) auto

lemma clean_fold_slash:
  "\<forall>c \<in> set acc. slash \<notin> set c \<Longrightarrow> \<forall>c \<in> set cs. slash \<notin> set c \<Longrightarrow>
     \<forall>c \<in> set (fold (clean_step r) cs acc). slash \<notin> set c"
proof (induction cs arbitrary: acc)
  case (Cons c cs)
  have "slash \<notin> set c" using Cons.prems(2) by simp
  from Cons.IH [OF clean_step_slash [OF Cons.prems(1) this]] Cons.prems(2)
  show ?case by (simp del: clean_step.simps)
qed simp

lemma clean_comps_plain: "is_abs p \<Longrightarrow> c \<in> set (clean_comps p) \<Longrightarrow> plain_name c"
  using clean_fold_rooted [of "[]" "split_byte slash p"]
    clean_fold_slash [of "[]" "split_byte slash p" True] split_byte_parts [of _ slash p]
  by (auto simp: clean_comps_def plain_name_def list_all_iff proper_def)

text \<open>A rooted path can be read back from its components.\<close>

lemma split_join_plain:
  "cs \<noteq> [] \<Longrightarrow> \<forall>c \<in> set cs. slash \<notin> set c \<Longrightarrow> split_byte slash (join_with [slash] cs) = cs"
  by (induction "[slash]" cs rule: join_with.induct) (simp_all add: split_byte_single split_byte_append)

lemma fold_clean_plain:
  "\<forall>c \<in> set cs. plain_name c \<Longrightarrow> fold (clean_step r) cs acc = rev cs @ acc"
  by (induction cs arbitrary: acc) (auto simp: plain_name_def)

lemma clean_comps_path_of:
  assumes "\<forall>c \<in> set cs. plain_name c"
  shows "clean_comps (path_of True cs) = cs"
proof (cases "cs = []")
  case True
  then show ?thesis by (simp add: clean_comps_def path_of_def is_abs_def has_prefix_def)
next
  case False
  have "split_byte slash (slash # join_with [slash] cs) = [] # cs"
    using split_join_plain [OF False] assms False by (auto simp: plain_name_def split: list.splits)
  moreover have "is_abs (slash # join_with [slash] cs)" by (simp add: is_abs_def has_prefix_def)
  ultimately show ?thesis
    using fold_clean_plain [OF assms, of True "[]"]
    by (simp add: clean_comps_def path_of_def del: split_byte.simps)
qed

lemma is_abs_path_of [simp]: "is_abs (path_of True cs)"
  by (simp add: is_abs_def path_of_def has_prefix_def)

text \<open>A path strictly inside a directory: all its components extend the directory's.\<close>

definition inside :: "gostring \<Rightarrow> gostring \<Rightarrow> bool" where
  "inside dir p \<longleftrightarrow> is_abs p \<and>
     take (length (clean_comps dir)) (clean_comps p) = clean_comps dir \<and>
     length (clean_comps dir) < length (clean_comps p)"

lemma clean_comps_clean:
  assumes "is_abs p"
  shows "clean_comps (path_clean p) = clean_comps p" "is_abs (path_clean p)"
  using assms clean_comps_path_of [of "clean_comps p"] clean_comps_plain
  by (auto simp: path_clean_def)

section \<open>Local names stay below\<close>

text \<open>What \<open>os.Root\<close> demands of a name lexically (\<open>filepath.IsLocal\<close>): relative, not empty, and
  never above its start.\<close>

definition is_local :: "gostring \<Rightarrow> bool" where
  "is_local n \<longleftrightarrow> n \<noteq> [] \<and> \<not> is_abs n \<and> [dot, dot] \<notin> set (clean_comps n)"

definition below :: "gostring \<Rightarrow> gostring \<Rightarrow> bool" where
  "below dir p \<longleftrightarrow> is_abs p \<and> (\<exists>cs. clean_comps p = clean_comps dir @ cs)"

lemma clean_step_keeps_up: "[dot, dot] \<in> set acc \<Longrightarrow> [dot, dot] \<in> set (clean_step False c acc)"
  by (cases acc) auto

lemma clean_fold_keeps_up:
  "[dot, dot] \<in> set acc \<Longrightarrow> [dot, dot] \<in> set (fold (clean_step False) cs acc)"
proof (induction cs arbitrary: acc)
  case (Cons c cs)
  from Cons.IH [OF clean_step_keeps_up [OF Cons.prems]] show ?case by (simp del: clean_step.simps)
qed simp

lemma clean_step_base:
  "[dot, dot] \<notin> set (clean_step False c acc) \<Longrightarrow>
     clean_step True c (acc @ base) = clean_step False c acc @ base"
  by (cases acc) (auto split: if_splits)

lemma clean_fold_base:
  "[dot, dot] \<notin> set (fold (clean_step False) cs acc) \<Longrightarrow>
     fold (clean_step True) cs (acc @ base) = fold (clean_step False) cs acc @ base"
proof (induction cs arbitrary: acc)
  case (Cons c cs)
  then have "[dot, dot] \<notin> set (clean_step False c acc)"
    using clean_fold_keeps_up by (auto simp del: clean_step.simps)
  with Cons clean_step_base [OF this, of base] show ?case by (simp del: clean_step.simps)
qed simp

lemma split_byte_append_sep:
  "split_byte c (p @ c # s) = split_byte c p @ split_byte c s"
proof (induction p)
  case Nil
  then show ?case by (cases "split_byte c s") simp_all
next
  case (Cons x p)
  obtain w ws where "split_byte c p = w # ws" by (metis neq_Nil_conv split_byte_nonempty)
  with Cons show ?case by simp
qed

lemma clean_comps_local:
  assumes "is_abs p" "is_local n"
  shows "clean_comps (p @ slash # n) = clean_comps p @ clean_comps n"
proof -
  from assms(1) have p: "p \<noteq> []" by (auto simp: is_abs_def has_prefix_def)
  have "[dot, dot] \<notin> set (fold (clean_step False) (split_byte slash n) [])"
    using assms(2) by (auto simp: is_local_def clean_comps_def)
  from clean_fold_base [OF this, of "fold (clean_step True) (split_byte slash p) []"] assms p
  show ?thesis
    by (simp add: clean_comps_def split_byte_append_sep is_abs_append is_local_def)
qed

lemma join_local:
  assumes "is_abs p" "is_local n"
  shows "is_abs (path_join [p, n])" "clean_comps (path_join [p, n]) = clean_comps p @ clean_comps n"
proof -
  from assms have "p \<noteq> []" "n \<noteq> []" by (auto simp: is_abs_def has_prefix_def is_local_def)
  with assms show "is_abs (path_join [p, n])"
    "clean_comps (path_join [p, n]) = clean_comps p @ clean_comps n"
    by (simp_all add: path_join2 clean_comps_clean clean_comps_local is_abs_append)
qed

lemma plain_name_comps: "plain_name n \<Longrightarrow> clean_comps n = [n]"
  by (simp add: clean_comps_def plain_name_def split_byte_single)

lemma plain_name_local: "plain_name n \<Longrightarrow> is_local n"
  using plain_name_comps [of n]
  by (cases n) (auto simp: is_local_def plain_name_def is_abs_def has_prefix_def)

lemma below_trans: "below a b \<Longrightarrow> below b c \<Longrightarrow> below a c"
  by (auto simp: below_def)

end
