(* ===== verification/Go_Codec.thy ===== *)
theory Go_Codec
  imports Go_Path "HOL-Library.Word"
begin

text \<open>
  The encodings the relay takes from Go's standard library: SHA-256, hexadecimal, standard
  base64, and the percent-encoding of a URL path with the \<open>file\<close> URI built from it.
\<close>

unbundle bit_operations_syntax

section \<open>SHA-256\<close>

type_synonym w32 = "32 word"

definition sha_k :: "w32 list" where
  "sha_k = [1116352408, 1899447441, 3049323471, 3921009573, 961987163, 1508970993, 2453635748, 2870763221,
     3624381080, 310598401, 607225278, 1426881987, 1925078388, 2162078206, 2614888103, 3248222580,
     3835390401, 4022224774, 264347078, 604807628, 770255983, 1249150122, 1555081692, 1996064986,
     2554220882, 2821834349, 2952996808, 3210313671, 3336571891, 3584528711, 113926993, 338241895,
     666307205, 773529912, 1294757372, 1396182291, 1695183700, 1986661051, 2177026350, 2456956037,
     2730485921, 2820302411, 3259730800, 3345764771, 3516065817, 3600352804, 4094571909, 275423344,
     430227734, 506948616, 659060556, 883997877, 958139571, 1322822218, 1537002063, 1747873779,
     1955562222, 2024104815, 2227730452, 2361852424, 2428436474, 2756734187, 3204031479, 3329325298]"

definition sha_h0 :: "w32 list" where
  "sha_h0 = [1779033703, 3144134277, 1013904242, 2773480762, 1359893119, 2600822924, 528734635, 1541459225]"

definition rotr :: "nat \<Rightarrow> w32 \<Rightarrow> w32" where
  "rotr n x = drop_bit n x OR push_bit (32 - n) x"

definition word_of_bytes :: "gostring \<Rightarrow> w32" where
  "word_of_bytes bs = of_nat (foldl (\<lambda>n b. n * 256 + byte_of b) 0 bs)"

fun bytes_be :: "nat \<Rightarrow> nat \<Rightarrow> gostring" where
  "bytes_be 0 n = []"
| "bytes_be (Suc w) n = bytes_be w (n div 256) @ [chr (n mod 256)]"

text \<open>One 0x80 byte, zeros up to 56 modulo 64, the length in bits.\<close>

definition sha_pad :: "gostring \<Rightarrow> gostring" where
  "sha_pad s = s @ [CHR 0x80] @ replicate ((119 - length s mod 64) mod 64) (CHR 0x00) @
     bytes_be 8 (8 * length s)"

fun chunks :: "nat \<Rightarrow> nat \<Rightarrow> 'a list \<Rightarrow> 'a list list" where
  "chunks n 0 xs = []"
| "chunks n (Suc k) xs = take n xs # chunks n k (drop n xs)"

text \<open>The message schedule, newest word first.\<close>

fun sha_extend :: "nat \<Rightarrow> w32 list \<Rightarrow> w32 list" where
  "sha_extend 0 ws = ws"
| "sha_extend (Suc n) ws =
     (let x = ws ! 14; y = ws ! 1;
          s0 = rotr 7 x XOR rotr 18 x XOR drop_bit 3 x;
          s1 = rotr 17 y XOR rotr 19 y XOR drop_bit 10 y in
      sha_extend n ((ws ! 15 + s0 + ws ! 6 + s1) # ws))"

definition sha_round :: "w32 \<times> w32 \<Rightarrow> w32 list \<Rightarrow> w32 list" where
  "sha_round kw v =
     (case (kw, v) of
        ((k, w), [a, b, c, d, e, f, g, h]) \<Rightarrow>
          (let s1 = rotr 6 e XOR rotr 11 e XOR rotr 25 e;
               ch = (e AND f) XOR (NOT e AND g);
               t1 = h + s1 + ch + k + w;
               s0 = rotr 2 a XOR rotr 13 a XOR rotr 22 a;
               maj = (a AND b) XOR (a AND c) XOR (b AND c);
               t2 = s0 + maj in
           [t1 + t2, a, b, c, d + t1, e, f, g])
      | _ \<Rightarrow> v)"

definition sha_block :: "gostring \<Rightarrow> w32 list \<Rightarrow> w32 list" where
  "sha_block blk hs =
     (let ws = rev (sha_extend 48 (rev (map word_of_bytes (chunks 4 16 blk)))) in
      map2 (+) hs (fold sha_round (zip sha_k ws) hs))"

definition sha256 :: "gostring \<Rightarrow> gostring" where
  "sha256 s =
     (let p = sha_pad s in
      concat (map (\<lambda>w. bytes_be 4 (unat w))
        (fold sha_block (chunks 64 (length p div 64) p) sha_h0)))"

lemma length_bytes_be [simp]: "length (bytes_be w n) = w"
  by (induction w arbitrary: n) auto

lemma length_sha_round [simp]: "length (sha_round kw v) = length v"
  by (auto simp: sha_round_def Let_def split: prod.splits list.splits)

lemma length_fold_sha_round: "length (fold sha_round kws v) = length v"
  by (induction kws arbitrary: v) auto

lemma length_fold_sha_block:
  "length hs = 8 \<Longrightarrow> length (fold sha_block bs hs) = 8"
  by (induction bs arbitrary: hs) (auto simp: sha_block_def Let_def length_fold_sha_round)

lemma length_sha256 [simp]: "length (sha256 s) = 32"
  using length_fold_sha_block [of sha_h0]
  by (simp add: sha256_def Let_def length_concat comp_def sum_list_triv sha_h0_def)

section \<open>Hexadecimal and base64\<close>

definition hex_encode :: "gostring \<Rightarrow> gostring" where
  "hex_encode s = concat (map (\<lambda>b. [hex_digit (byte_of b div 16), hex_digit (byte_of b mod 16)]) s)"

lemma length_hex_encode [simp]: "length (hex_encode s) = 2 * length s"
  by (induction s) (auto simp: hex_encode_def)

definition b64_char :: "nat \<Rightarrow> char" where
  "b64_char n =
     (if n < 26 then chr (65 + n) else if n < 52 then chr (71 + n)
      else if n < 62 then chr (n - 4) else if n = 62 then CHR ''+'' else CHR ''/'')"

fun base64 :: "gostring \<Rightarrow> gostring" where
  "base64 [] = []"
| "base64 [a] =
     [b64_char (byte_of a div 4), b64_char (byte_of a mod 4 * 16), CHR ''='', CHR ''='']"
| "base64 [a, b] =
     [b64_char (byte_of a div 4), b64_char (byte_of a mod 4 * 16 + byte_of b div 16),
      b64_char (byte_of b mod 16 * 4), CHR ''='']"
| "base64 (a # b # c # s) =
     [b64_char (byte_of a div 4), b64_char (byte_of a mod 4 * 16 + byte_of b div 16),
      b64_char (byte_of b mod 16 * 4 + byte_of c div 64), b64_char (byte_of c mod 64)] @ base64 s"

lemma length_base64: "length (base64 s) = 4 * ((length s + 2) div 3)"
proof (induction s rule: base64.induct)
  case (4 a b c s)
  have "(length s + 2 + 3) div 3 = (length s + 2) div 3 + 1" by (rule div_add_self2) simp
  with 4 show ?case by simp
qed simp_all

section \<open>The \<open>file\<close> URI of a path\<close>

definition upper_hex :: "nat \<Rightarrow> char" where
  "upper_hex n = (if n < 10 then chr (48 + n) else chr (55 + n))"

definition url_path_safe :: "char \<Rightarrow> bool" where
  "url_path_safe c \<longleftrightarrow>
     (let n = byte_of c :: nat in
      48 \<le> n \<and> n \<le> 57 \<or> 65 \<le> n \<and> n \<le> 90 \<or> 97 \<le> n \<and> n \<le> 122) \<or> c \<in> set ''-_.~$&+,/:;=@''"

definition url_escape_path :: "gostring \<Rightarrow> gostring" where
  "url_escape_path s = concat (map (\<lambda>c. if url_path_safe c then [c]
     else [CHR ''%'', upper_hex (byte_of c div 16), upper_hex (byte_of c mod 16)]) s)"

text \<open>\<open>(&url.URL{Scheme: "file", Path: p}).String()\<close>.\<close>

definition file_uri :: "gostring \<Rightarrow> gostring" where
  "file_uri p =
     ''file:'' @ (if p = [] then [] else ''//'') @
       (if p = ''*'' then ''*'' else url_escape_path p)"

fun url_unescape :: "gostring \<Rightarrow> gostring option" where
  "url_unescape [] = Some []"
| "url_unescape (c # s) =
     (if c = CHR ''%'' then
        (case s of
           a # b # t \<Rightarrow>
             (case (hex_value a, hex_value b) of
                (Some x, Some y) \<Rightarrow> map_option (Cons (chr (x * 16 + y))) (url_unescape t)
              | _ \<Rightarrow> None)
         | _ \<Rightarrow> None)
      else map_option (Cons c) (url_unescape s))"

lemma hex_value_upper: "n < 16 \<Longrightarrow> hex_value (upper_hex n) = Some n"
  by (auto simp: hex_value_def upper_hex_def Let_def byte_of_chr)

lemma percent_unsafe: "\<not> url_path_safe (CHR ''%'')"
  by (simp add: url_path_safe_def)

lemma url_escape_Cons: "url_escape_path (c # s) = (if url_path_safe c then [c]
  else [CHR ''%'', upper_hex (byte_of c div 16), upper_hex (byte_of c mod 16)]) @ url_escape_path s"
  by (simp add: url_escape_path_def)

lemma url_unescape_escape: "url_unescape (url_escape_path s) = Some s"
proof (induction s)
  case (Cons c s)
  have lt: "(byte_of c :: nat) div 16 < 16" using byte_of_bound [of c] by (simp add: less_mult_imp_div_less)
  have bb: "chr ((byte_of c :: nat) div 16 * 16 + byte_of c mod 16) = c" by simp
  show ?case
  proof (cases "url_path_safe c")
    case True
    then have "c \<noteq> CHR ''%''" using percent_unsafe by blast
    with True Cons show ?thesis by (simp add: url_escape_Cons)
  next
    case False
    with Cons show ?thesis
      by (simp add: url_escape_Cons hex_value_upper lt bb del: div_mult_mod_eq)
  qed
qed (simp add: url_escape_path_def)

end
