(* ===== verification/Attachments.thy ===== *)
theory Attachments
  imports Go_Codec Relay_Types
begin

text \<open>
  Attachments of the latest user turn (internal/router/router.go): naming, download to disk
  and the content blocks handed to the agent. The HTTP client, the operating system and the
  MIME database are arguments (\<open>att_env\<close>); the state is the set of names taken by the prompt
  and the files written. A panic of \<open>mustOpen\<close> and \<open>mustClose\<close> is a \<open>MustFailed\<close>.
\<close>

section \<open>The environment\<close>

record http_response =
  hr_status :: nat
  hr_length :: int            \<comment> \<open>\<open>ContentLength\<close>, -1 when unknown\<close>
  hr_body :: gostring
  hr_body_err :: error        \<comment> \<open>the error that ends the body, \<open>None\<close> for EOF\<close>

record att_env =
  ae_mkdir_all :: "gostring \<Rightarrow> error"
  ae_open_root :: "gostring \<Rightarrow> error"
  ae_root_mkdir :: "gostring \<Rightarrow> gostring \<Rightarrow> (bool \<times> gostring) option"  \<comment> \<open>is it \<open>ErrExist\<close>?\<close>
  ae_root_open :: "gostring \<Rightarrow> gostring \<Rightarrow> error"
  ae_root_create :: "gostring \<Rightarrow> gostring \<Rightarrow> error"
  ae_new_request :: "gostring \<Rightarrow> error"
  ae_get :: "gostring \<Rightarrow> http_response fallible"
  ae_write :: "gostring \<Rightarrow> error"
  ae_close :: "gostring \<Rightarrow> error"
  ae_read_file :: "gostring \<Rightarrow> error"
  ae_exts :: "gostring \<Rightarrow> gostring list"

record att_state =
  as_used :: "gostring list"
  as_files :: "gostring \<Rightarrow> gostring option"

section \<open>Names\<close>

definition attachment_dir_name :: gostring where
  "attachment_dir_name = ''.poe-attachments''"

text \<open>\<open>"attachment-"\<close> and the first four bytes of the URL's hash.\<close>

definition fallback_name :: "att_env \<Rightarrow> attachment \<Rightarrow> gostring" where
  "fallback_name env a =
     (let stem = ''attachment-'' @ hex_encode (take 4 (sha256 (att_url a))) in
      case ae_exts env (att_content_type a) of
        e # _ \<Rightarrow> stem @ e
      | [] \<Rightarrow> stem @ ''.bin'')"

definition cap_name :: "gostring \<Rightarrow> nat \<Rightarrow> gostring" where
  "cap_name name lim =
     (if length name \<le> lim then name
      else
        (let ext = path_ext name in
         if lim \<le> length ext then take lim name
         else take (lim - length ext) name @ ext))"

definition preferred_name :: "att_env \<Rightarrow> attachment \<Rightarrow> gostring" where
  "preferred_name env a =
     (if att_name a = [] \<or> att_name a = [dot] \<or> att_name a = [dot, dot] then fallback_name env a
      else cap_name (att_name a) 200)"

definition candidate :: "gostring \<Rightarrow> gostring \<Rightarrow> nat \<Rightarrow> gostring" where
  "candidate stem ext i = stem @ ''-'' @ itoa (int i) @ ext"

lemma digits_of_nonempty [simp]: "digits_of n \<noteq> []" "[] \<noteq> digits_of n"
  by (subst digits_of.simps, simp)+

lemma chr_digit_inj: "a < 10 \<Longrightarrow> b < 10 \<Longrightarrow> chr (48 + a) = chr (48 + b) \<Longrightarrow> a = (b :: nat)"
  using byte_of_chr [of "48 + a"] byte_of_chr [of "48 + b"] by simp

lemma digits_of_inj: "digits_of m = digits_of n \<Longrightarrow> m = n"
proof (induction m arbitrary: n rule: digits_of.induct)
  case (1 m)
  note d = digits_of.simps [of m] digits_of.simps [of n]
  show ?case
  proof (cases "m < 10")
    case True
    with 1(2) d have "n < 10" by (auto split: if_splits)
    with True 1(2) d show ?thesis by (auto dest: chr_digit_inj)
  next
    case False
    with 1(2) d have n: "\<not> n < 10" by (auto split: if_splits)
    with False 1(2) d have "digits_of (m div 10) = digits_of (n div 10)"
      "chr (48 + m mod 10) = chr (48 + n mod 10)" by auto
    with 1(1) [OF False] have "m div 10 = n div 10" "m mod 10 = n mod 10"
      by (auto dest: chr_digit_inj)
    then show ?thesis by (metis div_mult_mod_eq)
  qed
qed

lemma candidate_inj: "candidate stem ext i = candidate stem ext j \<longleftrightarrow> i = j"
  by (auto simp: candidate_def itoa_def dest: digits_of_inj)

text \<open>The loop of \<open>uniqueName\<close>: it ends because the candidates are different and finitely many
  names are taken.\<close>

function unique_from :: "gostring \<Rightarrow> gostring \<Rightarrow> nat \<Rightarrow> gostring list \<Rightarrow> gostring" where
  "unique_from stem ext i used =
     (if candidate stem ext i \<in> set used then unique_from stem ext (Suc i) used
      else candidate stem ext i)"
  by pat_completeness auto
termination
proof (relation "measure (\<lambda>(stem, ext, i, used). card (set used - candidate stem ext ` {..<i}))",
    goal_cases)
  case (2 stem ext i used)
  have "candidate stem ext i \<notin> candidate stem ext ` {..<i}"
    by (auto simp: candidate_inj)
  with 2 have "set used - candidate stem ext ` {..<Suc i} \<subset> set used - candidate stem ext ` {..<i}"
    by (auto simp: lessThan_Suc)
  then show ?case by (simp add: psubset_card_mono)
qed simp

declare unique_from.simps [simp del]

definition unique_name :: "gostring \<Rightarrow> gostring list \<Rightarrow> gostring" where
  "unique_name name used =
     (if name \<notin> set used then name
      else
        (let ext = path_ext name in unique_from (trim_suffix name ext) ext 2 used))"

section \<open>Blocks\<close>

definition mime_of :: "gostring \<Rightarrow> gostring option" where
  "mime_of ct = (if ct = [] then None else Some ct)"

definition resource_link_block :: "gostring \<Rightarrow> gostring \<Rightarrow> gostring \<Rightarrow> content_block" where
  "resource_link_block name uri ct = ResourceLinkBlock name uri (mime_of ct)"

definition file_resource_link_block :: "gostring \<Rightarrow> gostring \<Rightarrow> gostring \<Rightarrow> content_block" where
  "file_resource_link_block name path ct = resource_link_block name (file_uri path) ct"

definition resource_link_block_https :: "attachment \<Rightarrow> content_block" where
  "resource_link_block_https a =
     resource_link_block (if att_name a = [] then att_url a else att_name a) (att_url a)
       (att_content_type a)"

definition text_resource_block :: "gostring \<Rightarrow> gostring \<Rightarrow> gostring \<Rightarrow> content_block" where
  "text_resource_block uri text mime = ResourceBlock uri text (mime_of mime)"

definition image_inline_allowed :: "gostring list" where
  "image_inline_allowed = [''image/jpeg'', ''image/png'', ''image/gif'', ''image/webp'']"

definition max_inline_image_bytes :: "int \<Rightarrow> int" where
  "max_inline_image_bytes cfg = (if 0 < cfg then cfg else 3 * 1024 * 1024)"

definition max_attachment_bytes :: "int \<Rightarrow> int" where
  "max_attachment_bytes cfg = (if 0 < cfg then cfg else 100 * 1024 * 1024)"

section \<open>Download\<close>

definition open_message_dir :: "att_env \<Rightarrow> gostring \<Rightarrow> gostring \<Rightarrow> gostring fallible" where
  "open_message_dir env cwd msg =
     (let base = path_join [cwd, attachment_dir_name] in
      case ae_mkdir_all env base of
        Some e \<Rightarrow> Inl e
      | None \<Rightarrow>
      (case ae_open_root env base of
        Some e \<Rightarrow> Inl e
      | None \<Rightarrow>
      (case ae_root_mkdir env base msg of
        Some (False, e) \<Rightarrow> Inl e
      | _ \<Rightarrow>
      (case ae_root_open env base msg of
        Some e \<Rightarrow> Inl e
      | None \<Rightarrow> Inr (path_join [base, msg])))))"

text \<open>\<open>io.Copy(f, io.LimitReader(body, limit))\<close>: the bytes written and the error.\<close>

definition copy_limited :: "error \<Rightarrow> int \<Rightarrow> http_response \<Rightarrow> gostring \<times> error" where
  "copy_limited write_err n resp =
     (let data = take (nat n) (hr_body resp) in
      case write_err of
        Some e \<Rightarrow> if data = [] then (data, if int (length (hr_body resp)) < n then hr_body_err resp else None)
                  else ([], Some e)
      | None \<Rightarrow> (data, if int (length (hr_body resp)) < n then hr_body_err resp else None))"

type_synonym download = "(gostring \<times> gostring \<times> int) fallible"  \<comment> \<open>path, name, size\<close>

text \<open>From the opened file on.\<close>

text \<open>The panics of attachment_io_must.go.\<close>

definition must_open :: "gostring \<Rightarrow> go_panic" where
  "must_open e = MustFailed (''router: fallback attachment OpenFile rejected: '' @ e)"

definition must_close :: "gostring \<Rightarrow> go_panic" where
  "must_close e = MustFailed (''router: attachment Close failed after successful copy: '' @ e)"

definition store_body ::
  "att_env \<Rightarrow> int \<Rightarrow> gostring \<Rightarrow> gostring \<Rightarrow> gostring \<Rightarrow> http_response \<Rightarrow> att_state \<Rightarrow>
   go_panic + download \<times> att_state" where
  "store_body env lim cwd msg name resp st =
     (let path = path_join [cwd, attachment_dir_name, msg, name];
          st1 = st\<lparr>as_used := name # as_used st\<rparr>;
          (data, cerr) = copy_limited (ae_write env path) (int64 (lim + 1)) resp;
          kept = st1\<lparr>as_files := (as_files st1)(path \<mapsto> data)\<rparr>;
          removed = st1\<lparr>as_files := (as_files st1)(path := None)\<rparr> in
      case ae_close env path of
        Some e \<Rightarrow> Inl (must_close e)
      | None \<Rightarrow>
          (case cerr of
             Some e \<Rightarrow> Inr (Inl e, removed)
           | None \<Rightarrow>
               if lim < int (length data)
               then Inr (Inl (''attachment exceeds cap '' @ itoa lim @ '' bytes''), removed)
               else Inr (Inr (path, name, int (length data)), kept)))"

definition download_attachment ::
  "att_env \<Rightarrow> int \<Rightarrow> gostring \<Rightarrow> gostring \<Rightarrow> attachment \<Rightarrow> att_state \<Rightarrow>
   go_panic + download \<times> att_state" where
  "download_attachment env lim cwd msg a st =
     (case open_message_dir env cwd msg of
        Inl e \<Rightarrow> Inr (Inl (''open message dir: '' @ e), st)
      | Inr dir \<Rightarrow>
     (case ae_new_request env (att_url a) of
        Some e \<Rightarrow> Inr (Inl e, st)
      | None \<Rightarrow>
     (case ae_get env (att_url a) of
        Inl e \<Rightarrow> Inr (Inl e, st)
      | Inr resp \<Rightarrow>
        if hr_status resp div 100 \<noteq> 2 then Inr (Inl (''http '' @ itoa (int (hr_status resp))), st)
        else if 0 < hr_length resp \<and> lim < hr_length resp
        then Inr (Inl (''declared content-length '' @ itoa (hr_length resp) @ '' exceeds cap '' @ itoa lim), st)
        else
          (let name = unique_name (preferred_name env a) (as_used st) in
           case ae_root_create env dir name of
             None \<Rightarrow> store_body env lim cwd msg name resp st
           | Some _ \<Rightarrow>
               (let name' = unique_name (fallback_name env a) (as_used st) in
                case ae_root_create env dir name' of
                  None \<Rightarrow> store_body env lim cwd msg name' resp st
                | Some e \<Rightarrow> Inl (must_open e))))))"

section \<open>The blocks of a prompt\<close>

definition attachment_blocks ::
  "att_env \<Rightarrow> int \<Rightarrow> int \<Rightarrow> gostring \<Rightarrow> gostring \<Rightarrow> bool \<Rightarrow> attachment \<Rightarrow> att_state \<Rightarrow>
   go_panic + content_block list \<times> att_state" where
  "attachment_blocks env cfg_inline cfg_max cwd msg embedded a st =
     (if embedded \<and> att_parsed_content a \<noteq> []
      then Inr ([text_resource_block (att_url a) (att_parsed_content a) (att_content_type a)], st)
      else
        (case download_attachment env (max_attachment_bytes cfg_max) cwd msg a st of
           Inl p \<Rightarrow> Inl p
         | Inr (Inl _, st') \<Rightarrow> Inr ([resource_link_block_https a], st')
         | Inr (Inr (path, name, n), st') \<Rightarrow>
             (let link = file_resource_link_block name path (att_content_type a) in
              if att_content_type a \<in> set image_inline_allowed \<and>
                n \<le> max_inline_image_bytes cfg_inline
              then
                (case ae_read_file env path of
                   Some _ \<Rightarrow> Inr ([link], st')
                 | None \<Rightarrow>
                     (case as_files st' path of
                        None \<Rightarrow> Inr ([link], st')
                      | Some data \<Rightarrow>
                          Inr ([link, ImageBlock (base64 data) (att_content_type a)], st')))
              else Inr ([link], st'))))"

text \<open>The loop of \<open>Prompt\<close> over the attachments with a URL.\<close>

fun prompt_attachments ::
  "att_env \<Rightarrow> int \<Rightarrow> int \<Rightarrow> gostring \<Rightarrow> gostring \<Rightarrow> bool \<Rightarrow> attachment list \<Rightarrow> att_state \<Rightarrow>
   go_panic + content_block list \<times> att_state" where
  "prompt_attachments env ci cm cwd msg emb [] st = Inr ([], st)"
| "prompt_attachments env ci cm cwd msg emb (a # as) st =
     (if att_url a = [] then prompt_attachments env ci cm cwd msg emb as st
      else
        (case attachment_blocks env ci cm cwd msg emb a st of
           Inl p \<Rightarrow> Inl p
         | Inr (bs, st') \<Rightarrow>
             (case prompt_attachments env ci cm cwd msg emb as st' of
                Inl p \<Rightarrow> Inl p
              | Inr (bs', st'') \<Rightarrow> Inr (bs @ bs', st''))))"

text \<open>The id that scopes the downloads: the message id, or a hash of the content.\<close>

definition message_scope :: "turn \<Rightarrow> gostring" where
  "message_scope t =
     (if t_message_id t = [] then ''anon-'' @ hex_encode (take 4 (sha256 (t_content t)))
      else t_message_id t)"

section \<open>Names are short and fresh\<close>

lemma unique_from_fresh: "unique_from stem ext i used \<notin> set used"
  by (induction stem ext i used rule: unique_from.induct) (subst unique_from.simps, simp)

lemma unique_from_candidate: "\<exists>j \<ge> i. unique_from stem ext i used = candidate stem ext j"
proof (induction stem ext i used rule: unique_from.induct)
  case (1 stem ext i used)
  show ?case
  proof (cases "candidate stem ext i \<in> set used")
    case True
    from 1 [OF this] obtain j where "Suc i \<le> j"
      "unique_from stem ext (Suc i) used = candidate stem ext j" by blast
    with True show ?thesis by (subst unique_from.simps) (auto intro!: exI [of _ j])
  next
    case False
    then show ?thesis by (subst unique_from.simps) auto
  qed
qed

lemma unique_name_fresh: "unique_name name used \<notin> set used"
  by (simp add: unique_name_def Let_def unique_from_fresh)

text \<open>\<open>uniqueName\<close> always returns, with a name that is not taken: the name itself when it is free,
  and otherwise the name with \<open>-2\<close>, \<open>-3\<close>, ... before its extension.\<close>

theorem unique_name_is_fresh:
  "unique_name name used \<notin> set used \<and>
   (unique_name name used = name \<or>
    (\<exists>i \<ge> 2. unique_name name used = trim_suffix name (path_ext name) @ ''-'' @ itoa (int i) @ path_ext name))"
  using unique_from_candidate [of 2 "trim_suffix name (path_ext name)" "path_ext name" used]
  by (auto simp: unique_name_def Let_def unique_from_fresh candidate_def)

lemma path_ext_split:
  obtains pre where "s = pre @ path_ext s"
proof -
  let ?base = "rev (takeWhile (\<lambda>c. c \<noteq> slash) (rev s))"
  let ?suffix = "takeWhile (\<lambda>c. c \<noteq> dot) (rev ?base)"
  have base: "s = rev (dropWhile (\<lambda>c. c \<noteq> slash) (rev s)) @ ?base"
    by (metis rev_append rev_rev_ident takeWhile_dropWhile_id)
  show ?thesis
  proof (cases "length ?suffix < length ?base")
    case True
    have "rev ?base = ?suffix @ dropWhile (\<lambda>c. c \<noteq> dot) (rev ?base)" by simp
    moreover from True have ne: "dropWhile (\<lambda>c. c \<noteq> dot) (rev ?base) \<noteq> []"
      by (metis append_Nil2 calculation length_rev less_irrefl)
    moreover have "hd (dropWhile (\<lambda>c. c \<noteq> dot) (rev ?base)) = dot"
      using hd_dropWhile [OF ne] by simp
    ultimately obtain rest where "rev ?base = ?suffix @ dot # rest"
      by (metis list.collapse)
    then have "?base = rev rest @ dot # rev ?suffix"
      by (metis append.assoc append_Cons append_Nil rev.simps(2) rev_append rev_rev_ident)
    with base True that [of "rev (dropWhile (\<lambda>c. c \<noteq> slash) (rev s)) @ rev rest"] show ?thesis
      by (simp add: path_ext_def split_last_def Let_def)
  next
    case False
    then show ?thesis using that [of s] by (simp add: path_ext_def split_last_def Let_def)
  qed
qed

text \<open>A file name taken from the user is at most 200 bytes long, and shortening it keeps its
  extension unless the extension alone fills the limit.\<close>

theorem preferred_name_is_short:
  assumes "att_name a \<notin> {[], [dot], [dot, dot]}"
  shows "length (preferred_name env a) \<le> 200 \<and>
    (length (path_ext (att_name a)) < 200 \<longrightarrow>
       has_suffix (preferred_name env a) (path_ext (att_name a)))"
proof -
  obtain pre where pre: "att_name a = pre @ path_ext (att_name a)" by (rule path_ext_split)
  have "has_suffix (pre @ e) e" for e by (simp add: has_suffix_def)
  from this [of "path_ext (att_name a)"] have "has_suffix (att_name a) (path_ext (att_name a))"
    using pre by simp
  moreover have "has_suffix (xs @ e) e" for xs e by (simp add: has_suffix_def)
  ultimately show ?thesis
    using assms by (simp add: preferred_name_def cap_name_def Let_def)
qed

text \<open>An environment in which every operation succeeds, and a picture to download.\<close>

definition demo_env :: att_env where
  "demo_env = \<lparr>ae_mkdir_all = (\<lambda>_. None), ae_open_root = (\<lambda>_. None), ae_root_mkdir = (\<lambda>_ _. None),
     ae_root_open = (\<lambda>_ _. None), ae_root_create = (\<lambda>_ _. None), ae_new_request = (\<lambda>_. None),
     ae_get = (\<lambda>_. Inr \<lparr>hr_status = 200, hr_length = 3, hr_body = ''png'', hr_body_err = None\<rparr>),
     ae_write = (\<lambda>_. None), ae_close = (\<lambda>_. None), ae_read_file = (\<lambda>_. None), ae_exts = (\<lambda>_. [])\<rparr>"

definition demo_attachment :: "gostring \<Rightarrow> attachment" where
  "demo_attachment name = \<lparr>att_url = ''https://x'', att_content_type = ''image/png'', att_name = name,
     att_parsed_content = []\<rparr>"

theorem preferred_name_is_short_witness:
  "length (preferred_name demo_env (demo_attachment (replicate 300 (CHR ''a'') @ ''.png''))) \<le> 200"
  using preferred_name_is_short [of "demo_attachment (replicate 300 (CHR ''a'') @ ''.png'')" demo_env]
  by (simp add: numeral_eq_Suc demo_attachment_def)

section \<open>Every attachment is announced\<close>

text \<open>The block that tells the agent about an attachment, as opposed to an additional image.\<close>

fun is_image :: "content_block \<Rightarrow> bool" where
  "is_image (ImageBlock d m) \<longleftrightarrow> True"
| "is_image _ \<longleftrightarrow> False"

lemma resource_link_not_image [simp]:
  "\<not> is_image (resource_link_block n u c)" "\<not> is_image (file_resource_link_block n p c)"
  "\<not> is_image (resource_link_block_https a)" "\<not> is_image (text_resource_block u t m)"
  by (simp_all add: resource_link_block_def file_resource_link_block_def
      resource_link_block_https_def text_resource_block_def)

text \<open>The file operations whose failure the code treats as impossible.\<close>

definition disk_ok :: "att_env \<Rightarrow> bool" where
  "disk_ok env \<longleftrightarrow> (\<forall>p. ae_close env p = None) \<and>
     (\<forall>dir a used. ae_root_create env dir (unique_name (fallback_name env a) used) = None)"

lemma store_body_Inr:
  assumes "store_body env lim cwd msg name resp st = Inr (res, st')"
  obtains (failed) e where "res = Inl e"
      "st' = st\<lparr>as_used := name # as_used st,
         as_files := (as_files st)(path_join [cwd, attachment_dir_name, msg, name] := None)\<rparr>"
  | (stored) data where "res = Inr (path_join [cwd, attachment_dir_name, msg, name], name, int (length data))"
      "int (length data) \<le> lim" "data = take (nat (int64 (lim + 1))) (hr_body resp) \<or> data = []"
      "st' = st\<lparr>as_used := name # as_used st,
         as_files := (as_files st)(path_join [cwd, attachment_dir_name, msg, name] \<mapsto> data)\<rparr>"
proof -
  let ?path = "path_join [cwd, attachment_dir_name, msg, name]"
  obtain data cerr where c: "copy_limited (ae_write env ?path) (int64 (lim + 1)) resp = (data, cerr)"
    by fastforce
  then have "data = take (nat (int64 (lim + 1))) (hr_body resp) \<or> data = []"
    by (auto simp: copy_limited_def Let_def split: option.splits if_splits)
  with assms c show ?thesis
    using failed stored
    by (auto simp: store_body_def Let_def not_less split: option.splits if_splits)
qed

lemma download_Inr:
  assumes "download_attachment env lim cwd msg a st = Inr (res, st')"
  obtains (refused) e where "res = Inl e" "st' = st"
  | (opened) dir resp name where "open_message_dir env cwd msg = Inr dir" "name \<notin> set (as_used st)"
      "ae_root_create env dir name = None" "store_body env lim cwd msg name resp st = Inr (res, st')"
  using assms
  by (auto simp: download_attachment_def Let_def split: option.splits sum.splits if_splits
      intro: refused opened [OF _ unique_name_fresh])

text \<open>What a block may say of an attachment: its parsed text, its file, or, when the download
  failed, its URL.\<close>

definition announces :: "gostring \<Rightarrow> gostring \<Rightarrow> attachment \<Rightarrow> content_block \<Rightarrow> bool" where
  "announces cwd msg a b \<longleftrightarrow>
     b = text_resource_block (att_url a) (att_parsed_content a) (att_content_type a) \<or>
     b = resource_link_block_https a \<or>
     (\<exists>name. b = file_resource_link_block name (path_join [cwd, attachment_dir_name, msg, name])
        (att_content_type a))"

text \<open>What every step keeps of the prompt's state.\<close>

definition keeps_files :: "int \<Rightarrow> att_state \<Rightarrow> att_state \<Rightarrow> bool" where
  "keeps_files lim st st' \<longleftrightarrow>
     (distinct (as_used st) \<longrightarrow> distinct (as_used st')) \<and>
     (\<forall>path data. as_files st' path = Some data \<longrightarrow>
        as_files st path = Some data \<or> int (length data) \<le> lim)"

lemma keeps_files_refl [simp]: "keeps_files lim st st"
  by (simp add: keeps_files_def)

lemma keeps_files_trans: "keeps_files lim a b \<Longrightarrow> keeps_files lim b c \<Longrightarrow> keeps_files lim a c"
  unfolding keeps_files_def by blast

lemma store_keeps:
  assumes "store_body env lim cwd msg name resp st = Inr (res, st')" "name \<notin> set (as_used st)"
  shows "keeps_files lim st st'"
  using assms(1)
proof (cases rule: store_body_Inr)
  case failed
  with assms(2) show ?thesis by (auto simp: keeps_files_def)
next
  case stored
  with assms(2) show ?thesis by (auto simp: keeps_files_def)
qed

lemma download_keeps:
  assumes "download_attachment env lim cwd msg a st = Inr (res, st')"
  shows "keeps_files lim st st'"
  using assms by (cases rule: download_Inr) (auto intro: store_keeps)

lemma download_path:
  assumes "download_attachment env lim cwd msg a st = Inr (Inr (path, name, n), st')"
  shows "path = path_join [cwd, attachment_dir_name, msg, name]"
  using assms
proof (cases rule: download_Inr)
  case (opened dir resp name')
  from opened(4) show ?thesis by (cases rule: store_body_Inr) auto
qed simp

lemma announces_simps [simp]:
  "announces cwd msg a (text_resource_block (att_url a) (att_parsed_content a) (att_content_type a))"
  "announces cwd msg a (resource_link_block_https a)"
  by (simp_all add: announces_def)

lemma announces_download:
  "download_attachment env lim cwd msg a st = Inr (Inr (path, name, n), st') \<Longrightarrow>
     announces cwd msg a (file_resource_link_block name path (att_content_type a))"
  using download_path by (fastforce simp: announces_def)

lemma attachment_blocks_Inr:
  assumes "attachment_blocks env ci cm cwd msg emb a st = Inr (bs, st')"
  shows "keeps_files (max_attachment_bytes cm) st st'"
    and "\<exists>b imgs. bs = b # imgs \<and> \<not> is_image b \<and> list_all is_image imgs \<and> announces cwd msg a b"
proof -
  have "keeps_files (max_attachment_bytes cm) st st' \<and>
    (\<exists>b imgs. bs = b # imgs \<and> \<not> is_image b \<and> list_all is_image imgs \<and> announces cwd msg a b)"
    using assms unfolding attachment_blocks_def Let_def
    by (auto split: if_splits sum.splits prod.splits option.splits
        dest: download_keeps announces_download)
  then show "keeps_files (max_attachment_bytes cm) st st'"
    and "\<exists>b imgs. bs = b # imgs \<and> \<not> is_image b \<and> list_all is_image imgs \<and> announces cwd msg a b"
    by blast+
qed

lemma store_body_total: "disk_ok env \<Longrightarrow> \<exists>res st'. store_body env lim cwd msg name resp st = Inr (res, st')"
  by (auto simp: store_body_def disk_ok_def Let_def split: prod.splits option.splits)

lemma download_total:
  assumes "disk_ok env"
  shows "\<exists>res st'. download_attachment env lim cwd msg a st = Inr (res, st')"
  using store_body_total [OF assms] assms
  by (auto simp: download_attachment_def disk_ok_def Let_def split: sum.splits option.splits)

lemma attachment_blocks_total:
  assumes "disk_ok env"
  shows "\<exists>bs st'. attachment_blocks env ci cm cwd msg emb a st = Inr (bs, st')"
proof -
  obtain res st' where "download_attachment env (max_attachment_bytes cm) cwd msg a st = Inr (res, st')"
    using download_total [OF assms] by blast
  then show ?thesis
    by (auto simp: attachment_blocks_def Let_def split: sum.splits option.splits)
qed

lemma prompt_attachments_effects:
  assumes "disk_ok env"
  shows "\<exists>bs st'. prompt_attachments env ci cm cwd msg emb as st = Inr (bs, st') \<and>
    list_all2 (announces cwd msg) (filter (\<lambda>a. att_url a \<noteq> []) as) (filter (\<lambda>b. \<not> is_image b) bs) \<and>
    keeps_files (max_attachment_bytes cm) st st'"
proof (induction as arbitrary: st)
  case (Cons a as)
  show ?case
  proof (cases "att_url a = []")
    case True
    with Cons show ?thesis by simp
  next
    case False
    obtain bs1 st1 where b1: "attachment_blocks env ci cm cwd msg emb a st = Inr (bs1, st1)"
      using attachment_blocks_total [OF assms] by blast
    from attachment_blocks_Inr [OF this] obtain b imgs where
      bs1: "bs1 = b # imgs" "\<not> is_image b" "list_all is_image imgs" "announces cwd msg a b"
      and k: "keeps_files (max_attachment_bytes cm) st st1" by blast
    from Cons obtain bs st' where
      "prompt_attachments env ci cm cwd msg emb as st1 = Inr (bs, st')"
      "list_all2 (announces cwd msg) (filter (\<lambda>a. att_url a \<noteq> []) as) (filter (\<lambda>b. \<not> is_image b) bs)"
      "keeps_files (max_attachment_bytes cm) st1 st'" by blast
    moreover have "filter (\<lambda>b. \<not> is_image b) imgs = []"
      using bs1(3) by (auto simp: filter_empty_conv list_all_iff)
    ultimately show ?thesis
      using False b1 bs1 keeps_files_trans [OF k] by auto
  qed
qed simp





section \<open>Where files go\<close>

text \<open>The documented guarantee of \<open>os.Root\<close>: an operation on a name that is not local fails.\<close>

definition root_confines :: "att_env \<Rightarrow> bool" where
  "root_confines env \<longleftrightarrow>
     (\<forall>dir n. ae_root_create env dir n = None \<longrightarrow> is_local n) \<and>
     (\<forall>dir n. ae_root_open env dir n = None \<longrightarrow> is_local n)"

lemma attachment_dir_local: "is_local attachment_dir_name"
  by (rule plain_name_local) (simp add: attachment_dir_name_def plain_name_def)

lemma join4_local:
  assumes "is_abs cwd" "is_local d" "is_local m" "is_local n"
  shows "is_abs (path_join [cwd, d, m, n])"
    "clean_comps (path_join [cwd, d, m, n]) = clean_comps cwd @ clean_comps d @ clean_comps m @ clean_comps n"
proof -
  from assms have ne: "cwd \<noteq> []" "d \<noteq> []" "m \<noteq> []" "n \<noteq> []"
    by (auto simp: is_abs_def has_prefix_def is_local_def)
  have j: "path_join [cwd, d, m, n] = path_clean (((cwd @ slash # d) @ slash # m) @ slash # n)"
    using ne by (simp add: path_join_def)
  have a1: "is_abs (cwd @ slash # d)" and a2: "is_abs ((cwd @ slash # d) @ slash # m)"
    and a3: "is_abs (((cwd @ slash # d) @ slash # m) @ slash # n)"
    using assms(1) ne by (simp_all add: is_abs_append)
  show "is_abs (path_join [cwd, d, m, n])" unfolding j by (rule clean_comps_clean [OF a3])
  show "clean_comps (path_join [cwd, d, m, n]) =
      clean_comps cwd @ clean_comps d @ clean_comps m @ clean_comps n"
    unfolding j clean_comps_clean(1) [OF a3] clean_comps_local [OF a2 assms(4)]
      clean_comps_local [OF a1 assms(3)] clean_comps_local [OF assms(1,2)] by simp
qed

text \<open>C23: A download never leaves the conversation's directory, whatever name and message id the
  request carries: with \<open>os.Root\<close>'s guarantee, the path of a successful download lies below
  \<open><cwd>/.poe-attachments\<close>.\<close>

theorem download_is_confined:
  assumes "root_confines env" "is_abs cwd"
    and "download_attachment env lim cwd msg a st = Inr (Inr (path, name, n), st')"
  shows "below (path_join [cwd, attachment_dir_name]) path"
  using assms(3)
proof (cases rule: download_Inr)
  case (opened dir resp name')
  from opened(4) have p: "path = path_join [cwd, attachment_dir_name, msg, name']"
    by (cases rule: store_body_Inr) auto
  have "is_local name'" using opened(3) assms(1) by (auto simp: root_confines_def)
  moreover have "is_local msg"
    using opened(1) assms(1)
    by (auto simp: open_message_dir_def root_confines_def Let_def
        split: option.splits prod.splits bool.splits)
  ultimately show ?thesis
    using join4_local [OF assms(2) attachment_dir_local] join_local [OF assms(2) attachment_dir_local]
    by (simp add: p below_def)
qed simp

definition rooted_env :: att_env where
  "rooted_env = demo_env\<lparr>ae_root_create := \<lambda>_ n. if is_local n then None else Some ''escapes'',
     ae_root_open := \<lambda>_ n. if is_local n then None else Some ''escapes''\<rparr>"

lemma rooted_env_simps [simp]:
  "ae_mkdir_all rooted_env d = None" "ae_open_root rooted_env d = None"
  "ae_root_mkdir rooted_env d n = None" "ae_new_request rooted_env u = None"
  "ae_get rooted_env u = Inr \<lparr>hr_status = 200, hr_length = 3, hr_body = ''png'', hr_body_err = None\<rparr>"
  "ae_root_open rooted_env d n = (if is_local n then None else Some ''escapes'')"
  "ae_root_create rooted_env d n = (if is_local n then None else Some ''escapes'')"
  "ae_write rooted_env f = None" "ae_close rooted_env f = None"
  by (simp_all add: rooted_env_def demo_env_def)

theorem download_is_confined_witness:
  "\<exists>path name n st'. download_attachment rooted_env 100 ''/c'' ''m'' (demo_attachment ''a.png'')
      \<lparr>as_used = [], as_files = \<lambda>_. None\<rparr> = Inr (Inr (path, name, n), st') \<and>
    below (path_join [''/c'', attachment_dir_name]) path"
proof -
  have rc: "root_confines rooted_env" by (simp add: root_confines_def)
  have "is_local ''m''" "is_local ''a.png''" by (simp_all add: plain_name_local plain_name_def)
  then obtain path name n st' where d: "download_attachment rooted_env 100 ''/c'' ''m''
      (demo_attachment ''a.png'') \<lparr>as_used = [], as_files = \<lambda>_. None\<rparr> =
      Inr (Inr (path, name, n), st')"
    by (simp add: download_attachment_def open_message_dir_def Let_def preferred_name_def cap_name_def
        unique_name_def store_body_def copy_limited_def int64_def demo_attachment_def)
  have "is_abs ''/c''" by (simp add: is_abs_def has_prefix_def)
  from download_is_confined [OF rc this d] d show ?thesis by blast
qed

text \<open>Distinct names do not always mean distinct files: \<open>./n\<close> is a name \<open>uniqueName\<close> takes for
  unused after \<open>n\<close>, \<open>os.Root\<close> accepts it, and both denote the same path, so the second
  download overwrites the file announced for the first.\<close>

theorem dot_name_overwrites:
  assumes "plain_name n" "plain_name msg" "is_abs cwd"
  shows "unique_name (''./'' @ n) [n] = ''./'' @ n \<and> is_local (''./'' @ n) \<and>
    clean_comps (path_join [cwd, attachment_dir_name, msg, ''./'' @ n]) =
      clean_comps (path_join [cwd, attachment_dir_name, msg, n])"
proof -
  have "clean_comps (''./'' @ n) = clean_comps n"
  proof -
    have "split_byte slash (''./'' @ n) = [[dot], n]"
      using assms(1) by (simp add: plain_name_def split_byte_single)
    moreover have "split_byte slash n = [n]" using assms(1) by (simp add: plain_name_def split_byte_single)
    moreover have "\<not> is_abs (''./'' @ n)" "\<not> is_abs n"
      using assms(1) by (cases n; auto simp: is_abs_def has_prefix_def plain_name_def)+
    ultimately show ?thesis by (simp add: clean_comps_def del: append_Cons append_Nil)
  qed
  moreover have "\<not> is_abs (''./'' @ n)" by (simp add: is_abs_def has_prefix_def)
  moreover have "is_local n" "is_local msg" using assms plain_name_local by auto
  ultimately have "is_local (''./'' @ n)" by (simp add: is_local_def)
  with \<open>is_local n\<close> \<open>is_local msg\<close> \<open>clean_comps (''./'' @ n) = clean_comps n\<close>
  show ?thesis
    using join4_local [OF assms(3) attachment_dir_local] by (simp add: unique_name_def)
qed

theorem dot_name_overwrites_witness:
  "clean_comps (path_join [''/c'', attachment_dir_name, ''m'', ''./a.png'']) =
   clean_comps (path_join [''/c'', attachment_dir_name, ''m'', ''a.png''])"
  using dot_name_overwrites [of "''a.png''" "''m''" "''/c''"]
  by (simp add: plain_name_def is_abs_def has_prefix_def)

text \<open>With the cap at the largest \<open>int64\<close>, \<open>max+1\<close> wraps around to a negative limit: whatever
  the server sends, the download succeeds with an empty file.\<close>

theorem largest_cap_stores_nothing:
  assumes "ae_write env (path_join [cwd, attachment_dir_name, msg, name]) = None"
    and "ae_close env (path_join [cwd, attachment_dir_name, msg, name]) = None"
  shows "\<exists>st'. store_body env (2 ^ 63 - 1) cwd msg name resp st =
      Inr (Inr (path_join [cwd, attachment_dir_name, msg, name], name, 0), st') \<and>
    as_files st' (path_join [cwd, attachment_dir_name, msg, name]) = Some []"
proof -
  have "int64 (2 ^ 63 - 1 + 1) = - (2 ^ 63)"
    by (simp add: int64_def signed_take_bit_eq_take_bit_shift take_bit_eq_mod)
  then show ?thesis using assms by (simp add: store_body_def copy_limited_def Let_def)
qed

theorem largest_cap_stores_nothing_witness:
  "\<exists>st'. store_body demo_env (2 ^ 63 - 1) ''/c'' ''m'' ''a''
      \<lparr>hr_status = 200, hr_length = 3, hr_body = ''png'', hr_body_err = None\<rparr>
      \<lparr>as_used = [], as_files = \<lambda>_. None\<rparr> =
    Inr (Inr (path_join [''/c'', attachment_dir_name, ''m'', ''a''], ''a'', 0), st')"
  using largest_cap_stores_nothing [of demo_env "''/c''" "''m''" "''a''"]
  by (auto simp: demo_env_def)

text \<open>An inlined image is of one of the four allowed types and no larger than the configured
  limit, and it is the content of the very file the link before it names.\<close>

theorem inlined_images_are_small:
  assumes "attachment_blocks env ci cm cwd msg emb a st = Inr (bs, st')"
    and "ImageBlock d m \<in> set bs"
  shows "m \<in> set image_inline_allowed \<and> m = att_content_type a \<and>
    (\<exists>path name data. bs = [file_resource_link_block name path m, ImageBlock d m] \<and>
       as_files st' path = Some data \<and> d = base64 data \<and>
       int (length data) \<le> max_inline_image_bytes ci)"
proof -
  have stored: "as_files st' path = Some data \<Longrightarrow> n = int (length data)"
    if "download_attachment env (max_attachment_bytes cm) cwd msg a st = Inr (Inr (path, name, n), st')"
    for path name n data
    using that
  proof (cases rule: download_Inr)
    case (opened dir resp name')
    from opened(4) show "as_files st' path = Some data \<Longrightarrow> n = int (length data)"
      by (cases rule: store_body_Inr) auto
  qed simp
  have not_image: "ImageBlock x y \<noteq> file_resource_link_block name path c"
    "ImageBlock x y \<noteq> resource_link_block_https a" "ImageBlock x y \<noteq> text_resource_block u t c"
    for x y name path c u t
    by (simp_all add: resource_link_block_def file_resource_link_block_def
        resource_link_block_https_def text_resource_block_def)
  from assms obtain path name n data where
    "download_attachment env (max_attachment_bytes cm) cwd msg a st = Inr (Inr (path, name, n), st')"
    "bs = [file_resource_link_block name path (att_content_type a),
       ImageBlock (base64 data) (att_content_type a)]"
    "as_files st' path = Some data" "att_content_type a \<in> set image_inline_allowed"
    "n \<le> max_inline_image_bytes ci"
    by (auto simp: attachment_blocks_def Let_def not_image split: if_splits sum.splits option.splits)
  with stored assms(2) not_image show ?thesis by auto
qed

theorem inlined_images_are_small_witness:
  "\<exists>bs st' d. attachment_blocks demo_env 0 0 ''/c'' ''m'' False (demo_attachment ''a.png'')
      \<lparr>as_used = [], as_files = \<lambda>_. None\<rparr> = Inr (bs, st') \<and> ImageBlock d ''image/png'' \<in> set bs \<and>
    ''image/png'' \<in> set image_inline_allowed"
proof -
  have "\<exists>bs st' d. attachment_blocks demo_env 0 0 ''/c'' ''m'' False (demo_attachment ''a.png'')
      \<lparr>as_used = [], as_files = \<lambda>_. None\<rparr> = Inr (bs, st') \<and> ImageBlock d ''image/png'' \<in> set bs"
    by (simp add: attachment_blocks_def download_attachment_def open_message_dir_def Let_def
        preferred_name_def cap_name_def unique_name_def store_body_def copy_limited_def int64_def
        demo_attachment_def demo_env_def max_inline_image_bytes_def max_attachment_bytes_def
        image_inline_allowed_def) blast
  then show ?thesis using inlined_images_are_small by blast
qed

end
