(* ===== verification/Router.thy ===== *)
theory Router
  imports Turns Attachments
begin

text \<open>
  The router (internal/router/router.go): \<open>New\<close>, \<open>getOrCreate\<close>, \<open>install\<close>, \<open>Prompt\<close> up to the
  hand-over to the session's runner, \<open>ReportReaction\<close>, \<open>Cancel\<close>, \<open>gcOnce\<close>, the option parser
  and the transcript. \<open>getOrCreate\<close> is two critical sections with the agent's calls between
  them; they are separate definitions so that other operations can come in between.
\<close>

section \<open>New\<close>

definition u_thumbs_up :: gostring where
  "u_thumbs_up = [CHR 0xF0, CHR 0x9F, CHR 0x91, CHR 0x8D]"

definition u_thumbs_down :: gostring where
  "u_thumbs_down = [CHR 0xF0, CHR 0x9F, CHR 0x91, CHR 0x8E]"

definition reaction_contract_clause :: gostring where
  "reaction_contract_clause =
     ''Out-of-band turn contract:'' @ [nl, nl] @
     ''Some user messages you receive will begin with the line '' @ [dquote] @
     ''[poe-acp:out-of-band ...]'' @ [dquote] @ ''.'' @ [nl] @
     ''These are synthetic turns injected by the relay (poe-acp), NOT typed by'' @ [nl] @
     ''the user. The most common kind is a reaction event ('' @ [dquote] @
     ''[poe-acp:out-of-band reaction]'' @ [dquote] @ '')'' @ [nl] @
     ''telling you that the user added or removed a reaction ('' @ u_thumbs_up @ '', '' @
     u_thumbs_down @ '', etc.) on'' @ [nl] @
     ''one of your earlier messages.'' @ [nl, nl] @
     ''Rules for out-of-band turns:'' @ [nl] @
     ''  - Do not address the user. Your reply will NOT be shown to them.'' @ [nl] @
     ''  - Keep the reply terse '' @ u_emdash @ '' a one-line acknowledgement is fine. The'' @ [nl] @
     ''    relay discards the response; it exists only so your in-session'' @ [nl] @
     ''    memory / preference notes reflect the new information.'' @ [nl] @
     ''  - Do not invoke tools that have user-visible side effects unless'' @ [nl] @
     ''    the marker explicitly requests it.''"

text \<open>Durations in nanoseconds.\<close>

definition hour_ns :: int where
  "hour_ns = 3600 * 1000000000"

definition default_attachment_ttl :: int where
  "default_attachment_ttl = 30 * 24 * hour_ns"

text \<open>The checks and defaults of \<open>New\<close>; \<open>mkdir\<close> is \<open>os.MkdirAll\<close>. A nil agent is not
  expressible here.\<close>

definition new_config :: "(gostring \<Rightarrow> error) \<Rightarrow> router_config \<Rightarrow> router_config fallible" where
  "new_config mkdir cfg =
     (if cfg_state_dir cfg = [] then Inl ''router: empty StateDir''
      else
        (let ttl = (if cfg_session_ttl cfg = 0 then 2 * hour_ns else cfg_session_ttl cfg);
             att = (if cfg_attachment_ttl cfg = 0 then default_attachment_ttl else cfg_attachment_ttl cfg);
             att' = (if att < ttl then ttl else att) in
         case mkdir (path_join [cfg_state_dir cfg, ''convs'']) of
           Some e \<Rightarrow> Inl (''mkdir state: '' @ e)
         | None \<Rightarrow>
             Inr (cfg\<lparr>cfg_session_ttl := ttl, cfg_attachment_ttl := att',
               cfg_system_prompt :=
                 (if cfg_system_prompt cfg = [] then []
                  else reaction_contract_clause @ [nl, nl] @ cfg_system_prompt cfg)\<rparr>)))"

section \<open>Options and transcripts\<close>

definition thinking_values :: "gostring list" where
  "thinking_values = [''off'', ''minimal'', ''low'', ''medium'', ''high'', ''xhigh'', ''max'']"

text \<open>\<open>params\<close> is Poe's decoded JSON object.\<close>

definition parse_options :: "(gostring \<Rightarrow> json option) \<Rightarrow> options \<Rightarrow> options" where
  "parse_options params defaults =
     (let o1 = (case params ''model'' of
                  Some (JString v) \<Rightarrow> defaults\<lparr>opt_model := v\<rparr> | _ \<Rightarrow> defaults);
          o2 = (case params ''thinking'' of
                  Some (JString v) \<Rightarrow> if v \<in> set thinking_values then o1\<lparr>opt_thinking := v\<rparr> else o1
                | _ \<Rightarrow> o1) in
      case params ''hide_thinking'' of
        Some (JBool v) \<Rightarrow> o2\<lparr>opt_hide_thinking := v\<rparr> | _ \<Rightarrow> o2)"

text \<open>The last user turn, searched from the end.\<close>

definition latest_user_turn_ref :: "turn list \<Rightarrow> turn option" where
  "latest_user_turn_ref q = find (\<lambda>t. t_role t = ''user'') (rev q)"

definition latest_user_text :: "turn list \<Rightarrow> gostring" where
  "latest_user_text q = (case latest_user_turn_ref q of Some t \<Rightarrow> t_content t | None \<Rightarrow> [])"

definition role_label :: "gostring \<Rightarrow> gostring" where
  "role_label role =
     (if role = ''user'' then ''User'' else if role = ''bot'' then ''Assistant''
      else if role = ''system'' then ''System'' else role)"

definition flatten_transcript :: "turn list \<Rightarrow> gostring" where
  "flatten_transcript q =
     ''[Resuming a prior conversation. Transcript so far:]'' @ [nl, nl] @
     concat (map (\<lambda>t. role_label (t_role t) @ '': '' @ t_content t @ [nl, nl]) q) @
     ''[End of prior transcript. Respond to the latest User message above.]''"

section \<open>getOrCreate\<close>

definition conv_cwd :: "router_config \<Rightarrow> gostring \<Rightarrow> gostring" where
  "conv_cwd cfg conv = path_join [cfg_state_dir cfg, ''convs'', conv]"

definition new_session_state :: "int \<Rightarrow> gostring \<Rightarrow> gostring \<Rightarrow> gostring \<Rightarrow> session_state" where
  "new_session_state now conv user cwd =
     \<lparr>ss_conv_id = conv, ss_user_id = user, ss_session_id = [], ss_cwd = cwd,
      ss_queue = new_session_queue, ss_run_stop = False, ss_drain_stop = False,
      ss_drain = drain_init, ss_applied = no_options, ss_last_used = now,
      ss_pending_inline = False\<rparr>"

text \<open>Tier 1: resume the first listed session.\<close>

definition try_resume :: "agent_env \<Rightarrow> gostring \<Rightarrow> router \<Rightarrow> gostring option \<times> router" where
  "try_resume ag cwd r =
     (if cap_list_sessions (ag_caps ag) \<and> cap_resume_session (ag_caps ag) then
        (let r1 = log_calls [CallListSessions cwd] r in
         case ag_list_sessions ag cwd of
           Inr (sid # _) \<Rightarrow>
             (let r2 = log_calls [CallResumeSession cwd sid] r1 in
              case ag_resume_session ag cwd sid of
                None \<Rightarrow> (Some sid, r2)
              | Some _ \<Rightarrow> (None, r2))
         | _ \<Rightarrow> (None, r1))
      else (None, r))"

definition inline_needed :: "router_config \<Rightarrow> agent_env \<Rightarrow> bool" where
  "inline_needed cfg ag \<longleftrightarrow> cfg_system_prompt cfg \<noteq> [] \<and> \<not> cap_system_prompt (ag_caps ag)"

definition system_blocks :: "router_config \<Rightarrow> agent_env \<Rightarrow> content_block list" where
  "system_blocks cfg ag =
     (if cfg_system_prompt cfg \<noteq> [] \<and> cap_system_prompt (ag_caps ag)
      then [TextBlock (cfg_system_prompt cfg)] else [])"

text \<open>After a miss: the session object with its two goroutines, then the agent's session. The
  result is the object and whether it was resumed.\<close>

definition open_session ::
  "router_config \<Rightarrow> agent_env \<Rightarrow> (gostring \<Rightarrow> error) \<Rightarrow> int \<Rightarrow> gostring \<Rightarrow> gostring \<Rightarrow> router \<Rightarrow>
   (nat \<times> bool) fallible \<times> router" where
  "open_session cfg ag mkdir now conv user r =
     (let cwd = conv_cwd cfg conv in
      case mkdir cwd of
        Some e \<Rightarrow> (Inl (''mkdir conv dir: '' @ e), r)
      | None \<Rightarrow>
          (let p = ro_next_obj r;
               r1 = (upd_session p (\<lambda>_. new_session_state now conv user cwd) r)
                      \<lparr>ro_next_obj := Suc p\<rparr>;
               started = (\<lambda>sid. upd_session p (\<lambda>st. st\<lparr>ss_session_id := sid,
                   ss_pending_inline := inline_needed cfg ag\<rparr>)) in
           case try_resume ag cwd r1 of
             (Some sid, r2) \<Rightarrow> (Inr (p, True), started sid r2)
           | (None, r2) \<Rightarrow>
               (let r3 = log_calls [CallNewSession cwd (system_blocks cfg ag)] r2 in
                case ag_new_session ag cwd (system_blocks cfg ag) of
                  Inl e \<Rightarrow> (Inl (''acp new session: '' @ e), r3)
                | Inr sid \<Rightarrow> (Inr (p, False), started sid r3))))"

text \<open>Close both stop channels and stop the queue.\<close>

definition stop_session :: "nat \<Rightarrow> router \<Rightarrow> go_panic + router" where
  "stop_session p r =
     (let st = ro_objs r p in
      if ss_drain_stop st \<or> ss_run_stop st then Inl CloseOfClosedChannel
      else
        (case stop_queue (ss_queue st) (ro_reqs r) of
           Inl e \<Rightarrow> Inl e
         | Inr (sq, h) \<Rightarrow>
             Inr ((upd_session p (\<lambda>st. st\<lparr>ss_drain_stop := True, ss_run_stop := True,
               ss_queue := sq\<rparr>) r)\<lparr>ro_reqs := h\<rparr>)))"

definition install :: "gostring \<Rightarrow> nat \<Rightarrow> router \<Rightarrow> go_panic + (nat \<times> bool) \<times> router" where
  "install conv p r =
     (case map_of (ro_sessions r) conv of
        Some q \<Rightarrow>
          (case stop_session p r of Inl e \<Rightarrow> Inl e | Inr r' \<Rightarrow> Inr ((q, False), r'))
      | None \<Rightarrow> Inr ((p, True), r\<lparr>ro_sessions := (conv, p) # ro_sessions r\<rparr>))"

text \<open>The second critical section: the winner, and whether the caller should seed it.\<close>

definition create_finish ::
  "gostring \<Rightarrow> turn list \<Rightarrow> nat \<Rightarrow> bool \<Rightarrow> router \<Rightarrow> go_panic + (nat \<times> bool) \<times> router" where
  "create_finish conv query p resumed r =
     (case install conv p r of
        Inl e \<Rightarrow> Inl e
      | Inr ((winner, won), r') \<Rightarrow>
          Inr ((winner, \<not> resumed \<and> 1 < length query \<and> won), r'))"

definition get_or_create ::
  "router_config \<Rightarrow> agent_env \<Rightarrow> (gostring \<Rightarrow> error) \<Rightarrow> int \<Rightarrow> gostring \<Rightarrow> gostring \<Rightarrow> turn list \<Rightarrow>
   router \<Rightarrow> go_panic + (nat \<times> bool) fallible \<times> router" where
  "get_or_create cfg ag mkdir now conv user query r =
     (case map_of (ro_sessions r) conv of
        Some p \<Rightarrow> Inr (Inr (p, False), r)
      | None \<Rightarrow>
          (case open_session cfg ag mkdir now conv user r of
             (Inl e, r') \<Rightarrow> Inr (Inl e, r')
           | (Inr (p, resumed), r') \<Rightarrow>
               (case create_finish conv query p resumed r' of
                  Inl e \<Rightarrow> Inl e
                | Inr (res, r'') \<Rightarrow> Inr (Inr res, r''))))"

section \<open>Prompt, ReportReaction, Cancel\<close>

definition conv_key :: "gostring \<Rightarrow> gostring" where
  "conv_key conv = (if conv = [] then ''default'' else conv)"

text \<open>A request onto the session's queue, with a fresh identity.\<close>

definition submit ::
  "nat \<Rightarrow> (nat \<Rightarrow> turn_req) \<Rightarrow> router \<Rightarrow> go_panic + (nat option) \<times> router" where
  "submit p mk r =
     (let req = mk (ro_next_req r); r1 = r\<lparr>ro_next_req := Suc (ro_next_req r)\<rparr> in
      case push req (ss_queue (ro_objs r1 p)) (ro_reqs r1) of
        Inl e \<Rightarrow> Inl e
      | Inr (accepted, sq, h) \<Rightarrow>
          Inr (if accepted then Some (rq_id req) else None,
            (upd_session p (\<lambda>st. st\<lparr>ss_queue := sq\<rparr>) r1)\<lparr>ro_reqs := h\<rparr>))"

definition user_req ::
  "nat \<Rightarrow> sink_ref \<Rightarrow> options \<Rightarrow> content_block list \<Rightarrow> int \<Rightarrow> nat \<Rightarrow> turn_req" where
  "user_req ctx k opts blocks now i =
     \<lparr>rq_id = i, rq_kind = TurnUser, rq_ctx = ctx, rq_sink = k, rq_opts = opts, rq_blocks = blocks,
      rq_hide_thinking = opt_hide_thinking opts, rq_enqueued_at = now\<rparr>"

text \<open>The content blocks of a prompt.\<close>

definition prompt_blocks ::
  "router_config \<Rightarrow> agent_env \<Rightarrow> att_env \<Rightarrow> turn list \<Rightarrow> bool \<Rightarrow> gostring \<Rightarrow> router \<Rightarrow>
   go_panic + content_block list \<times> router" where
  "prompt_blocks cfg ag env query fresh_seed cwd r =
     (let text = TextBlock (if fresh_seed then flatten_transcript query else latest_user_text query) in
      case latest_user_turn_ref query of
        None \<Rightarrow> Inr ([text], r)
      | Some t \<Rightarrow>
          (case prompt_attachments env (cfg_max_inline_image_bytes cfg) (cfg_max_attachment_bytes cfg)
                  cwd (message_scope t) (cap_embedded_context (ag_caps ag)) (t_attachments t)
                  \<lparr>as_used = [], as_files = ro_files r\<rparr> of
             Inl e \<Rightarrow> Inl e
           | Inr (bs, st) \<Rightarrow> Inr (text # bs, r\<lparr>ro_files := as_files st\<rparr>)))"

text \<open>\<open>Prompt\<close> up to its wait: \<open>Inr\<close> the request it waits for, \<open>Inl\<close> the error it returns. The two
  clock readings are those of \<open>getOrCreate\<close> and of the request.\<close>

definition prompt_submit ::
  "router_config \<Rightarrow> agent_env \<Rightarrow> (gostring \<Rightarrow> error) \<Rightarrow> att_env \<Rightarrow> int \<Rightarrow> int \<Rightarrow> nat \<Rightarrow> gostring \<Rightarrow>
   gostring \<Rightarrow> turn list \<Rightarrow> options \<Rightarrow> sink_ref \<Rightarrow> router \<Rightarrow> go_panic + nat fallible \<times> router" where
  "prompt_submit cfg ag mkdir env now now' ctx conv user query opts k r =
     (if latest_user_text query = []
      then Inr (Inl ''empty user message'',
        emit k [EvError ''empty user message'' ''user_caused_error'', EvDone] r)
      else
        (case get_or_create cfg ag mkdir now (conv_key conv) user query r of
           Inl e \<Rightarrow> Inl e
         | Inr (Inl e, r1) \<Rightarrow>
             Inr (Inl e, emit k [EvError (''relay: '' @ e) ''user_caused_error'', EvDone] r1)
         | Inr (Inr (p, fresh_seed), r1) \<Rightarrow>
             (case prompt_blocks cfg ag env query fresh_seed (ss_cwd (ro_objs r1 p)) r1 of
                Inl e \<Rightarrow> Inl e
              | Inr (blocks, r2) \<Rightarrow>
                  (case submit p (user_req ctx k opts blocks now') r2 of
                     Inl e \<Rightarrow> Inl e
                   | Inr (Some i, r3) \<Rightarrow> Inr (Inr i, r3)
                   | Inr (None, r3) \<Rightarrow>
                       Inr (Inl ''session queue stopped'',
                         emit k [EvError ''relay: session unavailable'' ''user_caused_error'', EvDone] r3)))))"

text \<open>What \<open>Prompt\<close> returns when the request is done; \<open>ctx_err\<close> is the caller's context error if
  the context ended first.\<close>

definition prompt_result :: "nat \<Rightarrow> error \<Rightarrow> router \<Rightarrow> error option" where
  "prompt_result i ctx_err r =
     (if rs_done (ro_reqs r i)
      then Some (case rs_err (ro_reqs r i) of Some e \<Rightarrow> Some e | None \<Rightarrow> ctx_err)
      else None)"

definition reaction_text :: "unicode \<Rightarrow> gostring \<Rightarrow> gostring \<Rightarrow> gostring \<Rightarrow> gostring" where
  "reaction_text U kind action msg =
     ''[poe-acp:out-of-band reaction]'' @ [nl] @
     ''The user reacted '' @ go_quote U kind @ '' ('' @ action @ '') to your message '' @ msg @ ''.'' @ [nl] @
     ''Acknowledge silently '' @ u_emdash @ '' your reply will NOT be shown to the user.'' @ [nl] @
     ''Update any in-memory/preference notes if relevant.''"

definition reaction_req ::
  "unicode \<Rightarrow> nat \<Rightarrow> gostring \<Rightarrow> gostring \<Rightarrow> gostring \<Rightarrow> gostring \<Rightarrow> int \<Rightarrow> nat \<Rightarrow> turn_req" where
  "reaction_req U ctx conv msg kind action now i =
     \<lparr>rq_id = i, rq_kind = TurnReaction, rq_ctx = ctx, rq_sink = DiscardSink conv, rq_opts = no_options,
      rq_blocks = [TextBlock (reaction_text U kind (if action = [] then ''added'' else action) msg)],
      rq_hide_thinking = False, rq_enqueued_at = now\<rparr>"

definition report_reaction ::
  "unicode \<Rightarrow> router_config \<Rightarrow> agent_env \<Rightarrow> (gostring \<Rightarrow> error) \<Rightarrow> int \<Rightarrow> int \<Rightarrow> nat \<Rightarrow> gostring \<Rightarrow>
   gostring \<Rightarrow> gostring \<Rightarrow> gostring \<Rightarrow> gostring \<Rightarrow> router \<Rightarrow> go_panic + error \<times> router" where
  "report_reaction U cfg ag mkdir now now' ctx conv user msg kind action r =
     (case get_or_create cfg ag mkdir now (conv_key conv) user [] r of
        Inl e \<Rightarrow> Inl e
      | Inr (Inl e, r1) \<Rightarrow> Inr (Some (''reaction: getOrCreate: '' @ e), r1)
      | Inr (Inr (p, _), r1) \<Rightarrow>
          (case submit p (reaction_req U ctx (conv_key conv) msg kind action now') r1 of
             Inl e \<Rightarrow> Inl e
           | Inr (_, r2) \<Rightarrow> Inr (None, r2)))"

definition cancel :: "agent_env \<Rightarrow> gostring \<Rightarrow> router \<Rightarrow> error \<times> router" where
  "cancel ag conv r =
     (case map_of (ro_sessions r) conv of
        None \<Rightarrow> (None, r)
      | Some p \<Rightarrow>
          (let sid = ss_session_id (ro_objs r p) in
           (ag_cancel ag sid, log_calls [CallCancel sid] r)))"

section \<open>Garbage collection and inspection\<close>

text \<open>One map entry; the fold below visits them in some order.\<close>

definition gc_entry :: "int \<Rightarrow> gostring \<times> nat \<Rightarrow> go_panic + router \<Rightarrow> go_panic + router" where
  "gc_entry cutoff e acc =
     (case acc of
        Inl x \<Rightarrow> Inl x
      | Inr r \<Rightarrow>
          (let st = ro_objs r (snd e) in
           if idle (ss_queue st) \<and> ss_last_used st < cutoff then
             (case stop_session (snd e) r of
                Inl x \<Rightarrow> Inl x
              | Inr r' \<Rightarrow>
                  Inr (r'\<lparr>ro_sessions := filter (\<lambda>e'. fst e' \<noteq> fst e) (ro_sessions r')\<rparr>))
           else Inr r))"

definition gc_once :: "router_config \<Rightarrow> int \<Rightarrow> router \<Rightarrow> go_panic + router" where
  "gc_once cfg now r = fold (gc_entry (now - cfg_session_ttl cfg)) (ro_sessions r) (Inr r)"

definition router_len :: "router \<Rightarrow> nat" where
  "router_len r = length (ro_sessions r)"

record debug_info =
  di_conv_id :: gostring
  di_user_id :: gostring
  di_session_id :: gostring
  di_cwd :: gostring
  di_last_used :: int

definition debug_of :: "session_state \<Rightarrow> debug_info" where
  "debug_of st = \<lparr>di_conv_id = ss_conv_id st, di_user_id = ss_user_id st,
     di_session_id = ss_session_id st, di_cwd = ss_cwd st, di_last_used = ss_last_used st\<rparr>"

definition debug :: "router \<Rightarrow> debug_info list" where
  "debug r = sort_by (by_key di_conv_id) (map (\<lambda>e. debug_of (ro_objs r (snd e))) (ro_sessions r))"

end
