(* ===== verification/Router_Invariant.thy ===== *)
theory Router_Invariant
  imports Router
begin

text \<open>
  The router's invariant and what follows from it. \<open>router_ok\<close>: one live session per
  conversation, its goroutines running and its queue open; every pending request belongs to
  one queue only and its \<open>done\<close> channel is open. Every operation keeps it, so none of the
  three places that close a \<open>done\<close> channel (shedding, stopping a queue, finishing a turn) ever
  closes one twice.
\<close>

section \<open>Request identities\<close>

definition pending :: "router \<Rightarrow> nat \<Rightarrow> nat list" where
  "pending r p = map rq_id (sq_q (ss_queue (ro_objs r p)))"

abbreviation req_done :: "router \<Rightarrow> nat \<Rightarrow> bool" where
  "req_done r i \<equiv> rs_done (ro_reqs r i)"

definition ids_ok :: "nat \<Rightarrow> nat \<Rightarrow> (nat \<Rightarrow> nat list) \<Rightarrow> (nat \<Rightarrow> bool) \<Rightarrow> bool" where
  "ids_ok n m pend dn \<longleftrightarrow>
     (\<forall>p < n. distinct (pend p) \<and> (\<forall>i \<in> set (pend p). i < m \<and> \<not> dn i)) \<and>
     (\<forall>p < n. \<forall>q < n. p \<noteq> q \<longrightarrow> set (pend p) \<inter> set (pend q) = {}) \<and>
     (\<forall>i \<ge> m. \<not> dn i)"

lemma ids_okI:
  assumes "\<And>p. p < n \<Longrightarrow> distinct (pend p)"
    and "\<And>p i. p < n \<Longrightarrow> i \<in> set (pend p) \<Longrightarrow> i < m \<and> \<not> dn i"
    and "\<And>p q i. p < n \<Longrightarrow> q < n \<Longrightarrow> i \<in> set (pend p) \<Longrightarrow> i \<in> set (pend q) \<Longrightarrow> p = q"
    and "\<And>i. m \<le> i \<Longrightarrow> \<not> dn i"
  shows "ids_ok n m pend dn"
  using assms unfolding ids_ok_def disjoint_iff by metis

lemma ids_okD:
  assumes "ids_ok n m pend dn"
  shows "p < n \<Longrightarrow> distinct (pend p)"
    and "p < n \<Longrightarrow> i \<in> set (pend p) \<Longrightarrow> i < m"
    and "p < n \<Longrightarrow> i \<in> set (pend p) \<Longrightarrow> \<not> dn i"
    and "p < n \<Longrightarrow> q < n \<Longrightarrow> i \<in> set (pend p) \<Longrightarrow> i \<in> set (pend q) \<Longrightarrow> p = q"
    and "m \<le> i \<Longrightarrow> \<not> dn i"
  using assms unfolding ids_ok_def disjoint_iff by metis+

lemma ids_ok_new: "ids_ok n m pend dn \<Longrightarrow> ids_ok (Suc n) m (pend(n := [])) dn"
  by (rule ids_okI) (auto simp: less_Suc_eq dest: ids_okD split: if_splits)

lemma ids_ok_add:
  assumes "ids_ok n m pend dn" "p < n"
  shows "ids_ok n (Suc m) (pend(p := pend p @ [m])) dn"
proof (rule ids_okI)
  have fresh: "m \<notin> set (pend q)" if "q < n" for q using ids_okD(2) [OF assms(1) that] by blast
  show "distinct ((pend(p := pend p @ [m])) q)" if "q < n" for q
    using that ids_okD(1) [OF assms(1)] fresh by simp
  show "i < Suc m \<and> \<not> dn i" if "q < n" "i \<in> set ((pend(p := pend p @ [m])) q)" for q i
    using that ids_okD(2,3,5) [OF assms(1)] by (auto split: if_splits simp: less_Suc_eq)
  show "q = q'" if "q < n" "q' < n" "i \<in> set ((pend(p := pend p @ [m])) q)"
    "i \<in> set ((pend(p := pend p @ [m])) q')" for q q' i
    using that fresh ids_okD(4) [OF assms(1)] by (auto split: if_splits)
  show "\<not> dn i" if "Suc m \<le> i" for i using that ids_okD(5) [OF assms(1)] by simp
qed

lemma ids_ok_skip: "ids_ok n m pend dn \<Longrightarrow> ids_ok n (Suc m) pend dn"
  unfolding ids_ok_def by (meson Suc_leD less_SucI)

lemma ids_ok_shrink:
  assumes "ids_ok n m pend dn" "p < n" "distinct new" "set new \<subseteq> set (pend p)"
    and "\<And>i. dn' i \<Longrightarrow> dn i \<or> i \<in> set (pend p) - set new"
  shows "ids_ok n m (pend(p := new)) dn'"
proof (rule ids_okI)
  note d = ids_okD [OF assms(1)]
  show "distinct ((pend(p := new)) q)" if "q < n" for q using that d(1) assms(3) by simp
  show "i < m \<and> \<not> dn' i" if "q < n" "i \<in> set ((pend(p := new)) q)" for q i
  proof (cases "q = p")
    case True
    with that have "i \<in> set new" by simp
    with assms(2,4) d(2,3) assms(5) [of i] show ?thesis by blast
  next
    case False
    with that have "i \<in> set (pend q)" by simp
    with that(1) d(2,3) d(4) [OF _ assms(2)] assms(5) [of i] False show ?thesis by blast
  qed
  show "q = q'" if "q < n" "q' < n" "i \<in> set ((pend(p := new)) q)" "i \<in> set ((pend(p := new)) q')" for q q' i
  proof -
    have "i \<in> set (pend q)" "i \<in> set (pend q')" using that(3,4) assms(4) by (auto split: if_splits)
    with d(4) that(1,2) show ?thesis by blast
  qed
  show "\<not> dn' i" if "m \<le> i" for i
    using d(5) [OF that] d(2) [OF assms(2)] assms(5) [of i] that by force
qed

lemma ids_ok_drop:
  assumes "ids_ok n m pend dn" "p < n" "pend p = ys @ d # zs"
  shows "ids_ok n m (pend(p := ys @ zs)) (dn(d := True))"
  by (rule ids_ok_shrink [OF assms(1,2)])
    (use ids_okD(1) [OF assms(1,2)] assms(3) in \<open>auto split: if_splits\<close>)

lemma ids_ok_stop:
  assumes "ids_ok n m pend dn" "p < n"
  shows "ids_ok n m (pend(p := [])) (\<lambda>i. i \<in> set (pend p) \<or> dn i)"
  by (rule ids_ok_shrink [OF assms]) auto

section \<open>The invariant\<close>

definition session_ok :: "router \<Rightarrow> gostring \<Rightarrow> nat \<Rightarrow> bool" where
  "session_ok r c p \<longleftrightarrow> p < ro_next_obj r \<and>
     (let st = ro_objs r p in
      ss_conv_id st = c \<and> \<not> ss_run_stop st \<and> \<not> ss_drain_stop st \<and> \<not> sq_stopped (ss_queue st))"

definition router_ok :: "router \<Rightarrow> bool" where
  "router_ok r \<longleftrightarrow>
     distinct (map fst (ro_sessions r)) \<and> distinct (map snd (ro_sessions r)) \<and>
     (\<forall>(c, p) \<in> set (ro_sessions r). session_ok r c p) \<and>
     ids_ok (ro_next_obj r) (ro_next_req r) (pending r) (req_done r)"

text \<open>Steps that leave alone what the invariant is about.\<close>

definition same_core :: "router \<Rightarrow> router \<Rightarrow> bool" where
  "same_core r r' \<longleftrightarrow>
     ro_sessions r' = ro_sessions r \<and> ro_next_obj r' = ro_next_obj r \<and>
     ro_next_req r' = ro_next_req r \<and> ro_reqs r' = ro_reqs r \<and>
     (\<forall>p. ss_conv_id (ro_objs r' p) = ss_conv_id (ro_objs r p) \<and>
       ss_run_stop (ro_objs r' p) = ss_run_stop (ro_objs r p) \<and>
       ss_drain_stop (ro_objs r' p) = ss_drain_stop (ro_objs r p) \<and>
       ss_queue (ro_objs r' p) = ss_queue (ro_objs r p))"

lemma same_core_ok: "same_core r r' \<Longrightarrow> router_ok r \<Longrightarrow> router_ok r'"
  by (auto simp: same_core_def router_ok_def session_ok_def Let_def pending_def [abs_def])

lemma same_core_trans: "same_core a b \<Longrightarrow> same_core b c \<Longrightarrow> same_core a c"
  by (simp add: same_core_def)

lemma same_core_simps [simp]:
  "same_core r r" "same_core r (emit k es r)" "same_core r (log_calls cs r)" "same_core r (touch now c r)"
  "same_core r (r\<lparr>ro_files := fs\<rparr>)"
  by (auto simp: same_core_def relay_defs touch_objs)

lemma same_core_sessions: "same_core r r' \<Longrightarrow> ro_sessions r' = ro_sessions r"
  by (simp add: same_core_def)

lemma registered: "router_ok r \<Longrightarrow> map_of (ro_sessions r) c = Some p \<Longrightarrow> session_ok r c p"
  by (auto simp: router_ok_def dest: map_of_SomeD)

section \<open>Submitting\<close>

lemma submit_cases:
  assumes "router_ok r" "p < ro_next_obj r" "\<And>i. rq_id (mk i) = i"
  obtains res r' where "submit p mk r = Inr (res, r')" "router_ok r'" "ro_sessions r' = ro_sessions r"
    "res = None \<longleftrightarrow> push_rejects (mk (ro_next_req r)) (ss_queue (ro_objs r p))"
    "res \<noteq> None \<longrightarrow> res = Some (ro_next_req r) \<and>
       last (sq_q (ss_queue (ro_objs r' p))) = mk (ro_next_req r) \<and> sq_q (ss_queue (ro_objs r' p)) \<noteq> []"
    "ro_events r' = ro_events r" "ro_calls r' = ro_calls r" "ro_next_obj r' = ro_next_obj r"
proof -
  let ?req = "mk (ro_next_req r)" and ?sq = "ss_queue (ro_objs r p)"
  let ?upd = "\<lambda>sq h. (upd_session p (\<lambda>st. st\<lparr>ss_queue := sq\<rparr>) (r\<lparr>ro_next_req := Suc (ro_next_req r)\<rparr>))
    \<lparr>ro_reqs := h\<rparr>"
  have ids: "ids_ok (ro_next_obj r) (ro_next_req r) (pending r) (req_done r)"
    and sess: "\<forall>(c, p) \<in> set (ro_sessions r). session_ok r c p"
    and dist: "distinct (map fst (ro_sessions r))" "distinct (map snd (ro_sessions r))"
    using assms(1) by (simp_all add: router_ok_def)
  have "\<forall>x \<in> set (sq_q ?sq). \<not> rs_done (ro_reqs r (rq_id x))"
    using ids assms(2) by (auto simp: ids_ok_def pending_def)
  then obtain acc sq h where psh: "push ?req ?sq (ro_reqs r) = Inr (acc, sq, h)"
    using push_no_panic by blast
  have sub: "submit p mk r = Inr (if acc then Some (ro_next_req r) else None, ?upd sq h)"
    using psh assms(3) by (simp add: submit_def Let_def upd_session_def)
  have pend: "pending (?upd sq h) = (pending r)(p := map rq_id (sq_q sq))"
    by (auto simp: pending_def upd_session_def fun_eq_iff)
  have ok: "router_ok (?upd sq h)"
    if "sq_stopped sq = sq_stopped ?sq"
      "ids_ok (ro_next_obj r) (Suc (ro_next_req r)) ((pending r)(p := map rq_id (sq_q sq))) (\<lambda>i. rs_done (h i))"
  proof -
    from that(1) sess have "\<forall>(c, q) \<in> set (ro_sessions r). session_ok (?upd sq h) c q"
      by (auto simp: session_ok_def upd_session_def Let_def)
    with that(2) dist show ?thesis
      by (simp add: router_ok_def pend) (simp add: upd_session_def)
  qed
  from psh show thesis
  proof (cases rule: push_cases)
    case rejected
    have "router_ok (?upd sq h)"
      by (rule ok) (use rejected ids_ok_skip [OF ids] in \<open>auto simp: pending_def [symmetric]\<close>)
    with rejected show ?thesis by (intro that [OF sub]) (simp_all add: upd_session_def)
  next
    case added
    have "map rq_id (sq_q sq) = pending r p @ [ro_next_req r]"
      using added assms(3) by (simp add: pending_def)
    with ids_ok_add [OF ids assms(2)] added have "router_ok (?upd sq h)" by (intro ok) auto
    with added show ?thesis by (intro that [OF sub]) (simp_all add: upd_session_def)
  next
    case (shed ys d zs)
    have q: "sq_q ?sq = ys @ d # zs" and nr: "\<not> push_rejects ?req ?sq"
      using shed(2) by (auto simp: push_sheds_def push_rejects_def)
    have "pending r p = map rq_id ys @ rq_id d # map rq_id zs" by (simp add: pending_def q)
    from ids_ok_add [OF ids_ok_drop [OF ids assms(2) this] assms(2)]
    have "ids_ok (ro_next_obj r) (Suc (ro_next_req r)) ((pending r)(p := map rq_id (sq_q sq))) (\<lambda>i. rs_done (h i))"
      using shed assms(3) by (simp add: fun_upd_def if_distrib cong: if_cong)
    then have "router_ok (?upd sq h)" by (rule ok [rotated]) (simp add: shed)
    with shed nr show ?thesis by (intro that [OF sub]) (simp_all add: upd_session_def)
  qed
qed

section \<open>Opening and installing a session\<close>

lemma try_resume_core: "same_core r (snd (try_resume ag cwd r)) \<and> ro_events (snd (try_resume ag cwd r)) = ro_events r"
  by (auto simp: try_resume_def Let_def log_calls_def same_core_def split: sum.splits list.splits option.splits)

lemma router_ok_new:
  assumes "router_ok r"
  shows "router_ok ((upd_session (ro_next_obj r) (\<lambda>_. new_session_state now conv user cwd) r)
    \<lparr>ro_next_obj := Suc (ro_next_obj r)\<rparr>)" (is "router_ok ?r")
proof -
  have "pending ?r = (pending r)(ro_next_obj r := [])"
    by (auto simp: pending_def upd_session_def new_session_state_def new_session_queue_def fun_eq_iff)
  with ids_ok_new assms show ?thesis
    by (auto simp: router_ok_def session_ok_def upd_session_def Let_def)
qed

text \<open>A session object that is open and not registered yet.\<close>

definition unregistered :: "router \<Rightarrow> gostring \<Rightarrow> nat \<Rightarrow> bool" where
  "unregistered r c p \<longleftrightarrow> session_ok r c p \<and> p \<notin> snd ` set (ro_sessions r) \<and> pending r p = []"

lemma unregistered_core: "same_core r r' \<Longrightarrow> unregistered r c p \<Longrightarrow> unregistered r' c p"
  by (simp add: same_core_def unregistered_def session_ok_def pending_def Let_def)

lemma open_session_ok:
  assumes "router_ok r" "open_session cfg ag mkdir now conv user r = (res, r')"
  shows "router_ok r'" "ro_sessions r' = ro_sessions r" "ro_events r' = ro_events r"
    and "res = Inr (p, resumed) \<Longrightarrow> p = ro_next_obj r \<and> unregistered r' conv p"
proof -
  let ?n = "ro_next_obj r" and ?cwd = "conv_cwd cfg conv"
  let ?r1 = "(upd_session ?n (\<lambda>_. new_session_state now conv user ?cwd) r)\<lparr>ro_next_obj := Suc ?n\<rparr>"
  let ?set = "\<lambda>sid. upd_session ?n (\<lambda>st. st\<lparr>ss_session_id := sid, ss_pending_inline := inline_needed cfg ag\<rparr>)"
  have set_core: "same_core r0 (?set sid r0)" for sid r0
    by (simp add: same_core_def upd_session_def)
  have n: "?n \<notin> snd ` set (ro_sessions r)"
    using assms(1) by (auto simp: router_ok_def session_ok_def)
  then have un: "unregistered ?r1 conv ?n"
    by (simp add: unregistered_def session_ok_def upd_session_def new_session_state_def
        new_session_queue_def pending_def)
  have ev: "ro_events (?set sid r0) = ro_events r0" for sid r0 by (simp add: upd_session_def)
  note tr = try_resume_core [of ?r1 ag ?cwd]
  consider (nodir) e where "res = Inl e" "r' = r"
    | (failed) e where "res = Inl e" "same_core ?r1 r'" "ro_events r' = ro_events ?r1"
    | (opened) resumed' where "res = Inr (?n, resumed')" "same_core ?r1 r'" "ro_events r' = ro_events ?r1"
  proof (cases "mkdir ?cwd")
    case (Some e)
    with assms(2) nodir show ?thesis by (auto simp: open_session_def Let_def)
  next
    case None
    obtain sido r2 where t: "try_resume ag ?cwd ?r1 = (sido, r2)" by fastforce
    with tr have r2: "same_core ?r1 r2" "ro_events r2 = ro_events ?r1" by simp_all
    show ?thesis
    proof (cases sido)
      case (Some sid)
      with assms(2) None t have "res = Inr (?n, True)" "r' = ?set sid r2"
        by (simp_all add: open_session_def Let_def)
      with same_core_trans [OF r2(1) set_core] ev r2(2) show ?thesis
        by (intro opened [of True]) simp_all
    next
      case no: None
      let ?r3 = "log_calls [CallNewSession ?cwd (system_blocks cfg ag)] r2"
      have r3: "same_core ?r1 ?r3" "ro_events ?r3 = ro_events ?r1"
        using r2 same_core_trans by (auto simp: log_calls_def same_core_def)
      show ?thesis
      proof (cases "ag_new_session ag ?cwd (system_blocks cfg ag)")
        case (Inl e)
        with assms(2) None t no r3 failed show ?thesis by (auto simp: open_session_def Let_def)
      next
        case (Inr sid)
        with assms(2) None t no have "res = Inr (?n, False)" "r' = ?set sid ?r3"
          by (simp_all add: open_session_def Let_def)
        with same_core_trans [OF r3(1) set_core] ev r3(2) show ?thesis
          by (intro opened [of False]) simp_all
      qed
    qed
  qed
  then have "router_ok r' \<and> ro_sessions r' = ro_sessions r \<and> ro_events r' = ro_events r \<and>
    (res = Inr (p, resumed) \<longrightarrow> p = ?n \<and> unregistered r' conv p)"
  proof cases
    case nodir
    with assms(1) show ?thesis by simp
  next
    case failed
    with same_core_ok [OF failed(2) router_ok_new [OF assms(1)]] show ?thesis
      by (simp add: same_core_sessions upd_session_def)
  next
    case opened
    with same_core_ok [OF opened(2) router_ok_new [OF assms(1)]] unregistered_core [OF opened(2) un]
    show ?thesis by (auto simp: same_core_sessions upd_session_def)
  qed
  then show "router_ok r'" "ro_sessions r' = ro_sessions r" "ro_events r' = ro_events r"
    "res = Inr (p, resumed) \<Longrightarrow> p = ro_next_obj r \<and> unregistered r' conv p" by blast+
qed

text \<open>Stopping a session sheds what it has pending; dropping it from the map keeps the invariant.\<close>

lemma stop_session_ok:
  assumes "router_ok r" "session_ok r c p"
  obtains r' where "stop_session p r = Inr r'" "ro_sessions r' = ro_sessions r"
    "ro_events r' = ro_events r" "ro_calls r' = ro_calls r"
    "ro_next_obj r' = ro_next_obj r"
    "\<forall>q. q \<noteq> p \<longrightarrow> ro_objs r' q = ro_objs r q"
    "ro_objs r' p = (ro_objs r p)\<lparr>ss_drain_stop := True, ss_run_stop := True,
       ss_queue := (ss_queue (ro_objs r p))\<lparr>sq_stopped := True, sq_q := []\<rparr>\<rparr>"
    "pending r p = [] \<longrightarrow> ro_reqs r' = ro_reqs r"
    "\<forall>i. i \<notin> set (pending r p) \<longrightarrow> ro_reqs r' i = ro_reqs r i"
    "\<And>ss. set ss \<subseteq> set (ro_sessions r) \<Longrightarrow> distinct (map fst ss) \<Longrightarrow> distinct (map snd ss) \<Longrightarrow>
       p \<notin> snd ` set ss \<Longrightarrow> router_ok (r'\<lparr>ro_sessions := ss\<rparr>)"
proof -
  let ?sq = "ss_queue (ro_objs r p)"
  have p: "p < ro_next_obj r" "\<not> ss_drain_stop (ro_objs r p)" "\<not> ss_run_stop (ro_objs r p)"
    using assms(2) by (auto simp: session_ok_def Let_def)
  have ids: "ids_ok (ro_next_obj r) (ro_next_req r) (pending r) (req_done r)"
    using assms(1) by (simp add: router_ok_def)
  have "distinct (map rq_id (sq_q ?sq))" "\<forall>x \<in> set (sq_q ?sq). \<not> rs_done (ro_reqs r (rq_id x))"
    using ids_okD(1,3) [OF ids p(1)] by (auto simp: pending_def)
  note sh = shed_all_Inr [OF this]
  define h where "h = (\<lambda>i. if i \<in> rq_id ` set (sq_q ?sq)
    then (ro_reqs r i)\<lparr>rs_shed := True, rs_done := True\<rparr> else ro_reqs r i)"
  let ?r' = "(upd_session p (\<lambda>st. st\<lparr>ss_drain_stop := True, ss_run_stop := True,
    ss_queue := ?sq\<lparr>sq_stopped := True, sq_q := []\<rparr>\<rparr>) r)\<lparr>ro_reqs := h\<rparr>"
  have st: "stop_session p r = Inr ?r'"
    using p(2,3) sh unfolding h_def by (simp add: stop_session_def stop_queue_def Let_def)
  have pend: "pending (?r'\<lparr>ro_sessions := ss\<rparr>) = (pending r)(p := [])" for ss
    by (auto simp: pending_def upd_session_def fun_eq_iff)
  have dn: "rs_done (h i) \<longleftrightarrow> i \<in> set (pending r p) \<or> req_done r i" for i
    by (simp add: pending_def h_def)
  have ok: "router_ok (?r'\<lparr>ro_sessions := ss\<rparr>)"
    if "set ss \<subseteq> set (ro_sessions r)" "distinct (map fst ss)" "distinct (map snd ss)" "p \<notin> snd ` set ss" for ss
  proof -
    have "session_ok (?r'\<lparr>ro_sessions := ss\<rparr>) c' q" if "(c', q) \<in> set ss" for c' q
    proof -
      have "session_ok r c' q" "q \<noteq> p"
        using that \<open>set ss \<subseteq> set (ro_sessions r)\<close> \<open>p \<notin> snd ` set ss\<close> assms(1)
        by (force simp: router_ok_def)+
      then show ?thesis by (simp add: session_ok_def upd_session_def)
    qed
    moreover have "ids_ok (ro_next_obj r) (ro_next_req r) ((pending r)(p := [])) (\<lambda>i. rs_done (h i))"
      using ids_ok_stop [OF ids p(1)] unfolding dn .
    ultimately show ?thesis
      using that(2,3) by (auto simp: router_ok_def pend) (simp add: upd_session_def)
  qed
  show thesis
    by (rule that [OF st]) (use ok in \<open>auto simp: upd_session_def pending_def h_def\<close>)
qed

text \<open>\<open>install\<close>: the first to arrive wins; a loser is stopped, with nothing pending.\<close>

lemma install_ok:
  assumes "router_ok r" "unregistered r c p"
  obtains w won r' where "install c p r = Inr ((w, won), r')" "router_ok r'"
    "map_of (ro_sessions r') c = Some w" "won \<longleftrightarrow> map_of (ro_sessions r) c = None"
    "ro_sessions r' = (if won then (c, p) # ro_sessions r else ro_sessions r)"
    "won \<longrightarrow> w = p" "ro_events r' = ro_events r" "ro_calls r' = ro_calls r" "ro_reqs r' = ro_reqs r"
    "\<not> won \<longrightarrow> ss_run_stop (ro_objs r' p) \<and> ss_drain_stop (ro_objs r' p) \<and> sq_stopped (ss_queue (ro_objs r' p))"
    "\<forall>q. won \<or> q \<noteq> p \<longrightarrow> ro_objs r' q = ro_objs r q"
proof (cases "map_of (ro_sessions r) c")
  case None
  then have new: "c \<notin> fst ` set (ro_sessions r)" by (simp add: map_of_eq_None_iff)
  let ?r' = "r\<lparr>ro_sessions := (c, p) # ro_sessions r\<rparr>"
  have "router_ok ?r'"
    using assms new
    by (auto simp: router_ok_def unregistered_def session_ok_def Let_def pending_def [abs_def])
  moreover have "install c p r = Inr ((p, True), ?r')" using None by (simp add: install_def)
  ultimately show thesis using None by (intro that [of p True ?r']) simp_all
next
  case (Some q)
  have p: "session_ok r c p" "p \<notin> snd ` set (ro_sessions r)" "pending r p = []"
    using assms(2) by (simp_all add: unregistered_def)
  from assms(1) p(1) obtain r' where r': "stop_session p r = Inr r'" "ro_sessions r' = ro_sessions r"
    "ro_events r' = ro_events r" "ro_calls r' = ro_calls r" "\<forall>q. q \<noteq> p \<longrightarrow> ro_objs r' q = ro_objs r q"
    "ro_objs r' p = (ro_objs r p)\<lparr>ss_drain_stop := True, ss_run_stop := True,
       ss_queue := (ss_queue (ro_objs r p))\<lparr>sq_stopped := True, sq_q := []\<rparr>\<rparr>"
    "pending r p = [] \<longrightarrow> ro_reqs r' = ro_reqs r"
    and keep: "\<And>ss. set ss \<subseteq> set (ro_sessions r) \<Longrightarrow> distinct (map fst ss) \<Longrightarrow> distinct (map snd ss) \<Longrightarrow>
       p \<notin> snd ` set ss \<Longrightarrow> router_ok (r'\<lparr>ro_sessions := ss\<rparr>)"
    by (rule stop_session_ok) (rule that; assumption)
  have "router_ok (r'\<lparr>ro_sessions := ro_sessions r\<rparr>)"
    by (rule keep) (use assms(1) p(2) in \<open>auto simp: router_ok_def\<close>)
  moreover have "same_core (r'\<lparr>ro_sessions := ro_sessions r\<rparr>) r'" using r'(2) by (simp add: same_core_def)
  ultimately have "router_ok r'" using same_core_ok by blast
  moreover have "install c p r = Inr ((q, False), r')" using Some r'(1) by (simp add: install_def)
  ultimately show thesis using Some r' p(3) by (intro that [of q False r']) simp_all
qed

lemma get_or_create_ok:
  assumes "router_ok r"
  obtains (failed) e r' where "get_or_create cfg ag mkdir now c user query r = Inr (Inl e, r')" "router_ok r'"
      "ro_sessions r' = ro_sessions r" "ro_events r' = ro_events r"
  | (found) p fresh r' where "get_or_create cfg ag mkdir now c user query r = Inr (Inr (p, fresh), r')"
      "router_ok r'" "map_of (ro_sessions r') c = Some p" "ro_events r' = ro_events r"
      "session_ok r' c p" "map_of (ro_sessions r) c = Some p \<longrightarrow> r' = r \<and> \<not> fresh"
      "ro_sessions r' = (if map_of (ro_sessions r) c = None then (c, p) # ro_sessions r else ro_sessions r)"
      "fresh \<longrightarrow> 1 < length query \<and> map_of (ro_sessions r) c = None"
proof (cases "map_of (ro_sessions r) c")
  case (Some p)
  with assms registered show thesis by (intro found [of p False r]) (auto simp: get_or_create_def)
next
  case None
  obtain res r1 where o: "open_session cfg ag mkdir now c user r = (res, r1)" by fastforce
  note os = open_session_ok [OF assms o]
  show thesis
  proof (cases res)
    case (Inl e)
    with None o os show thesis by (intro failed [of e r1]) (auto simp: get_or_create_def)
  next
    case (Inr pr)
    then obtain p resumed where res: "res = Inr (p, resumed)" by (cases pr) auto
    with os have un: "unregistered r1 c p" by blast
    have none1: "map_of (ro_sessions r1) c = None" using None os(2) by simp
    from install_ok [OF os(1) un] obtain w won r' where i: "install c p r1 = Inr ((w, won), r')"
      "router_ok r'" "map_of (ro_sessions r') c = Some w" "won \<longleftrightarrow> map_of (ro_sessions r1) c = None"
      "ro_sessions r' = (if won then (c, p) # ro_sessions r1 else ro_sessions r1)"
      "won \<longrightarrow> w = p" "ro_events r' = ro_events r1" by metis
    have "get_or_create cfg ag mkdir now c user query r = Inr (Inr (w, \<not> resumed \<and> 1 < length query), r')"
      using None o res i(1,4) none1 by (simp add: get_or_create_def create_finish_def)
    with i none1 os None registered [OF i(2,3)] show thesis
      by (intro found [of w "\<not> resumed \<and> 1 < length query" r']) auto
  qed
qed

section \<open>Prompt and reactions\<close>

lemma prompt_blocks_ok:
  assumes "disk_ok env"
  obtains bs r' where "prompt_blocks cfg ag env query fresh cwd r = Inr (bs, r')" "same_core r r'"
    "ro_events r' = ro_events r" "hd bs = TextBlock (if fresh then flatten_transcript query else latest_user_text query)"
proof (cases "latest_user_turn_ref query")
  case None
  then show thesis
    by (intro that [of "[TextBlock (if fresh then flatten_transcript query else latest_user_text query)]" r])
      (simp_all add: prompt_blocks_def Let_def del: if_split)
next
  case (Some t)
  obtain bs st where "prompt_attachments env (cfg_max_inline_image_bytes cfg) (cfg_max_attachment_bytes cfg)
    cwd (message_scope t) (cap_embedded_context (ag_caps ag)) (t_attachments t)
    \<lparr>as_used = [], as_files = ro_files r\<rparr> = Inr (bs, st)"
    using prompt_attachments_effects [OF assms] by blast
  with Some show thesis
    by (intro that [of "TextBlock (if fresh then flatten_transcript query else latest_user_text query) # bs"
          "r\<lparr>ro_files := as_files st\<rparr>"])
      (simp_all add: prompt_blocks_def Let_def del: if_split)
qed

lemma emit_ok [simp]: "router_ok (emit k es r) = router_ok r"
  using same_core_ok [of r "emit k es r"]
  by (auto simp: emit_def router_ok_def session_ok_def pending_def [abs_def] Let_def)

text \<open>A prompt is queued, or it is answered at once with an error and \<open>Done\<close>.\<close>

lemma prompt_submit_cases:
  assumes "router_ok r" "disk_ok env"
  obtains (refused) e t r' where
      "prompt_submit cfg ag mkdir env now now' ctx conv user query opts k r = Inr (Inl e, r')" "router_ok r'"
      "ro_events r' = ro_events r @ [(k, EvError t ''user_caused_error''), (k, EvDone)]"
  | (queued) p i r' where
      "prompt_submit cfg ag mkdir env now now' ctx conv user query opts k r = Inr (Inr i, r')"
      "router_ok r'" "ro_events r' = ro_events r" "map_of (ro_sessions r') (conv_key conv) = Some p"
      "sq_q (ss_queue (ro_objs r' p)) \<noteq> []"
      "rq_id (last (sq_q (ss_queue (ro_objs r' p)))) = i"
      "rq_sink (last (sq_q (ss_queue (ro_objs r' p)))) = k"
      "is_user (last (sq_q (ss_queue (ro_objs r' p))))"
proof (cases "latest_user_text query = []")
  case True
  with assms(1) show thesis
    by (intro refused [of "''empty user message''" "emit k [EvError ''empty user message'' ''user_caused_error'', EvDone] r"
          "''empty user message''"]) (simp_all add: prompt_submit_def, simp add: emit_def)
next
  case nonempty: False
  from assms(1) show thesis
  proof (cases rule: get_or_create_ok [where cfg = cfg and ag = ag and mkdir = mkdir and now = now
        and c = "conv_key conv" and user = user and query = query])
    case (failed e r1)
    with nonempty show thesis
      by (intro refused [of e "emit k [EvError (''relay: '' @ e) ''user_caused_error'', EvDone] r1" "''relay: '' @ e"])
        (simp_all add: prompt_submit_def, simp add: emit_def)
  next
    case (found p fresh r1)
    obtain bs r2 where b: "prompt_blocks cfg ag env query fresh (ss_cwd (ro_objs r1 p)) r1 = Inr (bs, r2)"
      "same_core r1 r2" "ro_events r2 = ro_events r1"
      by (rule prompt_blocks_ok [OF assms(2), of cfg ag query fresh "ss_cwd (ro_objs r1 p)" r1])
    have nreq: "ro_next_req r2 = ro_next_req r1" using b(2) by (simp add: same_core_def)
    have sk: "session_ok r2 (conv_key conv) p"
      using found(5) b(2) by (simp add: session_ok_def same_core_def Let_def)
    then have p: "p < ro_next_obj r2" by (simp add: session_ok_def)
    obtain res r3 where s: "submit p (user_req ctx k opts bs now') r2 = Inr (res, r3)" "router_ok r3"
      "ro_sessions r3 = ro_sessions r2"
      "res = None \<longleftrightarrow> push_rejects (user_req ctx k opts bs now' (ro_next_req r2)) (ss_queue (ro_objs r2 p))"
      "res \<noteq> None \<longrightarrow> res = Some (ro_next_req r2) \<and>
         last (sq_q (ss_queue (ro_objs r3 p))) = user_req ctx k opts bs now' (ro_next_req r2) \<and>
         sq_q (ss_queue (ro_objs r3 p)) \<noteq> []"
      "ro_events r3 = ro_events r2" "ro_calls r3 = ro_calls r2" "ro_next_obj r3 = ro_next_obj r2"
      by (rule submit_cases [OF same_core_ok [OF b(2) found(2)] p, where mk = "user_req ctx k opts bs now'"])
        (simp add: user_req_def, (rule that; assumption))
    have "res \<noteq> None" using sk s(4)
      by (simp add: push_rejects_def session_ok_def user_req_def Let_def)
    then have res: "res = Some (ro_next_req r1)"
      "last (sq_q (ss_queue (ro_objs r3 p))) = user_req ctx k opts bs now' (ro_next_req r1)"
      "sq_q (ss_queue (ro_objs r3 p)) \<noteq> []" using s(5) nreq by auto
    have sub: "prompt_submit cfg ag mkdir env now now' ctx conv user query opts k r =
      Inr (Inr (ro_next_req r1), r3)"
      using nonempty found(1) b(1) s(1) res(1) by (simp add: prompt_submit_def)
    show thesis
      by (rule queued [OF sub s(2) _ _ res(3)])
        (simp_all add: res(2) user_req_def s(3,6) b(3) found(3,4) same_core_sessions [OF b(2)])
  qed
qed

lemma report_reaction_ok:
  assumes "router_ok r"
  obtains res r' where "report_reaction U cfg ag mkdir now now' ctx conv user msg kind action r = Inr (res, r')"
    "router_ok r'" "ro_events r' = ro_events r"
  using assms
proof (cases rule: get_or_create_ok [where cfg = cfg and ag = ag and mkdir = mkdir and now = now
      and c = "conv_key conv" and user = user and query = "[]"])
  case (failed e r1)
  then show thesis
    by (intro that [of "Some (''reaction: getOrCreate: '' @ e)" r1]) (simp_all add: report_reaction_def)
next
  case (found p fresh r1)
  have "p < ro_next_obj r1" using found(5) by (simp add: session_ok_def)
  with found(2) obtain res r3 where
    "submit p (reaction_req U ctx (conv_key conv) msg kind action now') r1 = Inr (res, r3)"
    "router_ok r3" "ro_events r3 = ro_events r1"
    by (rule submit_cases [where mk = "reaction_req U ctx (conv_key conv) msg kind action now'"])
      (simp add: reaction_req_def, (rule that; assumption))
  with found show thesis
    by (intro that [of None r3]) (simp_all add: report_reaction_def)
qed

section \<open>Garbage collection\<close>

definition expired :: "int \<Rightarrow> router \<Rightarrow> gostring \<times> nat \<Rightarrow> bool" where
  "expired cutoff r e \<longleftrightarrow>
     idle (ss_queue (ro_objs r (snd e))) \<and> ss_last_used (ro_objs r (snd e)) < cutoff"

lemma distinct_fst_eq: "distinct (map fst xs) \<Longrightarrow> a \<in> set xs \<Longrightarrow> b \<in> set xs \<Longrightarrow> fst a = fst b \<Longrightarrow> a = b"
  by (metis distinct_map inj_onD)

lemma distinct_snd_eq: "distinct (map snd xs) \<Longrightarrow> a \<in> set xs \<Longrightarrow> b \<in> set xs \<Longrightarrow> snd a = snd b \<Longrightarrow> a = b"
  by (metis distinct_map inj_onD)

lemma distinct_map_filter_imp: "distinct (map f xs) \<Longrightarrow> distinct (map f (filter P xs))"
  by (induction xs) auto

lemma gc_entry_ok:
  assumes "router_ok r" "e \<in> set (ro_sessions r)"
  obtains r' where "gc_entry cutoff e (Inr r) = Inr r'" "router_ok r'"
    "ro_sessions r' = filter (\<lambda>e'. \<not> (e' = e \<and> expired cutoff r e)) (ro_sessions r)"
    "ro_reqs r' = ro_reqs r" "ro_events r' = ro_events r" "ro_calls r' = ro_calls r"
    "\<forall>q. \<not> (q = snd e \<and> expired cutoff r e) \<longrightarrow> ro_objs r' q = ro_objs r q"
proof (cases "expired cutoff r e")
  case False
  with assms show thesis
    by (intro that [of r]) (auto simp: gc_entry_def expired_def Let_def)
next
  case True
  let ?p = "snd e"
  have sk: "session_ok r (fst e) ?p" using assms by (auto simp: router_ok_def)
  have dist: "distinct (map fst (ro_sessions r))" "distinct (map snd (ro_sessions r))"
    using assms(1) by (simp_all add: router_ok_def)
  have pend: "pending r ?p = []" using True by (simp add: expired_def idle_def pending_def)
  from assms(1) sk obtain r1 where r1: "stop_session ?p r = Inr r1" "ro_sessions r1 = ro_sessions r"
    "ro_events r1 = ro_events r" "ro_calls r1 = ro_calls r" "\<forall>q. q \<noteq> ?p \<longrightarrow> ro_objs r1 q = ro_objs r q"
    "pending r ?p = [] \<longrightarrow> ro_reqs r1 = ro_reqs r"
    and keep: "\<And>ss. set ss \<subseteq> set (ro_sessions r) \<Longrightarrow> distinct (map fst ss) \<Longrightarrow> distinct (map snd ss) \<Longrightarrow>
       ?p \<notin> snd ` set ss \<Longrightarrow> router_ok (r1\<lparr>ro_sessions := ss\<rparr>)"
    by (rule stop_session_ok) (rule that; assumption)
  let ?ss = "filter (\<lambda>e'. fst e' \<noteq> fst e) (ro_sessions r)"
  have same: "?ss = filter (\<lambda>e'. e' \<noteq> e) (ro_sessions r)"
    by (rule filter_cong) (use distinct_fst_eq [OF dist(1) _ assms(2)] in auto)
  have "?p \<notin> snd ` set ?ss"
    unfolding same using distinct_snd_eq [OF dist(2) _ assms(2)] by auto
  then have "router_ok (r1\<lparr>ro_sessions := ?ss\<rparr>)"
    by (intro keep) (auto simp: dist distinct_map_filter_imp)
  with True r1 pend show thesis
    by (intro that [of "r1\<lparr>ro_sessions := ?ss\<rparr>"]) (simp_all add: gc_entry_def expired_def same)
qed

lemma gc_fold_ok:
  assumes "router_ok r" "set es \<subseteq> set (ro_sessions r)" "distinct es"
  shows "\<exists>r'. fold (gc_entry cutoff) es (Inr r) = Inr r' \<and> router_ok r' \<and>
    ro_sessions r' = filter (\<lambda>e. \<not> (e \<in> set es \<and> expired cutoff r e)) (ro_sessions r) \<and>
    ro_reqs r' = ro_reqs r \<and> ro_events r' = ro_events r \<and> ro_calls r' = ro_calls r \<and>
    (\<forall>q. q \<notin> snd ` {e \<in> set es. expired cutoff r e} \<longrightarrow> ro_objs r' q = ro_objs r q)"
  using assms
proof (induction es arbitrary: r)
  case Nil
  then show ?case by simp
next
  case (Cons e es)
  have e: "e \<in> set (ro_sessions r)" using Cons.prems(2) by simp
  from Cons.prems(1) e obtain r1 where r1: "gc_entry cutoff e (Inr r) = Inr r1" "router_ok r1"
    "ro_sessions r1 = filter (\<lambda>e'. \<not> (e' = e \<and> expired cutoff r e)) (ro_sessions r)"
    "ro_reqs r1 = ro_reqs r" "ro_events r1 = ro_events r" "ro_calls r1 = ro_calls r"
    "\<forall>q. \<not> (q = snd e \<and> expired cutoff r e) \<longrightarrow> ro_objs r1 q = ro_objs r q" by (rule gc_entry_ok)
  have dist: "distinct (map snd (ro_sessions r))" using Cons.prems(1) by (simp add: router_ok_def)
  have other: "snd e' \<noteq> snd e" if "e' \<in> set es" for e'
    using distinct_snd_eq [OF dist _ e, of e'] that Cons.prems(2,3) by auto
  then have exp: "expired cutoff r1 e' = expired cutoff r e'" if "e' \<in> set es" for e'
    using that r1(7) by (simp add: expired_def)
  have "set es \<subseteq> set (ro_sessions r1)" using Cons.prems(2,3) r1(3) by auto
  from Cons.IH [OF r1(2) this] Cons.prems(3) obtain r' where r':
    "fold (gc_entry cutoff) es (Inr r1) = Inr r'" "router_ok r'"
    "ro_sessions r' = filter (\<lambda>e. \<not> (e \<in> set es \<and> expired cutoff r1 e)) (ro_sessions r1)"
    "ro_reqs r' = ro_reqs r1" "ro_events r' = ro_events r1" "ro_calls r' = ro_calls r1"
    "\<forall>q. q \<notin> snd ` {e \<in> set es. expired cutoff r1 e} \<longrightarrow> ro_objs r' q = ro_objs r1 q" by auto
  have "ro_sessions r' = filter (\<lambda>e'. \<not> (e' \<in> set (e # es) \<and> expired cutoff r e')) (ro_sessions r)"
    unfolding r'(3) r1(3) filter_filter by (rule filter_cong) (use exp in auto)
  moreover have "\<forall>q. q \<notin> snd ` {e' \<in> set (e # es). expired cutoff r e'} \<longrightarrow> ro_objs r' q = ro_objs r q"
  proof (intro allI impI)
    fix q assume q: "q \<notin> snd ` {e' \<in> set (e # es). expired cutoff r e'}"
    then have "\<not> (q = snd e \<and> expired cutoff r e)" by auto
    moreover have "q \<notin> snd ` {e' \<in> set es. expired cutoff r1 e'}" using q exp by auto
    ultimately show "ro_objs r' q = ro_objs r q" using r'(7) r1(7) by metis
  qed
  ultimately show ?case using r' r1 by simp
qed

lemma gc_once_effects:
  assumes "router_ok r"
  obtains r' where "gc_once cfg now r = Inr r'" "router_ok r'"
    "ro_sessions r' = filter (\<lambda>e. \<not> expired (now - cfg_session_ttl cfg) r e) (ro_sessions r)"
    "\<forall>e \<in> set (ro_sessions r'). ro_objs r' (snd e) = ro_objs r (snd e)"
    "ro_reqs r' = ro_reqs r" "ro_events r' = ro_events r" "ro_calls r' = ro_calls r"
proof -
  have "distinct (ro_sessions r)" using assms by (auto simp: router_ok_def distinct_map)
  from gc_fold_ok [OF assms subset_refl this, of "now - cfg_session_ttl cfg"] obtain r' where
    r': "gc_once cfg now r = Inr r'" "router_ok r'"
    "ro_sessions r' = filter (\<lambda>e. \<not> (e \<in> set (ro_sessions r) \<and> expired (now - cfg_session_ttl cfg) r e)) (ro_sessions r)"
    "ro_reqs r' = ro_reqs r" "ro_events r' = ro_events r" "ro_calls r' = ro_calls r"
    "\<forall>q. q \<notin> snd ` {e \<in> set (ro_sessions r). expired (now - cfg_session_ttl cfg) r e} \<longrightarrow>
       ro_objs r' q = ro_objs r q"
    unfolding gc_once_def by blast
  have kept: "ro_sessions r' = filter (\<lambda>e. \<not> expired (now - cfg_session_ttl cfg) r e) (ro_sessions r)"
    unfolding r'(3) by (rule filter_cong) auto
  have "\<forall>e \<in> set (ro_sessions r'). ro_objs r' (snd e) = ro_objs r (snd e)"
  proof
    fix e assume e: "e \<in> set (ro_sessions r')"
    have "snd e \<notin> snd ` {e \<in> set (ro_sessions r). expired (now - cfg_session_ttl cfg) r e}"
    proof
      assume "snd e \<in> snd ` {e \<in> set (ro_sessions r). expired (now - cfg_session_ttl cfg) r e}"
      then obtain e' where e': "e' \<in> set (ro_sessions r)" "expired (now - cfg_session_ttl cfg) r e'" "snd e = snd e'"
        by auto
      moreover have "e = e'"
        using distinct_snd_eq [of "ro_sessions r" e e'] assms e e' unfolding kept by (auto simp: router_ok_def)
      ultimately show False using e unfolding kept by simp
    qed
    with r'(7) show "ro_objs r' (snd e) = ro_objs r (snd e)" by blast
  qed
  with r' kept show thesis by (intro that [of r']) auto
qed

text \<open>C17: \<open>gcOnce\<close> evicts exactly the sessions that are idle and whose last use is older than the TTL,
  whatever the order it visits them in, and loses nothing: no request is shed, no sink written,
  and the sessions it keeps are unchanged.\<close>

theorem gc_evicts_exactly_idle_expired:
  assumes "router_ok r"
  shows "\<exists>r'. gc_once cfg now r = Inr r' \<and> router_ok r' \<and>
    ro_sessions r' = filter (\<lambda>e. \<not> expired (now - cfg_session_ttl cfg) r e) (ro_sessions r) \<and>
    (\<forall>e \<in> set (ro_sessions r'). ro_objs r' (snd e) = ro_objs r (snd e)) \<and>
    ro_reqs r' = ro_reqs r \<and> ro_events r' = ro_events r \<and> ro_calls r' = ro_calls r"
  by (rule gc_once_effects [OF assms, of cfg now]) blast

lemma empty_router_ok: "router_ok empty_router"
  by (simp add: router_ok_def empty_router_def ids_ok_def fresh_status_def)

section \<open>Turns keep the invariant\<close>

text \<open>All of \<open>same_core\<close> but the requests, and the agent's session ids.\<close>

definition same_shape :: "router \<Rightarrow> router \<Rightarrow> bool" where
  "same_shape r r' \<longleftrightarrow>
     ro_sessions r' = ro_sessions r \<and> ro_next_obj r' = ro_next_obj r \<and> ro_next_req r' = ro_next_req r \<and>
     (\<forall>p. ss_conv_id (ro_objs r' p) = ss_conv_id (ro_objs r p) \<and>
       ss_session_id (ro_objs r' p) = ss_session_id (ro_objs r p) \<and>
       ss_run_stop (ro_objs r' p) = ss_run_stop (ro_objs r p) \<and>
       ss_drain_stop (ro_objs r' p) = ss_drain_stop (ro_objs r p) \<and>
       ss_queue (ro_objs r' p) = ss_queue (ro_objs r p))"

lemma same_shape_trans: "same_shape a b \<Longrightarrow> same_shape b c \<Longrightarrow> same_shape a c"
  by (simp add: same_shape_def)

lemma same_shape_simps [simp]:
  "same_shape r r" "same_shape r (emit k es r') = same_shape r r'"
  "same_shape r (log_calls cs r') = same_shape r r'" "same_shape r (touch now c r') = same_shape r r'"
  "same_shape r (r'\<lparr>ro_events := es'\<rparr>) = same_shape r r'"
  "same_shape r (r'\<lparr>ro_reqs := h\<rparr>) = same_shape r r'"
  "same_shape (r\<lparr>ro_reqs := h\<rparr>) r' = same_shape r r'"
  "same_shape r (upd_session p (\<lambda>st. st\<lparr>ss_applied := ap\<rparr>) r') = same_shape r r'"
  "same_shape r (upd_session p (\<lambda>st. st\<lparr>ss_drain := d\<rparr>) r') = same_shape r r'"
  "same_shape r (upd_session p (\<lambda>st. st\<lparr>ss_pending_inline := b\<rparr>) r') = same_shape r r'"
  by (auto simp: same_shape_def relay_defs touch_objs)

lemma option_step_shape: "same_shape r (option_step ag p req r)"
proof -
  obtain err applied calls where ao: "apply_options ag (ss_session_id (ro_objs r p)) (rq_opts req)
    (ss_applied (ro_objs r p)) = (err, applied, calls)" by (metis prod_cases3)
  show ?thesis
    by (cases err; cases "rq_kind req") (simp_all add: option_step_def ao Let_def)
qed

lemma inline_step_shape: "same_shape r (snd (inline_step cfg p req r))"
  by (simp add: inline_step_def)

lemma prompt_step_shape: "same_shape r (snd (prompt_step ag p req bs r))"
  by (simp add: prompt_step_def Let_def split_beta)

lemma conclude_step_shape: "same_shape r (conclude_step req res r)"
  by (cases res) (simp_all add: conclude_step_def Let_def)

lemma finish_turn_shape:
  "finish_turn now p req r = Inr r' \<Longrightarrow> same_shape r r'"
  by (auto simp: finish_turn_def Let_def split: sum.splits)

lemma run_one_turn_shape:
  assumes "run_one_turn cfg ag now now' p req r = Inr r'"
  shows "same_shape r r'"
proof (cases "stale_reaction now req")
  case True
  with assms show ?thesis
    by (auto simp: run_one_turn_def dest!: finish_turn_shape)
next
  case False
  let ?r1 = "option_step ag p req r"
  let ?r2 = "snd (inline_step cfg p req ?r1)" and ?bs = "fst (inline_step cfg p req ?r1)"
  let ?r3 = "snd (prompt_step ag p req ?bs ?r2)" and ?res = "fst (prompt_step ag p req ?bs ?r2)"
  have "finish_turn now' p req (conclude_step req ?res ?r3) = Inr r'"
    using assms False by (simp add: run_one_turn_def Let_def split_beta)
  from finish_turn_shape [OF this] show ?thesis
    using option_step_shape inline_step_shape prompt_step_shape conclude_step_shape
    by (meson same_shape_trans)
qed

lemma run_one_turn_reqs:
  assumes "\<not> req_done r (rq_id req)"
  obtains r' where "run_one_turn cfg ag now now' p req r = Inr r'" "req_done r' (rq_id req)"
    "\<forall>i. i \<noteq> rq_id req \<longrightarrow> ro_reqs r' i = ro_reqs r i"
proof (cases "stale_reaction now req")
  case True
  let ?r = "r\<lparr>ro_reqs := set_shed (rq_id req) (ro_reqs r)\<rparr>"
  have "\<not> rs_done (ro_reqs ?r (rq_id req))" using assms by (simp add: set_shed_def)
  then obtain r1 where "finish_turn now' p req ?r = Inr r1"
    "ro_reqs r1 = (ro_reqs ?r)(rq_id req := (ro_reqs ?r (rq_id req))\<lparr>rs_done := True\<rparr>)"
    by (rule finish_turn_ok)
  with True show thesis by (intro that [of r1]) (simp_all add: run_one_turn_def set_shed_def)
next
  case False
  obtain us res where "ag_prompt ag (ss_session_id (ro_objs r p)) (turn_blocks cfg (ro_objs r p) req) = (us, res)"
    by fastforce
  from run_one_turn_effects [OF False assms this, where now' = now'] show thesis by (metis that)
qed

lemma run_turns_iter_ok:
  assumes "router_ok r" "p < ro_next_obj r" "run_turns_iter cfg ag now now' p r = Some res"
  obtains r' where "res = Inr r'" "router_ok r'" "ro_sessions r' = ro_sessions r"
proof -
  let ?sq = "ss_queue (ro_objs r p)"
  from assms(3) obtain req rest where q: "sq_q ?sq = req # rest"
    by (cases "sq_q ?sq") (auto simp: run_turns_iter_def try_pop_def)
  let ?sq' = "?sq\<lparr>sq_q := rest, sq_in_flight := True\<rparr>"
  let ?r0 = "upd_session p (\<lambda>st. st\<lparr>ss_queue := ?sq'\<rparr>) r"
  have pop: "try_pop ?sq = Some (req, ?sq')" using q by (simp add: try_pop_def)
  have ids: "ids_ok (ro_next_obj r) (ro_next_req r) (pending r) (req_done r)"
    using assms(1) by (simp add: router_ok_def)
  have pend: "pending r p = [] @ rq_id req # map rq_id rest" by (simp add: pending_def q)
  then have "\<not> req_done r (rq_id req)" using ids_okD(3) [OF ids assms(2)] by simp
  then have "\<not> req_done ?r0 (rq_id req)" by (simp add: upd_session_def)
  then obtain r1 where r1: "run_one_turn cfg ag now now' p req ?r0 = Inr r1" "req_done r1 (rq_id req)"
    "\<forall>i. i \<noteq> rq_id req \<longrightarrow> ro_reqs r1 i = ro_reqs ?r0 i" by (rule run_one_turn_reqs)
  let ?r' = "upd_session p (\<lambda>st. st\<lparr>ss_queue := finish_in_flight (ss_queue st)\<rparr>) r1"
  have res: "res = Inr ?r'"
    using assms(3) pop r1(1) by (simp add: run_turns_iter_def)
  note shape = run_one_turn_shape [OF r1(1)]
  have dn: "(\<lambda>i. req_done ?r' i) = (req_done r)(rq_id req := True)"
    using r1(2,3) by (auto simp: upd_session_def fun_eq_iff)
  have pq: "pending ?r' = (pending r)(p := [] @ map rq_id rest)"
    using shape by (auto simp: pending_def upd_session_def same_shape_def finish_in_flight_def fun_eq_iff)
  have n: "ro_next_obj ?r' = ro_next_obj r" "ro_next_req ?r' = ro_next_req r"
    using shape by (simp_all add: upd_session_def same_shape_def)
  have "ids_ok (ro_next_obj ?r') (ro_next_req ?r') (pending ?r') (req_done ?r')"
    unfolding n dn pq by (rule ids_ok_drop [OF ids assms(2) pend])
  moreover have "session_ok ?r' c q \<longleftrightarrow> session_ok r c q" for c q
    using shape by (auto simp: session_ok_def upd_session_def same_shape_def finish_in_flight_def Let_def)
  moreover have "ro_sessions ?r' = ro_sessions r" using shape by (simp add: upd_session_def same_shape_def)
  ultimately have "router_ok ?r'" using assms(1) by (simp add: router_ok_def)
  from that [OF res this \<open>ro_sessions ?r' = ro_sessions r\<close>] show thesis .
qed

section \<open>Any sequence of operations\<close>

datatype router_op =
    OpPrompt nat gostring gostring "turn list" options sink_ref
  | OpReaction nat gostring gostring gostring gostring gostring
  | OpTurn gostring
  | OpGc
  | OpCancel gostring

text \<open>What the operations take from outside: one reading of the clock for each, the agent's
  answers at that time, the disk and the network.\<close>

record op_env =
  oe_now :: int
  oe_agent :: agent_env
  oe_mkdir :: "gostring \<Rightarrow> error"
  oe_att :: att_env
  oe_unicode :: unicode

fun router_step :: "router_config \<Rightarrow> op_env \<Rightarrow> router_op \<Rightarrow> router \<Rightarrow> go_panic + router" where
  "router_step cfg e (OpPrompt ctx conv user query opts k) r =
     map_sum id snd (prompt_submit cfg (oe_agent e) (oe_mkdir e) (oe_att e) (oe_now e) (oe_now e) ctx
       conv user query opts k r)"
| "router_step cfg e (OpReaction ctx conv user msg kind action) r =
     map_sum id snd (report_reaction (oe_unicode e) cfg (oe_agent e) (oe_mkdir e) (oe_now e) (oe_now e)
       ctx conv user msg kind action r)"
| "router_step cfg e (OpTurn conv) r =
     (case map_of (ro_sessions r) conv of
        None \<Rightarrow> Inr r
      | Some p \<Rightarrow>
          (case run_turns_iter cfg (oe_agent e) (oe_now e) (oe_now e) p r of
             None \<Rightarrow> Inr r | Some res \<Rightarrow> res))"
| "router_step cfg e OpGc r = gc_once cfg (oe_now e) r"
| "router_step cfg e (OpCancel conv) r = Inr (snd (cancel (oe_agent e) conv r))"

fun router_run ::
  "router_config \<Rightarrow> (op_env \<times> router_op) list \<Rightarrow> router \<Rightarrow> go_panic + router" where
  "router_run cfg [] r = Inr r"
| "router_run cfg ((e, op) # ops) r =
     (case router_step cfg e op r of Inl x \<Rightarrow> Inl x | Inr r' \<Rightarrow> router_run cfg ops r')"

lemma gc_once_ok: "router_ok r \<Longrightarrow> \<exists>r'. gc_once cfg now r = Inr r' \<and> router_ok r'"
  by (rule gc_once_effects) blast+

lemma cancel_core: "same_core r (snd (cancel ag conv r))"
  by (simp add: cancel_def Let_def split: option.splits)

lemma router_step_ok:
  assumes "router_ok r" "disk_ok (oe_att e)"
  shows "\<exists>r'. router_step cfg e op r = Inr r' \<and> router_ok r'"
proof (cases op)
  case (OpPrompt ctx conv user query opts k)
  from assms show ?thesis
    by (rule prompt_submit_cases [where cfg = cfg and ag = "oe_agent e" and mkdir = "oe_mkdir e"
        and now = "oe_now e" and now' = "oe_now e" and ctx = ctx and conv = conv and user = user
        and query = query and opts = opts and k = k]) (simp_all add: OpPrompt)
next
  case (OpReaction ctx conv user msg kind action)
  from assms(1) show ?thesis
    by (rule report_reaction_ok [where cfg = cfg and ag = "oe_agent e" and mkdir = "oe_mkdir e"
        and now = "oe_now e" and now' = "oe_now e" and ctx = ctx and conv = conv and user = user
        and msg = msg and kind = kind and action = action and U = "oe_unicode e"]) (simp add: OpReaction)
next
  case (OpTurn conv)
  show ?thesis
  proof (cases "map_of (ro_sessions r) conv")
    case None
    with assms(1) OpTurn show ?thesis by simp
  next
    case (Some p)
    with assms(1) registered have p: "p < ro_next_obj r" by (auto simp: session_ok_def)
    show ?thesis
    proof (cases "run_turns_iter cfg (oe_agent e) (oe_now e) (oe_now e) p r")
      case None
      with Some assms(1) OpTurn show ?thesis by simp
    next
      case res: (Some res)
      from assms(1) p res obtain r' where "res = Inr r'" "router_ok r'" "ro_sessions r' = ro_sessions r"
        by (rule run_turns_iter_ok)
      with Some OpTurn res show ?thesis by simp
    qed
  qed
next
  case OpGc
  with gc_once_ok [OF assms(1)] show ?thesis by simp
next
  case (OpCancel conv)
  with same_core_ok [OF cancel_core assms(1)] show ?thesis by simp
qed

lemma router_run_ok:
  "router_ok r \<Longrightarrow> \<forall>(e, op) \<in> set ops. disk_ok (oe_att e) \<Longrightarrow>
     \<exists>r'. router_run cfg ops r = Inr r' \<and> router_ok r'"
proof (induction ops arbitrary: r)
  case (Cons eo ops)
  obtain e op where eo: "eo = (e, op)" by (cases eo)
  with Cons.prems router_step_ok [OF Cons.prems(1), of e cfg op] obtain r1 where
    "router_step cfg e op r = Inr r1" "router_ok r1" by auto
  with Cons eo show ?case by auto
qed simp

text \<open>C15: From a new router, any sequence of prompts, reactions, turns, cancellations and collections
  keeps the invariant and never panics: no channel is closed twice, there is one live session
  per conversation, and every pending request sits in one queue with its \<open>done\<close> channel open.\<close>

theorem router_never_panics:
  assumes "\<forall>(e, op) \<in> set ops. disk_ok (oe_att e)"
  shows "\<exists>r. router_run cfg ops empty_router = Inr r \<and> router_ok r"
  using router_run_ok [OF empty_router_ok assms] .

definition demo_op_env :: "int \<Rightarrow> op_env" where
  "demo_op_env t = \<lparr>oe_now = t, oe_agent = chatty_agent, oe_mkdir = (\<lambda>_. None), oe_att = demo_env,
     oe_unicode = ascii_tables\<rparr>"

definition demo_turn :: "gostring \<Rightarrow> turn" where
  "demo_turn s = \<lparr>t_role = ''user'', t_content = s, t_message_id = ''m'', t_attachments = []\<rparr>"

theorem router_never_panics_witness:
  "\<exists>r. router_run demo_config
      [(demo_op_env 0, OpPrompt 0 ''c'' ''u'' [demo_turn ''hi''] no_options (HttpSink 0)),
       (demo_op_env 1, OpTurn ''c''), (demo_op_env 9000000000000000, OpGc)] empty_router = Inr r \<and> router_ok r"
  by (rule router_never_panics) (simp add: demo_op_env_def disk_ok_def demo_env_def)

text \<open>\<open>Prompt\<close> never leaves its caller without an answer: either the request is the last one of
  the conversation's queue, on the caller's sink, and nothing was written yet, or the sink got
  exactly one \<open>Error\<close> and \<open>Done\<close> and the call returned an error.\<close>

theorem prompt_queues_or_reports:
  assumes "router_ok r" "disk_ok env"
  shows "\<exists>res r'. prompt_submit cfg ag mkdir env now now' ctx conv user query opts k r = Inr (res, r') \<and>
    (case res of
       Inl e \<Rightarrow> \<exists>t. ro_events r' = ro_events r @ [(k, EvError t ''user_caused_error''), (k, EvDone)]
     | Inr i \<Rightarrow> ro_events r' = ro_events r \<and>
         (\<exists>p front req. map_of (ro_sessions r') (conv_key conv) = Some p \<and>
            sq_q (ss_queue (ro_objs r' p)) = front @ [req] \<and>
            rq_id req = i \<and> rq_sink req = k \<and> is_user req))"
  using assms
proof (cases rule: prompt_submit_cases [where cfg = cfg and ag = ag and mkdir = mkdir and now = now
      and now' = now' and ctx = ctx and conv = conv and user = user and query = query and opts = opts
      and k = k])
  case (queued p i r')
  then show ?thesis
    by (intro exI [of _ "Inr i"] exI [of _ r'])
      (auto intro!: exI [of _ "butlast (sq_q (ss_queue (ro_objs r' p)))"]
        exI [of _ "last (sq_q (ss_queue (ro_objs r' p)))"])
qed auto

theorem prompt_queues_or_reports_witness:
  "\<exists>res r'. prompt_submit demo_config quiet_agent (\<lambda>_. Some ''disk full'') demo_env 0 0 0 ''c'' ''u''
      [demo_turn ''hi''] no_options (HttpSink 0) empty_router = Inr (Inl res, r')"
proof -
  have "disk_ok demo_env" by (simp add: disk_ok_def demo_env_def)
  from prompt_queues_or_reports [OF empty_router_ok this, of demo_config quiet_agent "\<lambda>_. Some ''disk full''"
      0 0 0 "''c''" "''u''" "[demo_turn ''hi'']" no_options "HttpSink 0"]
  obtain res r' where res: "prompt_submit demo_config quiet_agent (\<lambda>_. Some ''disk full'') demo_env 0 0 0
      ''c'' ''u'' [demo_turn ''hi''] no_options (HttpSink 0) empty_router = Inr (res, r')" by blast
  then have "\<exists>e. res = Inl e"
    by (auto simp: prompt_submit_def latest_user_text_def latest_user_turn_ref_def demo_turn_def
        get_or_create_def open_session_def Let_def split: if_splits sum.splits option.splits)
  with res show ?thesis by blast
qed

theorem gc_evicts_exactly_idle_expired_witness:
  "\<exists>r'. gc_once demo_config 9000 (empty_router\<lparr>ro_sessions := [(''c'', 0)], ro_next_obj := 1\<rparr>) = Inr r' \<and>
     ro_sessions r' = []"
proof -
  let ?r = "empty_router\<lparr>ro_sessions := [(''c'', 0)], ro_next_obj := 1\<rparr>"
  have "router_ok ?r"
    by (simp add: router_ok_def session_ok_def ids_ok_def pending_def quiet_session_def new_session_queue_def)
  from gc_evicts_exactly_idle_expired [OF this, of demo_config 9000] show ?thesis
    by (auto simp: expired_def idle_def quiet_session_def new_session_queue_def demo_config_def)
qed

end
