(* ===== verification/Attachment_Sweep.thy ===== *)
theory Attachment_Sweep
  imports Relay_Types
begin

text \<open>
  The reaper of downloaded files (\<open>sweepAttachmentsOnce\<close>, internal/router/router.go) over a
  snapshot of \<open><StateDir>/convs/*/.poe-attachments/*/*\<close>. A directory that cannot be read is
  \<open>None\<close>; whether a file's metadata can be read and whether a removal succeeds are part of
  the snapshot.
\<close>

record file_entry =
  fe_name :: gostring
  fe_info :: "(bool \<times> int) option"     \<comment> \<open>regular?, modification time\<close>
  fe_remove_fails :: bool

record message_entry =
  me_name :: gostring
  me_is_dir :: bool
  me_files :: "file_entry list option"
  me_remove_fails :: bool

record conv_entry =
  ce_name :: gostring
  ce_is_dir :: bool
  ce_messages :: "message_entry list option"

text \<open>The inner loop: what stays, the files removed, \<open>liveCount\<close>.\<close>

fun sweep_files :: "int \<Rightarrow> file_entry list \<Rightarrow> file_entry list \<times> nat \<times> nat" where
  "sweep_files cutoff [] = ([], 0, 0)"
| "sweep_files cutoff (f # fs) =
     (let (kept, removed, live) = sweep_files cutoff fs in
      case fe_info f of
        None \<Rightarrow> (f # kept, removed, Suc live)
      | Some (regular, mtime) \<Rightarrow>
          if regular \<and> mtime < cutoff then
            (if fe_remove_fails f then (f # kept, removed, Suc live) else (kept, Suc removed, live))
          else (f # kept, removed, Suc live))"

text \<open>One message directory: what stays of it, files and directories removed.\<close>

definition sweep_message :: "int \<Rightarrow> message_entry \<Rightarrow> message_entry option \<times> nat \<times> nat" where
  "sweep_message cutoff md =
     (if \<not> me_is_dir md then (Some md, 0, 0)
      else
        (case me_files md of
           None \<Rightarrow> (Some md, 0, 0)
         | Some fs \<Rightarrow>
             (let (kept, removed, live) = sweep_files cutoff fs;
                  md' = md\<lparr>me_files := Some kept\<rparr> in
              if live = 0 \<and> \<not> me_remove_fails md then (None, removed, 1)
              else (Some md', removed, 0))))"

fun sweep_messages :: "int \<Rightarrow> message_entry list \<Rightarrow> message_entry list \<times> nat \<times> nat" where
  "sweep_messages cutoff [] = ([], 0, 0)"
| "sweep_messages cutoff (md # mds) =
     (let (m, f, d) = sweep_message cutoff md; (ms, f', d') = sweep_messages cutoff mds in
      (case m of None \<Rightarrow> ms | Some md' \<Rightarrow> md' # ms, f + f', d + d'))"

fun sweep_convs :: "int \<Rightarrow> conv_entry list \<Rightarrow> conv_entry list \<times> nat \<times> nat" where
  "sweep_convs cutoff [] = ([], 0, 0)"
| "sweep_convs cutoff (cd # cds) =
     (let (cs, f', d') = sweep_convs cutoff cds in
      if \<not> ce_is_dir cd then (cd # cs, f', d')
      else
        (case ce_messages cd of
           None \<Rightarrow> (cd # cs, f', d')
         | Some mds \<Rightarrow>
             (let (ms, f, d) = sweep_messages cutoff mds in
              (cd\<lparr>ce_messages := Some ms\<rparr> # cs, f + f', d + d'))))"

text \<open>The listing of \<open>convs\<close> may fail; a TTL that is not positive disables the sweep.\<close>

definition sweep_attachments_once ::
  "int \<Rightarrow> int \<Rightarrow> conv_entry list option \<Rightarrow> conv_entry list option \<times> nat \<times> nat" where
  "sweep_attachments_once ttl now convs =
     (if ttl \<le> 0 then (convs, 0, 0)
      else
        (case convs of
           None \<Rightarrow> (None, 0, 0)
         | Some cds \<Rightarrow> (let (cs, f, d) = sweep_convs (now - ttl) cds in (Some cs, f, d))))"

section \<open>What is reaped\<close>

text \<open>The files a sweep can see, with where they are.\<close>

definition message_files :: "message_entry \<Rightarrow> file_entry list" where
  "message_files md = (if me_is_dir md then (case me_files md of None \<Rightarrow> [] | Some fs \<Rightarrow> fs) else [])"

definition conv_files :: "conv_entry \<Rightarrow> (gostring \<times> gostring \<times> file_entry) list" where
  "conv_files cd =
     (if ce_is_dir cd then
        (case ce_messages cd of
           None \<Rightarrow> []
         | Some mds \<Rightarrow>
             concat (map (\<lambda>md. map (\<lambda>f. (ce_name cd, me_name md, f)) (message_files md)) mds))
      else [])"

definition all_files :: "conv_entry list option \<Rightarrow> (gostring \<times> gostring \<times> file_entry) list" where
  "all_files convs = (case convs of None \<Rightarrow> [] | Some cds \<Rightarrow> concat (map conv_files cds))"

text \<open>Regular files last modified before the cutoff, unless the system refuses to remove them.\<close>

definition reapable :: "int \<Rightarrow> file_entry \<Rightarrow> bool" where
  "reapable cutoff f \<longleftrightarrow>
     \<not> fe_remove_fails f \<and> (case fe_info f of None \<Rightarrow> False | Some (reg, mtime) \<Rightarrow> reg \<and> mtime < cutoff)"

lemma sweep_files_spec:
  "sweep_files cutoff fs =
     (filter (\<lambda>f. \<not> reapable cutoff f) fs, length (filter (reapable cutoff) fs),
      length (filter (\<lambda>f. \<not> reapable cutoff f) fs))"
  by (induction fs) (auto simp: reapable_def Let_def split: option.splits)

lemma sweep_message_files:
  assumes "sweep_message cutoff md = (m, f, d)"
  shows "(case m of None \<Rightarrow> [] | Some md' \<Rightarrow> message_files md') =
      filter (\<lambda>f. \<not> reapable cutoff f) (message_files md)"
    and "f = length (filter (reapable cutoff) (message_files md))"
    and "\<forall>md'. m = Some md' \<longrightarrow> me_name md' = me_name md"
proof -
  have "(case m of None \<Rightarrow> [] | Some md' \<Rightarrow> message_files md') =
      filter (\<lambda>f. \<not> reapable cutoff f) (message_files md) \<and>
    f = length (filter (reapable cutoff) (message_files md)) \<and>
    (\<forall>md'. m = Some md' \<longrightarrow> me_name md' = me_name md)"
  proof (cases "me_is_dir md \<and> me_files md \<noteq> None")
    case False
    with assms have "m = Some md" "f = 0" "message_files md = []"
      by (cases "me_is_dir md"; auto simp: sweep_message_def message_files_def)+
    then show ?thesis by simp
  next
    case True
    then obtain fs where fs: "me_is_dir md" "me_files md = Some fs" by auto
    show ?thesis
    proof (cases "filter (\<lambda>f. \<not> reapable cutoff f) fs = [] \<and> \<not> me_remove_fails md")
      case True
      with assms fs show ?thesis
        by (auto simp: sweep_message_def message_files_def sweep_files_spec Let_def)
    next
      case False
      then have "\<not> (length (filter (\<lambda>f. \<not> reapable cutoff f) fs) = 0 \<and> \<not> me_remove_fails md)"
        by simp
      with assms fs show ?thesis
        by (auto simp only: sweep_message_def sweep_files_spec Let_def prod.case option.case
            if_False not_True_eq_False prod.inject)
          (auto simp: message_files_def)
    qed
  qed
  then show "(case m of None \<Rightarrow> [] | Some md' \<Rightarrow> message_files md') =
      filter (\<lambda>f. \<not> reapable cutoff f) (message_files md)"
    and "f = length (filter (reapable cutoff) (message_files md))"
    and "\<forall>md'. m = Some md' \<longrightarrow> me_name md' = me_name md" by blast+
qed

lemma sweep_messages_files:
  "sweep_messages cutoff mds = (ms, f, d) \<Longrightarrow>
     concat (map (\<lambda>md. map (\<lambda>f. (c, me_name md, f)) (message_files md)) ms) =
       filter (\<lambda>(_, _, f). \<not> reapable cutoff f)
         (concat (map (\<lambda>md. map (\<lambda>f. (c, me_name md, f)) (message_files md)) mds)) \<and>
     f = length (filter (\<lambda>(_, _, f). reapable cutoff f)
         (concat (map (\<lambda>md. map (\<lambda>f. (c, me_name md, f)) (message_files md)) mds)))"
proof (induction mds arbitrary: ms f d)
  case (Cons md mds)
  obtain m f1 d1 where m: "sweep_message cutoff md = (m, f1, d1)" by (metis prod_cases3)
  obtain ms2 f2 d2 where ms: "sweep_messages cutoff mds = (ms2, f2, d2)" by (metis prod_cases3)
  note sm = sweep_message_files [OF m]
  have names: "(case m of None \<Rightarrow> [] | Some md' \<Rightarrow> map (\<lambda>f. (c, me_name md', f)) (message_files md')) =
    map (\<lambda>f. (c, me_name md, f)) (filter (\<lambda>f. \<not> reapable cutoff f) (message_files md))"
    using sm(1,3) by (cases m) auto
  from Cons m ms Cons.IH [OF ms] names sm(2) show ?case
    by (cases m) (auto simp: filter_map comp_def)
qed simp

lemma sweep_convs_files:
  "sweep_convs cutoff cds = (cs, f, d) \<Longrightarrow>
     concat (map conv_files cs) =
       filter (\<lambda>(_, _, f). \<not> reapable cutoff f) (concat (map conv_files cds)) \<and>
     f = length (filter (\<lambda>(_, _, f). reapable cutoff f) (concat (map conv_files cds)))"
proof (induction cds arbitrary: cs f d)
  case (Cons cd cds)
  obtain cs2 f2 d2 where cs: "sweep_convs cutoff cds = (cs2, f2, d2)" by (metis prod_cases3)
  show ?case
  proof (cases "ce_is_dir cd \<and> ce_messages cd \<noteq> None")
    case True
    then obtain mds where mds: "ce_is_dir cd" "ce_messages cd = Some mds" by auto
    obtain ms f1 d1 where ms: "sweep_messages cutoff mds = (ms, f1, d1)" by (metis prod_cases3)
    from Cons.prems Cons.IH [OF cs] sweep_messages_files [OF ms, of "ce_name cd"] cs ms mds
    show ?thesis by (auto simp: conv_files_def)
  next
    case False
    with Cons.prems cs have "cs = cd # cs2" "f = f2"
      by (cases "ce_is_dir cd"; auto)+
    moreover from False have "conv_files cd = []"
      by (cases "ce_is_dir cd") (auto simp: conv_files_def)
    ultimately show ?thesis using Cons.IH [OF cs] by simp
  qed
qed simp

text \<open>C24: A sweep removes exactly the regular files older than the TTL (that the system lets it
  remove): every other file of every conversation stays, in place, and the count it logs is the
  number of files removed.\<close>

theorem sweep_removes_exactly_stale_files:
  assumes "0 < ttl" "sweep_attachments_once ttl now convs = (convs', removed, dirs)"
  shows "all_files convs' = filter (\<lambda>(c, m, f). \<not> reapable (now - ttl) f) (all_files convs) \<and>
    removed = length (filter (\<lambda>(c, m, f). reapable (now - ttl) f) (all_files convs))"
proof (cases convs)
  case None
  with assms show ?thesis by (auto simp: sweep_attachments_once_def all_files_def)
next
  case (Some cds)
  obtain cs f d where "sweep_convs (now - ttl) cds = (cs, f, d)" by (metis prod_cases3)
  with Some assms sweep_convs_files [OF this] show ?thesis
    by (auto simp: sweep_attachments_once_def all_files_def)
qed

definition demo_files :: "file_entry list" where
  "demo_files = [\<lparr>fe_name = ''old'', fe_info = Some (True, 5), fe_remove_fails = False\<rparr>,
     \<lparr>fe_name = ''new'', fe_info = Some (True, 95), fe_remove_fails = False\<rparr>]"

definition demo_convs :: "conv_entry list option" where
  "demo_convs = Some [\<lparr>ce_name = ''c'', ce_is_dir = True, ce_messages =
     Some [\<lparr>me_name = ''m'', me_is_dir = True, me_files = Some demo_files, me_remove_fails = False\<rparr>]\<rparr>]"

theorem sweep_removes_exactly_stale_files_witness:
  "\<exists>convs' d. sweep_attachments_once 10 100 demo_convs = (convs', 1, d) \<and> length (all_files convs') = 1"
proof -
  obtain convs' r d where s: "sweep_attachments_once 10 100 demo_convs = (convs', r, d)"
    by (metis prod_cases3)
  from sweep_removes_exactly_stale_files [OF _ s] s show ?thesis
    by (simp add: demo_convs_def demo_files_def all_files_def conv_files_def message_files_def reapable_def)
qed

end
