(* ===== verification/Router_Properties.thy ===== *)
theory Router_Properties
  imports Router_Invariant Attachment_Sweep
begin

text \<open>
  What the router's operations promise beyond the invariant: the race of two creations, the
  configuration, the option parser, the debug snapshot, the directory of a conversation; and
  two places where the code falls short of its contract, stated as what it does.
\<close>

section \<open>Two creations of one conversation\<close>

lemma try_resume_objs: "ro_objs (snd (try_resume ag cwd r)) = ro_objs r"
  by (auto simp: try_resume_def Let_def log_calls_def split: sum.splits list.splits option.splits)

lemma open_session_other:
  assumes "open_session cfg ag mkdir now conv user r = (res, r')" "q \<noteq> ro_next_obj r"
  shows "ro_objs r' q = ro_objs r q"
proof (cases "mkdir (conv_cwd cfg conv)")
  case (Some e)
  with assms show ?thesis by (simp add: open_session_def Let_def)
next
  case None
  let ?r1 = "(upd_session (ro_next_obj r) (\<lambda>_. new_session_state now conv user (conv_cwd cfg conv)) r)
    \<lparr>ro_next_obj := Suc (ro_next_obj r)\<rparr>"
  obtain sido r2 where t: "try_resume ag (conv_cwd cfg conv) ?r1 = (sido, r2)" by fastforce
  with try_resume_objs [of ag "conv_cwd cfg conv" ?r1] assms(2)
  have "ro_objs r2 q = ro_objs r q" by (simp add: upd_session_def)
  with assms None t show ?thesis
    by (auto simp: open_session_def Let_def upd_session_def log_calls_def split: option.splits sum.splits)
qed

lemma open_session_next:
  assumes "open_session cfg ag mkdir now conv user r = (Inr (p, resumed), r')" "router_ok r"
  shows "p = ro_next_obj r" "unregistered r' conv p" "router_ok r'" "ro_sessions r' = ro_sessions r"
  using open_session_ok [OF assms(2,1)] by auto

text \<open>C16: When two requests create a session for the same conversation at once, both having missed
  the map, the first to install wins and both use its session; the loser's goroutines are
  stopped, it had nothing pending, it does not seed the prompt again, and nothing panics.\<close>

theorem create_race_has_one_winner:
  assumes "router_ok r" "map_of (ro_sessions r) conv = None"
    and "open_session cfg ag mkdir now conv user r = (Inr (p, resumed), r1)"
    and "open_session cfg ag' mkdir' now' conv user' r1 = (Inr (p', resumed'), r2)"
  shows "\<exists>r3 r4. create_finish conv query p resumed r2 = Inr ((p, \<not> resumed \<and> 1 < length query), r3) \<and>
    create_finish conv query' p' resumed' r3 = Inr ((p, False), r4) \<and> router_ok r4 \<and>
    ro_sessions r4 = (conv, p) # ro_sessions r \<and> ro_reqs r4 = ro_reqs r2 \<and> ro_events r4 = ro_events r2 \<and>
    ss_run_stop (ro_objs r4 p') \<and> ss_drain_stop (ro_objs r4 p') \<and> sq_stopped (ss_queue (ro_objs r4 p'))"
proof -
  note o1 = open_session_next [OF assms(3,1)]
  note o2 = open_session_next [OF assms(4) o1(3)]
  have lt: "p < ro_next_obj r1" using o1(2) by (simp add: unregistered_def session_ok_def)
  then have neq: "p \<noteq> p'" "p \<noteq> ro_next_obj r1" using o2(1) by auto
  have next2: "p < ro_next_obj r2"
    using o2(1,2) lt by (simp add: unregistered_def session_ok_def)
  have un: "unregistered r2 conv p"
    using o1(2) open_session_other [OF assms(4) neq(2)] next2 o2(4)
    by (simp add: unregistered_def session_ok_def pending_def)
  have none: "map_of (ro_sessions r2) conv = None" using assms(2) o1(4) o2(4) by simp
  from o2(3) un obtain w won r3 where i1: "install conv p r2 = Inr ((w, won), r3)" "router_ok r3"
    "map_of (ro_sessions r3) conv = Some w" "won \<longleftrightarrow> map_of (ro_sessions r2) conv = None"
    "ro_sessions r3 = (if won then (conv, p) # ro_sessions r2 else ro_sessions r2)"
    "won \<longrightarrow> w = p" "ro_events r3 = ro_events r2" "ro_reqs r3 = ro_reqs r2"
    "\<forall>q. won \<or> q \<noteq> p \<longrightarrow> ro_objs r3 q = ro_objs r2 q"
    by (rule install_ok) (rule that; assumption)
  have won: "won" "w = p" using i1(4,6) none by simp_all
  have i1': "install conv p r2 = Inr ((p, True), r2\<lparr>ro_sessions := (conv, p) # ro_sessions r2\<rparr>)"
    using none by (simp add: install_def)
  with i1(1) have r3: "r3 = r2\<lparr>ro_sessions := (conv, p) # ro_sessions r2\<rparr>" by auto
  have un': "unregistered r3 conv p'"
    using o2(2) neq(1) by (simp add: r3 unregistered_def session_ok_def pending_def)
  from i1(2) un' obtain w' won' r4 where i2: "install conv p' r3 = Inr ((w', won'), r4)" "router_ok r4"
    "map_of (ro_sessions r4) conv = Some w'" "won' \<longleftrightarrow> map_of (ro_sessions r3) conv = None"
    "ro_sessions r4 = (if won' then (conv, p') # ro_sessions r3 else ro_sessions r3)"
    "ro_events r4 = ro_events r3" "ro_reqs r4 = ro_reqs r3"
    "\<not> won' \<longrightarrow> ss_run_stop (ro_objs r4 p') \<and> ss_drain_stop (ro_objs r4 p') \<and>
       sq_stopped (ss_queue (ro_objs r4 p'))"
    by (rule install_ok) (rule that; assumption)
  have lost: "\<not> won'" "w' = p" using i2(3,4,5) i1(3) won by auto
  show ?thesis
    using i1 i2 won lost o1(4) o2(4) by (intro exI [of _ r3] exI [of _ r4]) (simp add: create_finish_def)
qed

theorem create_race_has_one_winner_witness:
  "\<exists>r4. length (ro_sessions r4) = 1 \<and> router_ok r4 \<and> ss_run_stop (ro_objs r4 1)"
proof -
  let ?r1 = "snd (open_session demo_config quiet_agent (\<lambda>_. None) 0 ''c'' ''u'' empty_router)"
  let ?r2 = "snd (open_session demo_config quiet_agent (\<lambda>_. None) 0 ''c'' ''v'' ?r1)"
  have 1: "open_session demo_config quiet_agent (\<lambda>_. None) 0 ''c'' ''u'' empty_router = (Inr (0, False), ?r1)"
    and 2: "open_session demo_config quiet_agent (\<lambda>_. None) 0 ''c'' ''v'' ?r1 = (Inr (1, False), ?r2)"
    by (simp_all add: open_session_def try_resume_def quiet_agent_def quiet_caps_def Let_def
        upd_session_def log_calls_def empty_router_def)
  have "map_of (ro_sessions empty_router) ''c'' = None" by simp
  from create_race_has_one_winner [OF empty_router_ok this 1 2, of "[]" "[]"] obtain r4 where
    "router_ok r4" "ro_sessions r4 = (''c'', 0) # ro_sessions empty_router" "ss_run_stop (ro_objs r4 1)"
    by blast
  then show ?thesis by (intro exI [of _ r4]) simp
qed

section \<open>Configuration, options, inspection\<close>

text \<open>Whatever the operator configures, a file is kept at least as long as the session that may
  refer to it: \<open>New\<close> ends with an attachment TTL no shorter than the session TTL, neither of
  them the unset value, so a sweep never removes a file younger than the session TTL.\<close>

theorem files_outlive_sessions:
  assumes "new_config mkdir cfg = Inr cfg'"
    and "sweep_attachments_once (cfg_attachment_ttl cfg') now convs = (convs', removed, dirs)"
  shows "cfg_session_ttl cfg' \<le> cfg_attachment_ttl cfg' \<and> cfg_session_ttl cfg' \<noteq> 0 \<and>
    (\<forall>(c, m, f) \<in> set (all_files convs). \<forall>reg mtime.
       fe_info f = Some (reg, mtime) \<and> now - cfg_session_ttl cfg' \<le> mtime \<longrightarrow>
       (c, m, f) \<in> set (all_files convs'))"
proof -
  from assms(1) have ttl: "cfg_session_ttl cfg' \<le> cfg_attachment_ttl cfg'" "cfg_session_ttl cfg' \<noteq> 0"
    by (auto simp: new_config_def Let_def hour_ns_def split: if_splits option.splits)
  have keep: "all_files convs' = filter (\<lambda>(c, m, f). \<not> reapable (now - cfg_attachment_ttl cfg') f) (all_files convs)"
    if "0 < cfg_attachment_ttl cfg'"
  proof (cases convs)
    case None
    with assms(2) that show ?thesis by (auto simp: sweep_attachments_once_def all_files_def)
  next
    case (Some cds)
    obtain cs f d where "sweep_convs (now - cfg_attachment_ttl cfg') cds = (cs, f, d)" by (metis prod_cases3)
    with Some assms(2) that sweep_convs_files [OF this] show ?thesis
      by (auto simp: sweep_attachments_once_def all_files_def)
  qed
  show ?thesis
  proof (cases "0 < cfg_attachment_ttl cfg'")
    case True
    with ttl keep show ?thesis by (auto simp: reapable_def)
  next
    case False
    with assms(2) ttl show ?thesis by (auto simp: sweep_attachments_once_def)
  qed
qed

theorem files_outlive_sessions_witness:
  "\<exists>cfg' convs' n d. new_config (\<lambda>_. None) (demo_config\<lparr>cfg_attachment_ttl := 5\<rparr>) = Inr cfg' \<and>
     sweep_attachments_once (cfg_attachment_ttl cfg') 100 demo_convs = (convs', n, d) \<and>
     cfg_session_ttl cfg' \<le> cfg_attachment_ttl cfg'"
proof -
  obtain cfg' where c: "new_config (\<lambda>_. None) (demo_config\<lparr>cfg_attachment_ttl := 5\<rparr>) = Inr cfg'"
    by (simp add: new_config_def demo_config_def Let_def)
  obtain convs' n d where s: "sweep_attachments_once (cfg_attachment_ttl cfg') 100 demo_convs = (convs', n, d)"
    by (metis prod_cases3)
  from files_outlive_sessions [OF c s] c s show ?thesis by blast
qed

section \<open>The background loop\<close>

text \<open>\<open>RunGC\<close>: at each tick the sessions are collected and the files swept. The ticks come with
  their two clock readings and the snapshot of the disk at that time.\<close>

definition gc_tick ::
  "router_config \<Rightarrow> int \<times> int \<times> conv_entry list option \<Rightarrow> router \<Rightarrow> go_panic + router \<times> conv_entry list option" where
  "gc_tick cfg t r =
     (case t of (now, now', disk) \<Rightarrow>
        map_sum id (\<lambda>r'. (r', fst (sweep_attachments_once (cfg_attachment_ttl cfg) now' disk))) (gc_once cfg now r))"

fun run_gc ::
  "router_config \<Rightarrow> (int \<times> int \<times> conv_entry list option) list \<Rightarrow> router \<Rightarrow> go_panic + router" where
  "run_gc cfg [] r = Inr r"
| "run_gc cfg (t # ts) r =
     (case gc_tick cfg t r of Inl p \<Rightarrow> Inl p | Inr (r', _) \<Rightarrow> run_gc cfg ts r')"

lemma run_gc_ok: "router_ok r \<Longrightarrow> \<exists>r'. run_gc cfg ts r = Inr r' \<and> router_ok r'"
proof (induction ts arbitrary: r)
  case (Cons t ts)
  from gc_once_ok [OF Cons.prems, of cfg "fst t"] obtain r1 where "gc_once cfg (fst t) r = Inr r1" "router_ok r1"
    by blast
  with Cons.IH [of r1] show ?case by (cases t) (auto simp: gc_tick_def)
qed simp

section \<open>Parameters and the debug page\<close>

text \<open>Parameters are untrusted: whatever a \<open>parameters\<close> object contains, the thinking level is one of
  the seven known ones or the default, a value of the wrong type leaves its default, unknown
  keys have no effect, and an empty object gives the defaults.\<close>

theorem parse_options_is_safe:
  "opt_thinking (parse_options ps d) \<in> insert (opt_thinking d) (set thinking_values) \<and>
   parse_options (\<lambda>_. None) d = d \<and>
   parse_options ps d = parse_options (ps |` {''model'', ''thinking'', ''hide_thinking''}) d \<and>
   parse_options ps d = d\<lparr>
     opt_model := (case ps ''model'' of Some (JString v) \<Rightarrow> v | _ \<Rightarrow> opt_model d),
     opt_thinking := (case ps ''thinking'' of
        Some (JString v) \<Rightarrow> if v \<in> set thinking_values then v else opt_thinking d | _ \<Rightarrow> opt_thinking d),
     opt_hide_thinking := (case ps ''hide_thinking'' of Some (JBool b) \<Rightarrow> b | _ \<Rightarrow> opt_hide_thinking d)\<rparr>"
proof -
  have eq: "parse_options ps d = d\<lparr>
     opt_model := (case ps ''model'' of Some (JString v) \<Rightarrow> v | _ \<Rightarrow> opt_model d),
     opt_thinking := (case ps ''thinking'' of
        Some (JString v) \<Rightarrow> if v \<in> set thinking_values then v else opt_thinking d | _ \<Rightarrow> opt_thinking d),
     opt_hide_thinking := (case ps ''hide_thinking'' of Some (JBool b) \<Rightarrow> b | _ \<Rightarrow> opt_hide_thinking d)\<rparr>" for ps
    by (cases "ps ''model''"; cases "ps ''thinking''"; cases "ps ''hide_thinking''")
      (simp_all add: parse_options_def Let_def split: json.splits)
  have "opt_thinking (parse_options ps d) \<in> insert (opt_thinking d) (set thinking_values)"
    unfolding eq by (simp split: option.splits json.splits)
  moreover have "parse_options (\<lambda>_. None) d = d" by (simp add: parse_options_def)
  ultimately show ?thesis
    using eq eq [of "ps |` {''model'', ''thinking'', ''hide_thinking''}"] by (simp add: restrict_map_def)
qed

text \<open>The debug snapshot lists every live session once, sorted by conversation id.\<close>

theorem debug_is_sorted_and_complete:
  assumes "router_ok r"
  shows "sorted_wrt (by_key di_conv_id) (debug r) \<and> length (debug r) = router_len r \<and>
    distinct (map di_conv_id (debug r)) \<and>
    di_conv_id ` set (debug r) = dom (map_of (ro_sessions r))"
proof -
  have conv: "di_conv_id (debug_of (ro_objs r (snd e))) = fst e" if "e \<in> set (ro_sessions r)" for e
    using that assms by (fastforce simp: router_ok_def session_ok_def debug_of_def Let_def)
  have "map (di_conv_id \<circ> (\<lambda>e. debug_of (ro_objs r (snd e)))) (ro_sessions r) = map fst (ro_sessions r)"
    using conv by simp
  from this [THEN arg_cong, of distinct] assms have "distinct (map di_conv_id (debug r))"
    by (simp add: debug_def router_ok_def)
  moreover have "di_conv_id ` set (debug r) = fst ` set (ro_sessions r)"
    using conv by (force simp: debug_def image_image)
  ultimately show ?thesis
    by (simp add: debug_def router_len_def sorted_sort_by dom_map_of_conv_image_fst)
qed

theorem debug_is_sorted_and_complete_witness:
  "length (debug empty_router) = router_len empty_router"
  using debug_is_sorted_and_complete [OF empty_router_ok] by blast

section \<open>The directory of a conversation\<close>

text \<open>A conversation whose id is an ordinary file name works in its own directory below
  \<open><StateDir>/convs\<close>, and different conversations in different ones.\<close>

theorem conversations_have_own_directories:
  assumes "is_abs (cfg_state_dir cfg)" "plain_name c" "plain_name c'"
  shows "clean_comps (conv_cwd cfg c) = clean_comps (cfg_state_dir cfg) @ [''convs'', c] \<and>
    below (path_join [cfg_state_dir cfg, ''convs'']) (conv_cwd cfg c) \<and>
    (conv_cwd cfg c = conv_cwd cfg c' \<longleftrightarrow> c = c')"
proof -
  let ?sd = "cfg_state_dir cfg"
  have ne: "?sd \<noteq> []" using assms(1) by (auto simp: is_abs_def has_prefix_def)
  have convs: "plain_name ''convs''" by (simp add: plain_name_def)
  have a: "is_abs (?sd @ slash # ''convs'')" using is_abs_append [OF ne] assms(1) by blast
  have comps: "clean_comps (conv_cwd cfg x) = clean_comps ?sd @ [''convs'', x]" "is_abs (conv_cwd cfg x)"
    if "plain_name x" for x
  proof -
    have j: "conv_cwd cfg x = path_clean ((?sd @ slash # ''convs'') @ slash # x)"
      using ne by (simp add: conv_cwd_def path_join_def)
    have a2: "is_abs ((?sd @ slash # ''convs'') @ slash # x)"
      using is_abs_append [of "?sd @ slash # ''convs''" "slash # x"] a by simp
    show "is_abs (conv_cwd cfg x)" unfolding j by (rule clean_comps_clean [OF a2])
    show "clean_comps (conv_cwd cfg x) = clean_comps ?sd @ [''convs'', x]"
      unfolding j clean_comps_clean(1) [OF a2]
      using clean_comps_snoc [OF that, of "?sd @ slash # ''convs''"] clean_comps_snoc [OF convs ne] ne
      by simp
  qed
  have "below (path_join [?sd, ''convs'']) (conv_cwd cfg c)"
    using comps [OF assms(2)] join_local [OF assms(1) plain_name_local [OF convs]]
      plain_name_comps [OF convs] by (simp add: below_def)
  moreover have "c = c'" if "conv_cwd cfg c = conv_cwd cfg c'"
  proof -
    from that have "clean_comps ?sd @ [''convs'', c] = clean_comps ?sd @ [''convs'', c']"
      by (metis comps(1) assms(2,3))
    then show ?thesis by (simp only: same_append_eq list.inject)
  qed
  ultimately show ?thesis using comps(1) [OF assms(2)] by blast
qed

theorem conversations_have_own_directories_witness:
  "below (path_join [''/s'', ''convs'']) (conv_cwd demo_config ''c1'')"
  using conversations_have_own_directories [of demo_config "''c1''" "''c2''"]
  by (simp add: demo_config_def is_abs_def has_prefix_def plain_name_def)

text \<open>The conversation id is not checked: the id \<open>..\<close> makes the state directory itself the
  conversation's working directory, and \<open>../..\<close> its parent, outside \<open>convs\<close>.\<close>

theorem hostile_conversation_id_escapes:
  assumes "is_abs (cfg_state_dir cfg)"
  shows "clean_comps (conv_cwd cfg ''..'') = clean_comps (cfg_state_dir cfg) \<and>
    clean_comps (conv_cwd cfg ''../..'') = butlast (clean_comps (cfg_state_dir cfg)) \<and>
    \<not> below (path_join [cfg_state_dir cfg, ''convs'']) (conv_cwd cfg ''..'')"
proof -
  let ?sd = "cfg_state_dir cfg"
  have ne: "?sd \<noteq> []" using assms by (auto simp: is_abs_def has_prefix_def)
  define base where "base = fold (clean_step True) (split_byte slash ?sd) []"
  have base: "clean_comps ?sd = rev base" using assms by (simp add: base_def clean_comps_def)
  have plain: "list_all proper base"
    unfolding base_def by (rule clean_fold_rooted) simp
  have a: "is_abs (?sd @ slash # x)" for x using is_abs_append [OF ne] assms by blast
  have cw: "clean_comps (conv_cwd cfg x) = rev (fold (clean_step True) (split_byte slash x) (''convs'' # base))"
    if "x \<noteq> []" for x
  proof -
    have "conv_cwd cfg x = path_clean (?sd @ slash # ''convs'' @ slash # x)"
      using ne that by (simp add: conv_cwd_def path_join_def)
    moreover have "split_byte slash (?sd @ slash # ''convs'' @ slash # x) =
      split_byte slash ?sd @ ''convs'' # split_byte slash x"
      using split_byte_append_sep [of slash ?sd "''convs'' @ slash # x"]
        split_byte_append [of slash "''convs''" x] by simp
    ultimately show ?thesis
      using clean_comps_clean(1) [OF a [of "''convs'' @ slash # x"]] a [of "''convs'' @ slash # x"]
      by (simp add: clean_comps_def base_def)
  qed
  have up: "clean_comps (conv_cwd cfg ''..'') = rev base" by (subst cw) simp_all
  have up2: "clean_comps (conv_cwd cfg ''../..'') = rev (tl base)"
    using plain by (subst cw) (cases base; simp add: proper_def)+
  have "clean_comps (path_join [?sd, ''convs'']) = rev base @ [''convs'']"
    using join_local(2) [OF assms plain_name_local, of "''convs''"] plain_name_comps [of "''convs''"] base
    by (simp add: plain_name_def)
  then have "\<not> below (path_join [?sd, ''convs'']) (conv_cwd cfg ''..'')"
    using up by (simp add: below_def)
  with up up2 base show ?thesis by (cases base) simp_all
qed

theorem hostile_conversation_id_escapes_witness:
  "\<not> below (path_join [''/s'', ''convs'']) (conv_cwd demo_config ''..'')"
  using hostile_conversation_id_escapes [of demo_config]
  by (simp add: demo_config_def is_abs_def has_prefix_def)

section \<open>Collection against a concurrent prompt\<close>

text \<open>\<open>gcOnce\<close> looks at a queue and stops it in two critical sections of the queue, and a prompt
  that found its session before does not take the router's lock to push. A user turn pushed in
  between is accepted and then shed: its \<open>done\<close> is closed, \<open>Prompt\<close> returns no error, and its
  sink never gets \<open>Done\<close>.\<close>

theorem gc_can_lose_an_accepted_prompt:
  assumes "router_ok r" "map_of (ro_sessions r) conv = Some p" "expired cutoff r (conv, p)"
  shows "\<exists>i r1 r2. submit p (user_req ctx k opts blocks now) r = Inr (Some i, r1) \<and>
    stop_session p r1 = Inr r2 \<and> rs_shed (ro_reqs r2 i) \<and> prompt_result i None r2 = Some (rs_err (ro_reqs r i)) \<and>
    ro_events r2 = ro_events r"
proof -
  let ?mk = "user_req ctx k opts blocks now" and ?sq = "ss_queue (ro_objs r p)"
  have sk: "session_ok r conv p" using registered [OF assms(1,2)] .
  have q: "sq_q ?sq = []" using assms(3) by (simp add: expired_def idle_def)
  have ns: "\<not> sq_stopped ?sq" "\<not> ss_drain_stop (ro_objs r p)" "\<not> ss_run_stop (ro_objs r p)"
    using sk by (auto simp: session_ok_def Let_def)
  have fresh: "\<not> req_done r (ro_next_req r)"
    using assms(1) by (simp add: router_ok_def ids_ok_def)
  let ?req = "?mk (ro_next_req r)"
  let ?r1 = "(upd_session p (\<lambda>st. st\<lparr>ss_queue := enqueue ?req ?sq\<rparr>)
    (r\<lparr>ro_next_req := Suc (ro_next_req r)\<rparr>))\<lparr>ro_reqs := ro_reqs r\<rparr>"
  have push: "push ?req ?sq (ro_reqs r) = Inr (True, enqueue ?req ?sq, ro_reqs r)"
    using q ns(1) by (simp add: push_def session_queue_cap_def)
  then have 1: "submit p ?mk r = Inr (Some (ro_next_req r), ?r1)"
    by (simp add: submit_def Let_def upd_session_def user_req_def)
  have 2: "stop_session p ?r1 = Inr ((upd_session p (\<lambda>st. st\<lparr>ss_drain_stop := True, ss_run_stop := True,
      ss_queue := (enqueue ?req ?sq)\<lparr>sq_stopped := True, sq_q := []\<rparr>\<rparr>) ?r1)
      \<lparr>ro_reqs := (ro_reqs r)(ro_next_req r := (ro_reqs r (ro_next_req r))\<lparr>rs_shed := True, rs_done := True\<rparr>)\<rparr>)"
    using ns fresh q
    by (simp add: stop_session_def Let_def upd_session_def stop_queue_def close_done_def set_shed_def user_req_def)
  show ?thesis
    by (rule exI, rule exI, rule exI, rule conjI [OF 1], rule conjI [OF 2])
      (simp add: prompt_result_def upd_session_def split: option.splits)
qed

theorem gc_can_lose_an_accepted_prompt_witness:
  "\<exists>i r1 r2. submit 0 (user_req 0 (HttpSink 0) no_options [TextBlock ''hi''] 0)
      (empty_router\<lparr>ro_sessions := [(''c'', 0)], ro_next_obj := 1\<rparr>) = Inr (Some i, r1) \<and>
    stop_session 0 r1 = Inr r2 \<and> prompt_result i None r2 = Some None \<and> ro_events r2 = []"
proof -
  let ?r = "empty_router\<lparr>ro_sessions := [(''c'', 0)], ro_next_obj := 1\<rparr>"
  have "router_ok ?r"
    by (simp add: router_ok_def session_ok_def ids_ok_def pending_def quiet_session_def new_session_queue_def)
  moreover have "expired 1 ?r (''c'', 0)"
    by (simp add: expired_def idle_def quiet_session_def new_session_queue_def)
  ultimately show ?thesis
    using gc_can_lose_an_accepted_prompt [of ?r "''c''" 0 1 0 "HttpSink 0" no_options "[TextBlock ''hi'']" 0] by auto
qed

end
