(* ===== verification/Conversation.thy ===== *)
theory Conversation
  imports Router_Properties "HOL-Library.Sublist"
begin

text \<open>
  A conversation as Poe sees it: queries that repeat the whole transcript and grow by one user
  message each, over any number of collections and of operations on other conversations, starting
  from a relay that does not know the conversation (it is new, or the relay was restarted). The
  router keeps no transcript (internal/router/router.go, \<open>Prompt\<close> and \<open>getOrCreate\<close>): it sends the
  latest message to a session it has, and the whole transcript to one it creates. The first section
  shows what operations on other conversations leave alone; the following ones that the agent's
  session has been told every message of the user; the last the one case where it has not.
\<close>

section \<open>What other operations leave alone\<close>

text \<open>\<open>keeps c r r'\<close>: the session of the conversation \<open>c\<close> and what is queued on it are as they were,
  and the history of calls has only grown.\<close>

definition keeps :: "gostring \<Rightarrow> router \<Rightarrow> router \<Rightarrow> bool" where
  "keeps c r r' \<longleftrightarrow>
     map_of (ro_sessions r') c = map_of (ro_sessions r) c \<and> set (ro_calls r) \<subseteq> set (ro_calls r') \<and>
     (\<forall>p. map_of (ro_sessions r) c = Some p \<longrightarrow>
       ss_session_id (ro_objs r' p) = ss_session_id (ro_objs r p) \<and>
       sq_q (ss_queue (ro_objs r' p)) = sq_q (ss_queue (ro_objs r p)))"

lemma keeps_refl [simp]: "keeps c r r"
  by (simp add: keeps_def)

lemma keeps_trans: "keeps c r r1 \<Longrightarrow> keeps c r1 r2 \<Longrightarrow> keeps c r r2"
  by (auto simp: keeps_def)

lemma keepsI:
  assumes "map_of (ro_sessions r') c = map_of (ro_sessions r) c" "set (ro_calls r) \<subseteq> set (ro_calls r')"
    and "\<And>p. map_of (ro_sessions r) c = Some p \<Longrightarrow>
      ss_session_id (ro_objs r' p) = ss_session_id (ro_objs r p) \<and>
      sq_q (ss_queue (ro_objs r' p)) = sq_q (ss_queue (ro_objs r p))"
  shows "keeps c r r'"
  using assms by (simp add: keeps_def)

lemma keeps_emit [simp]: "keeps c r (emit k es r') = keeps c r r'"
  by (simp add: keeps_def emit_def)

lemma keeps_log [simp]: "keeps c r (log_calls cs r)"
  by (auto simp: keeps_def log_calls_def)

lemma keeps_files [simp]: "keeps c r (r\<lparr>ro_files := fs\<rparr>)"
  by (simp add: keeps_def)

lemma try_resume_calls: "set (ro_calls r) \<subseteq> set (ro_calls (snd (try_resume ag cwd r)))"
  by (auto simp: try_resume_def Let_def log_calls_def split: sum.splits list.splits option.splits)

lemma open_session_calls:
  assumes "open_session cfg ag mkdir now c user r = (res, r')"
  shows "set (ro_calls r) \<subseteq> set (ro_calls r')"
proof (cases "mkdir (conv_cwd cfg c)")
  case (Some e)
  with assms show ?thesis by (simp add: open_session_def Let_def)
next
  case None
  let ?r1 = "(upd_session (ro_next_obj r) (\<lambda>_. new_session_state now c user (conv_cwd cfg c)) r)
    \<lparr>ro_next_obj := Suc (ro_next_obj r)\<rparr>"
  obtain sido r2 where t: "try_resume ag (conv_cwd cfg c) ?r1 = (sido, r2)" by fastforce
  with try_resume_calls [of ?r1 ag "conv_cwd cfg c"]
  have "set (ro_calls r) \<subseteq> set (ro_calls r2)" by (simp add: upd_session_def)
  with assms None t show ?thesis
    by (auto simp: open_session_def Let_def upd_session_def log_calls_def split: option.splits sum.splits)
qed

lemma open_session_keeps:
  assumes ok: "router_ok r" and o: "open_session cfg ag mkdir now c' user r = (res, r')"
  shows "keeps c r r'"
proof (rule keepsI)
  show "map_of (ro_sessions r') c = map_of (ro_sessions r) c" using open_session_ok(2) [OF ok o] by simp
  show "set (ro_calls r) \<subseteq> set (ro_calls r')" by (rule open_session_calls [OF o])
  fix p assume "map_of (ro_sessions r) c = Some p"
  then have "p \<noteq> ro_next_obj r" using registered [OF ok] by (auto simp: session_ok_def)
  from open_session_other [OF o this]
  show "ss_session_id (ro_objs r' p) = ss_session_id (ro_objs r p) \<and>
      sq_q (ss_queue (ro_objs r' p)) = sq_q (ss_queue (ro_objs r p))" by simp
qed

lemma other_object:
  "router_ok r \<Longrightarrow> map_of (ro_sessions r) c = Some p \<Longrightarrow> map_of (ro_sessions r) c' = Some p' \<Longrightarrow>
     c' \<noteq> c \<Longrightarrow> p \<noteq> p'"
  using registered [of r c p] registered [of r c' p'] by (auto simp: session_ok_def Let_def)

lemma get_or_create_keeps:
  assumes ok: "router_ok r" and c: "c' \<noteq> c"
    and g: "get_or_create cfg ag mkdir now c' user query r = Inr (res, r')"
  shows "keeps c r r'"
proof (cases "map_of (ro_sessions r) c'")
  case (Some q)
  with g show ?thesis by (simp add: get_or_create_def)
next
  case None
  obtain o1 r1 where o: "open_session cfg ag mkdir now c' user r = (o1, r1)" by fastforce
  note k = open_session_keeps [OF ok o, of c]
  show ?thesis
  proof (cases o1)
    case (Inl e)
    with g None o k show ?thesis by (simp add: get_or_create_def)
  next
    case (Inr pr)
    then obtain p resumed where p: "o1 = Inr (p, resumed)" by (cases pr) auto
    have un: "unregistered r1 c' p" and ok1: "router_ok r1" using open_session_ok(1,4) [OF ok o] p by blast+
    from install_ok [OF ok1 un] obtain w won r2 where i: "install c' p r1 = Inr ((w, won), r2)"
      "ro_sessions r2 = (if won then (c', p) # ro_sessions r1 else ro_sessions r1)"
      "ro_calls r2 = ro_calls r1" "\<forall>q. won \<or> q \<noteq> p \<longrightarrow> ro_objs r2 q = ro_objs r1 q" by metis
    have "keeps c r1 r2"
    proof (rule keepsI)
      fix q assume q: "map_of (ro_sessions r1) c = Some q"
      then have "q \<noteq> p" using un by (auto simp: unregistered_def image_iff dest!: map_of_SomeD)
      with i(4) show "ss_session_id (ro_objs r2 q) = ss_session_id (ro_objs r1 q) \<and>
          sq_q (ss_queue (ro_objs r2 q)) = sq_q (ss_queue (ro_objs r1 q))" by simp
    qed (use i c in simp_all)
    moreover have "r' = r2" using g None o p i(1) by (simp add: get_or_create_def create_finish_def)
    ultimately show ?thesis using k keeps_trans by blast
  qed
qed

lemma submit_keeps:
  assumes "submit p' mk r = Inr (res, r')" and other: "\<And>p. map_of (ro_sessions r) c = Some p \<Longrightarrow> p \<noteq> p'"
  shows "keeps c r r'"
proof (rule keepsI)
  fix p assume "map_of (ro_sessions r) c = Some p"
  then have "p \<noteq> p'" by (rule other)
  with assms(1) show "ss_session_id (ro_objs r' p) = ss_session_id (ro_objs r p) \<and>
      sq_q (ss_queue (ro_objs r' p)) = sq_q (ss_queue (ro_objs r p))"
    by (auto simp: submit_def Let_def upd_session_def split: sum.splits)
qed (use assms(1) in \<open>auto simp: submit_def Let_def upd_session_def split: sum.splits\<close>)

lemma prompt_blocks_keeps:
  "prompt_blocks cfg ag env query fresh cwd r = Inr (bs, r') \<Longrightarrow> keeps c r r'"
  by (auto simp: prompt_blocks_def Let_def split: option.splits sum.splits)


lemma prompt_submit_keeps:
  assumes ok: "router_ok r" and disk: "disk_ok env" and c: "conv_key conv \<noteq> c"
    and s: "prompt_submit cfg ag mkdir env now now' ctx conv user query opts k r = Inr (res, r')"
  shows "keeps c r r'"
proof (cases "latest_user_text query = []")
  case True
  with s show ?thesis by (auto simp: prompt_submit_def)
next
  case nonempty: False
  from ok show ?thesis
  proof (cases rule: get_or_create_ok [where cfg = cfg and ag = ag and mkdir = mkdir and now = now
        and c = "conv_key conv" and user = user and query = query])
    case (failed e r1)
    with s nonempty get_or_create_keeps [OF ok c failed(1)] show ?thesis by (auto simp: prompt_submit_def)
  next
    case (found p fresh r1)
    obtain bs r2 where b: "prompt_blocks cfg ag env query fresh (ss_cwd (ro_objs r1 p)) r1 = Inr (bs, r2)"
      "same_core r1 r2"
      by (rule prompt_blocks_ok [OF disk, of cfg ag query fresh "ss_cwd (ro_objs r1 p)" r1])
    have k2: "keeps c r r2"
      using get_or_create_keeps [OF ok c found(1)] prompt_blocks_keeps [OF b(1)] keeps_trans by blast
    have sess: "ro_sessions r2 = ro_sessions r1" by (rule same_core_sessions [OF b(2)])
    obtain res' r3 where sub: "submit p (user_req ctx k opts bs now') r2 = Inr (res', r3)"
      "r' = r3 \<or> r' = emit k [EvError ''relay: session unavailable'' ''user_caused_error'', EvDone] r3"
      using s nonempty found(1) b(1) by (auto simp: prompt_submit_def split: sum.splits option.splits prod.splits)
    have "keeps c r2 r3"
      by (rule submit_keeps [OF sub(1)], unfold sess)
        (rule other_object [OF found(2) _ found(3) c])
    with k2 have "keeps c r r3" by (rule keeps_trans)
    with sub(2) show ?thesis by auto
  qed
qed

lemma report_reaction_keeps:
  assumes ok: "router_ok r" and c: "conv_key conv \<noteq> c"
    and s: "report_reaction U cfg ag mkdir now now' ctx conv user msg kind action r = Inr (res, r')"
  shows "keeps c r r'"
  using ok
proof (cases rule: get_or_create_ok [where cfg = cfg and ag = ag and mkdir = mkdir and now = now
      and c = "conv_key conv" and user = user and query = "[]"])
  case (failed e r1)
  with s get_or_create_keeps [OF ok c failed(1)] show ?thesis by (auto simp: report_reaction_def)
next
  case (found p fresh r1)
  obtain res' where sub: "submit p (reaction_req U ctx (conv_key conv) msg kind action now') r1 = Inr (res', r')"
    using s found(1) by (auto simp: report_reaction_def split: sum.splits)
  have "keeps c r1 r'"
    by (rule submit_keeps [OF sub]) (rule other_object [OF found(2) _ found(3) c])
  with get_or_create_keeps [OF ok c found(1)] show ?thesis by (rule keeps_trans)
qed

lemma finish_turn_calls: "finish_turn now p req r = Inr r' \<Longrightarrow> ro_calls r' = ro_calls r"
  by (auto simp: finish_turn_def Let_def split: sum.splits)

lemma run_one_turn_calls:
  assumes "run_one_turn cfg ag now now' p req r = Inr r'"
  shows "set (ro_calls r) \<subseteq> set (ro_calls r')"
proof (cases "stale_reaction now req")
  case True
  with assms show ?thesis by (auto simp: run_one_turn_def dest!: finish_turn_calls)
next
  case False
  let ?r1 = "option_step ag p req r"
  let ?r2 = "snd (inline_step cfg p req ?r1)" and ?bs = "fst (inline_step cfg p req ?r1)"
  obtain us res where a: "ag_prompt ag (ss_session_id (ro_objs ?r2 p)) ?bs = (us, res)" by fastforce
  have "finish_turn now' p req (conclude_step req res (snd (prompt_step ag p req ?bs ?r2))) = Inr r'"
    using assms False prompt_step_effects(1) [OF a, of req] by (simp add: run_one_turn_def Let_def split_beta)
  from finish_turn_calls [OF this] show ?thesis
    using prompt_step_effects(3) [OF a, of req]
    by (auto simp: conclude_step_effects inline_step_effects option_step_effects)
qed

lemma run_turns_iter_keeps:
  assumes "run_turns_iter cfg ag now now' p' r = Some (Inr r')"
    and other: "\<And>p. map_of (ro_sessions r) c = Some p \<Longrightarrow> p \<noteq> p'"
  shows "keeps c r r'"
proof -
  from assms(1) obtain req sq r1 where r1: "try_pop (ss_queue (ro_objs r p')) = Some (req, sq)"
    "run_one_turn cfg ag now now' p' req (upd_session p' (\<lambda>st. st\<lparr>ss_queue := sq\<rparr>) r) = Inr r1"
    "r' = upd_session p' (\<lambda>st. st\<lparr>ss_queue := finish_in_flight (ss_queue st)\<rparr>) r1"
    by (auto simp: run_turns_iter_def split: option.splits sum.splits)
  note shape = run_one_turn_shape [OF r1(2)]
  show ?thesis
  proof (rule keepsI)
    show "set (ro_calls r) \<subseteq> set (ro_calls r')"
      using run_one_turn_calls [OF r1(2)] by (simp add: r1(3) upd_session_def)
    show "map_of (ro_sessions r') c = map_of (ro_sessions r) c"
      using shape by (simp add: r1(3) upd_session_def same_shape_def)
    fix p assume "map_of (ro_sessions r) c = Some p"
    then have "p \<noteq> p'" by (rule other)
    with shape show "ss_session_id (ro_objs r' p) = ss_session_id (ro_objs r p) \<and>
        sq_q (ss_queue (ro_objs r' p)) = sq_q (ss_queue (ro_objs r p))"
      by (simp add: r1(3) upd_session_def same_shape_def)
  qed
qed

text \<open>The conversation whose turns an operation queues or runs.\<close>

fun concerns :: "router_op \<Rightarrow> gostring option" where
  "concerns (OpPrompt ctx conv user q opts k) = Some (conv_key conv)"
| "concerns (OpReaction ctx conv user msg kind action) = Some (conv_key conv)"
| "concerns (OpTurn c) = Some c"
| "concerns OpGc = None"
| "concerns (OpCancel c) = None"

lemma cancel_keeps: "keeps c r (snd (cancel ag conv r))"
  by (simp add: cancel_def Let_def split: option.splits)

lemma router_step_keeps:
  assumes ok: "router_ok r" and disk: "disk_ok (oe_att e)" and op: "concerns op \<noteq> Some c" "op \<noteq> OpGc"
    and s: "router_step cfg e op r = Inr r'"
  shows "keeps c r r'"
proof (cases op)
  case (OpPrompt ctx conv user q opts k)
  with s obtain res where "prompt_submit cfg (oe_agent e) (oe_mkdir e) (oe_att e) (oe_now e) (oe_now e)
      ctx conv user q opts k r = Inr (res, r')" by (auto elim!: map_sum_InrE)
  from prompt_submit_keeps [OF ok disk _ this] op OpPrompt show ?thesis by simp
next
  case (OpReaction ctx conv user msg kind action)
  with s obtain res where "report_reaction (oe_unicode e) cfg (oe_agent e) (oe_mkdir e) (oe_now e) (oe_now e)
      ctx conv user msg kind action r = Inr (res, r')" by (auto elim!: map_sum_InrE)
  from report_reaction_keeps [OF ok _ this] op OpReaction show ?thesis by simp
next
  case (OpTurn c')
  show ?thesis
  proof (cases "map_of (ro_sessions r) c'")
    case None
    with s OpTurn show ?thesis by simp
  next
    case (Some p')
    with s OpTurn have "r' = r \<or> run_turns_iter cfg (oe_agent e) (oe_now e) (oe_now e) p' r = Some (Inr r')"
      by (auto split: option.splits)
    then show ?thesis
    proof
      assume run: "run_turns_iter cfg (oe_agent e) (oe_now e) (oe_now e) p' r = Some (Inr r')"
      show ?thesis
        by (rule run_turns_iter_keeps [OF run], rule other_object [OF ok _ Some]) (use op(1) OpTurn in auto)
    qed simp
  qed
qed (use s op cancel_keeps in auto)


section \<open>What the agent has been told\<close>

definition user_turns :: "turn list \<Rightarrow> turn list" where
  "user_turns q = filter (\<lambda>t. t_role t = ''user'') q"

text \<open>The text is part of a text block that was sent to the agent's session.\<close>

fun block_tells :: "gostring \<Rightarrow> content_block \<Rightarrow> bool" where
  "block_tells s (TextBlock t) = sublist s t"
| "block_tells s b = False"

fun call_tells :: "gostring \<Rightarrow> gostring \<Rightarrow> agent_call \<Rightarrow> bool" where
  "call_tells sid s (CallPrompt i bs) = (i = sid \<and> (\<exists>b \<in> set bs. block_tells s b))"
| "call_tells sid s c = False"

definition told :: "gostring \<Rightarrow> gostring \<Rightarrow> agent_call list \<Rightarrow> bool" where
  "told sid s cs \<longleftrightarrow> (\<exists>c \<in> set cs. call_tells sid s c)"

lemma told_mono: "told sid s cs \<Longrightarrow> set cs \<subseteq> set cs' \<Longrightarrow> told sid s cs'"
  by (auto simp: told_def)

lemma block_tells_part: "block_tells s b \<Longrightarrow> sublist s' s \<Longrightarrow> block_tells s' b"
  by (cases b) (auto intro: sublist_order.order_trans)

lemma told_part: "told sid s cs \<Longrightarrow> sublist s' s \<Longrightarrow> told sid s' cs"
proof -
  assume t: "told sid s cs" and s': "sublist s' s"
  from t obtain c where c: "c \<in> set cs" "call_tells sid s c" by (auto simp: told_def)
  from c(2) have "call_tells sid s' c" by (cases c) (auto intro: block_tells_part [OF _ s'])
  with c(1) show ?thesis by (auto simp: told_def)
qed

lemma turn_blocks_tell:
  assumes "rq_blocks req = TextBlock t # rest"
  shows "\<exists>b \<in> set (turn_blocks cfg st req). block_tells t b"
proof -
  have "sublist t (xs @ ys @ t)" for xs ys :: gostring
    by (metis append.assoc sublist_appendI append_Nil2)
  then show ?thesis by (auto simp: turn_blocks_def assms inline_blocks_def)
qed

lemma turn_calls_tell:
  assumes "rq_blocks req = TextBlock t # rest"
  shows "told (ss_session_id st) t (turn_calls cfg ag st req)"
  using turn_blocks_tell [OF assms, of cfg st] by (auto simp: told_def turn_calls_def)

text \<open>The texts that \<open>Prompt\<close> sends: the latest user message, or the transcript that holds them all.\<close>

lemma find_rev_last: "find P (rev xs) = (if filter P xs = [] then None else Some (last (filter P xs)))"
  by (induction xs rule: rev_induct) auto

lemma latest_text_last:
  "user_turns q \<noteq> [] \<Longrightarrow> latest_user_text q = t_content (last (user_turns q))"
  by (simp add: latest_user_text_def latest_user_turn_ref_def find_rev_last user_turns_def)

lemma no_latest_text: "user_turns q = [] \<Longrightarrow> latest_user_text q = []"
  by (simp add: latest_user_text_def latest_user_turn_ref_def find_rev_last user_turns_def)

lemma sublist_concat: "x \<in> set xs \<Longrightarrow> sublist x (concat xs)"
  by (metis concat.simps(2) concat_append in_set_conv_decomp sublist_appendI)

lemma sublist_append2: "sublist ys (xs @ xs' @ ys @ zs)"
  by (metis append.assoc sublist_appendI)

lemma transcript_tells:
  assumes "t \<in> set q"
  shows "sublist (t_content t) (flatten_transcript q)"
proof -
  let ?line = "\<lambda>t. role_label (t_role t) @ '': '' @ t_content t @ [nl, nl]"
  have "?line t \<in> set (map ?line q)" using assms unfolding set_map by (rule imageI)
  then have 1: "sublist (?line t) (concat (map ?line q))" by (rule sublist_concat)
  have "sublist (t_content t) (?line t)"
    by (rule sublist_append2)
  with 1 have "sublist (t_content t) (concat (map ?line q))" by (rule sublist_order.order_trans [rotated])
  also have "sublist (concat (map ?line q)) (flatten_transcript q)"
    unfolding flatten_transcript_def by (rule sublist_append2)
  finally show ?thesis .
qed

lemma seed_tells:
  assumes "t \<in> set (user_turns q)"
  shows "sublist (t_content t) (if 1 < length q then flatten_transcript q else latest_user_text q)"
proof (cases "1 < length q")
  case True
  with assms transcript_tells [of t q] show ?thesis by (simp add: user_turns_def)
next
  case False
  with assms have "user_turns q = [t]" by (cases q) (auto simp: user_turns_def split: if_splits)
  with False latest_text_last [of q] show ?thesis by simp
qed

text \<open>The first block of a prompt is its text.\<close>

lemma prompt_blocks_head:
  "prompt_blocks cfg ag env query fresh cwd r = Inr (bs, r') \<Longrightarrow>
     \<exists>rest. bs = TextBlock (if fresh then flatten_transcript query else latest_user_text query) # rest"
  by (auto simp: prompt_blocks_def Let_def split: option.splits sum.splits)


section \<open>One query\<close>

text \<open>The session of the conversation has nothing queued and has been told these messages.\<close>

definition conv_told :: "gostring \<Rightarrow> turn list \<Rightarrow> router \<Rightarrow> bool" where
  "conv_told c us r \<longleftrightarrow> (\<forall>p. map_of (ro_sessions r) c = Some p \<longrightarrow>
     sq_q (ss_queue (ro_objs r p)) = [] \<and>
     (\<forall>t \<in> set us. t_content t \<noteq> [] \<longrightarrow> told (ss_session_id (ro_objs r p)) (t_content t) (ro_calls r)))"

lemma conv_told_keeps: "keeps c r r' \<Longrightarrow> conv_told c us r \<Longrightarrow> conv_told c us r'"
  by (auto simp: keeps_def conv_told_def intro: told_mono)

text \<open>The agent cannot resume sessions by itself.\<close>

definition forgets :: "agent_env \<Rightarrow> bool" where
  "forgets ag \<longleftrightarrow> \<not> (cap_list_sessions (ag_caps ag) \<and> cap_resume_session (ag_caps ag))"

lemma forgets_no_resume: "forgets ag \<Longrightarrow> try_resume ag cwd r = (None, r)"
  by (auto simp: forgets_def try_resume_def)

text \<open>A miss: the session that is opened is empty, and is seeded if there is a transcript.\<close>

lemma miss_opens:
  assumes ok: "router_ok r" and none: "map_of (ro_sessions r) c = None" and f: "forgets ag"
    and g: "get_or_create cfg ag mkdir now c user query r = Inr (Inr (p, fresh), r')"
  shows "sq_q (ss_queue (ro_objs r' p)) = []" "fresh \<longleftrightarrow> 1 < length query"
proof -
  obtain o1 r1 where o: "open_session cfg ag mkdir now c user r = (o1, r1)" by fastforce
  with g none obtain p0 resumed where p0: "o1 = Inr (p0, resumed)"
    by (cases o1) (auto simp: get_or_create_def)
  have res: "\<not> resumed"
    using o unfolding p0 open_session_def
    by (auto simp: Let_def forgets_no_resume [OF f] split: option.splits sum.splits)
  note os = open_session_ok [OF ok o]
  have un: "unregistered r1 c p0" using os(4) p0 by blast
  from install_ok [OF os(1) un] obtain w won r2 where i: "install c p0 r1 = Inr ((w, won), r2)"
    "won \<longleftrightarrow> map_of (ro_sessions r1) c = None" "won \<longrightarrow> w = p0"
    "\<forall>q. won \<or> q \<noteq> p0 \<longrightarrow> ro_objs r2 q = ro_objs r1 q" by metis
  have won: "won" using i(2) none os(2) by simp
  with g none o p0 i(1,3) res have r: "p = p0" "r' = r2" "fresh \<longleftrightarrow> 1 < length query"
    by (auto simp: get_or_create_def create_finish_def)
  from r i(4) won un show "sq_q (ss_queue (ro_objs r' p)) = []" "fresh \<longleftrightarrow> 1 < length query"
    by (simp_all add: unregistered_def pending_def)
qed

lemma miss_succeeds:
  assumes ok: "router_ok r" and none: "map_of (ro_sessions r) c = None" and f: "forgets ag"
    and "mkdir (conv_cwd cfg c) = None" "ag_new_session ag (conv_cwd cfg c) (system_blocks cfg ag) = Inr sid"
  shows "get_or_create cfg ag mkdir now c user query r \<noteq> Inr (Inl e, r')"
proof -
  obtain p r1 where o: "open_session cfg ag mkdir now c user r = (Inr (p, False), r1)"
    using assms(4,5) by (simp add: open_session_def Let_def forgets_no_resume [OF f])
  have "unregistered r1 c p" using open_session_ok(4) [OF ok o] by blast
  from install_ok [OF open_session_ok(1) [OF ok o] this] obtain w won r2 where
    "install c p r1 = Inr ((w, won), r2)" by metis
  with o none show ?thesis by (simp add: get_or_create_def create_finish_def)
qed

text \<open>A submission that is not rejected.\<close>

lemma submit_effects:
  assumes "submit p mk r = Inr (Some i, r')"
  shows "ro_sessions r' = ro_sessions r" "ro_calls r' = ro_calls r"
    "ss_session_id (ro_objs r' q) = ss_session_id (ro_objs r q)"
    "sq_q (ss_queue (ro_objs r p)) = [] \<Longrightarrow> sq_q (ss_queue (ro_objs r' p)) = [mk (ro_next_req r)]"
  using assms
  by (auto simp: submit_def push_def Let_def upd_session_def session_queue_cap_def enqueue_def
      split: sum.splits if_splits option.splits)

text \<open>What \<open>Prompt\<close> queues when \<open>getOrCreate\<close> is back with a session.\<close>

lemma prompt_found:
  assumes g: "get_or_create cfg ag mkdir now (conv_key conv) user q r = Inr (Inr (p, fresh), r1)"
    and ok: "router_ok r1" and reg: "map_of (ro_sessions r1) (conv_key conv) = Some p"
    and disk: "disk_ok env" and latest: "latest_user_text q \<noteq> []"
  obtains i r' req rest where
    "prompt_submit cfg ag mkdir env now now' ctx conv user q opts k r = Inr (Inr i, r')" "router_ok r'"
    "ro_sessions r' = ro_sessions r1" "ro_calls r' = ro_calls r1"
    "ss_session_id (ro_objs r' p) = ss_session_id (ro_objs r1 p)"
    "last (sq_q (ss_queue (ro_objs r' p))) = req" "rq_id req = i" "is_user req"
    "rq_blocks req = TextBlock (if fresh then flatten_transcript q else latest_user_text q) # rest"
    "sq_q (ss_queue (ro_objs r1 p)) = [] \<Longrightarrow> sq_q (ss_queue (ro_objs r' p)) = [req]"
proof -
  obtain bs r2 where b: "prompt_blocks cfg ag env q fresh (ss_cwd (ro_objs r1 p)) r1 = Inr (bs, r2)" "same_core r1 r2"
    by (rule prompt_blocks_ok [OF disk, of cfg ag q fresh "ss_cwd (ro_objs r1 p)" r1])
  have files: "ro_objs r2 = ro_objs r1" "ro_calls r2 = ro_calls r1"
    using b(1) by (auto simp: prompt_blocks_def Let_def split: option.splits sum.splits)
  obtain rest where bs: "bs = TextBlock (if fresh then flatten_transcript q else latest_user_text q) # rest"
    using prompt_blocks_head [OF b(1)] by blast
  let ?mk = "user_req ctx k opts bs now'"
  have sess: "session_ok r2 (conv_key conv) p"
    using registered [OF same_core_ok [OF b(2) ok]] reg same_core_sessions [OF b(2)] by simp
  then have p: "p < ro_next_obj r2" by (simp add: session_ok_def)
  obtain res r3 where s: "submit p ?mk r2 = Inr (res, r3)" "router_ok r3"
    "res = None \<longleftrightarrow> push_rejects (?mk (ro_next_req r2)) (ss_queue (ro_objs r2 p))"
    "res \<noteq> None \<longrightarrow> res = Some (ro_next_req r2) \<and>
       last (sq_q (ss_queue (ro_objs r3 p))) = ?mk (ro_next_req r2) \<and> sq_q (ss_queue (ro_objs r3 p)) \<noteq> []"
    by (rule submit_cases [OF same_core_ok [OF b(2) ok] p, where mk = ?mk])
      (simp add: user_req_def, (rule that; assumption))
  have "res \<noteq> None" using sess s(3) by (simp add: push_rejects_def session_ok_def user_req_def Let_def)
  with s(4) have res: "res = Some (ro_next_req r2)" "last (sq_q (ss_queue (ro_objs r3 p))) = ?mk (ro_next_req r2)"
    by simp_all
  note sub = submit_effects [OF s(1) [unfolded res(1)]]
  have "prompt_submit cfg ag mkdir env now now' ctx conv user q opts k r = Inr (Inr (ro_next_req r2), r3)"
    using latest g b(1) s(1) res(1) by (simp add: prompt_submit_def)
  then show thesis
    by (rule that [OF _ s(2) _ _ _ res(2)])
      (simp_all add: sub files same_core_sessions [OF b(2)] user_req_def bs)
qed

text \<open>The session that \<open>getOrCreate\<close> finds has nothing queued, and is to be seeded if it is new.\<close>

lemma found_is_idle:
  assumes ok: "router_ok r" and f: "forgets ag" and told: "conv_told c us r"
    and g: "get_or_create cfg ag mkdir now c user q r = Inr (Inr (p, fresh), r1)"
  shows "sq_q (ss_queue (ro_objs r1 p)) = []"
    and "fresh \<longleftrightarrow> map_of (ro_sessions r) c = None \<and> 1 < length q"
    and "map_of (ro_sessions r) c \<noteq> None \<Longrightarrow> map_of (ro_sessions r) c = Some p \<and> r1 = r"
proof -
  have "sq_q (ss_queue (ro_objs r1 p)) = [] \<and> (fresh \<longleftrightarrow> map_of (ro_sessions r) c = None \<and> 1 < length q) \<and>
    (map_of (ro_sessions r) c \<noteq> None \<longrightarrow> map_of (ro_sessions r) c = Some p \<and> r1 = r)"
  proof (cases "map_of (ro_sessions r) c")
    case None
    with miss_opens [OF ok None f g] show ?thesis by simp
  next
    case (Some p0)
    with g told show ?thesis by (auto simp: get_or_create_def conv_told_def)
  qed
  then show "sq_q (ss_queue (ro_objs r1 p)) = []" "fresh \<longleftrightarrow> map_of (ro_sessions r) c = None \<and> 1 < length q"
    "map_of (ro_sessions r) c \<noteq> None \<Longrightarrow> map_of (ro_sessions r) c = Some p \<and> r1 = r" by simp_all
qed

lemma query_queues:
  assumes ok: "router_ok r" and disk: "disk_ok env" and f: "forgets ag"
    and told: "conv_told (conv_key conv) us r" and latest: "latest_user_text q \<noteq> []"
  obtains (failed) e r' where "prompt_submit cfg ag mkdir env now now' ctx conv user q opts k r = Inr (Inl e, r')"
      "router_ok r'" "map_of (ro_sessions r) (conv_key conv) = None" "map_of (ro_sessions r') (conv_key conv) = None"
      "\<And>sid. mkdir (conv_cwd cfg (conv_key conv)) = None \<Longrightarrow>
         ag_new_session ag (conv_cwd cfg (conv_key conv)) (system_blocks cfg ag) \<noteq> Inr sid"
  | (queued) i p r' req rest where
      "prompt_submit cfg ag mkdir env now now' ctx conv user q opts k r = Inr (Inr i, r')" "router_ok r'"
      "map_of (ro_sessions r') (conv_key conv) = Some p" "sq_q (ss_queue (ro_objs r' p)) = [req]" "is_user req"
      "rq_blocks req = TextBlock (if map_of (ro_sessions r) (conv_key conv) = None \<and> 1 < length q
         then flatten_transcript q else latest_user_text q) # rest"
      "\<And>p'. map_of (ro_sessions r) (conv_key conv) = Some p' \<Longrightarrow> p' = p \<and> set (ro_calls r) \<subseteq> set (ro_calls r') \<and>
         ss_session_id (ro_objs r' p) = ss_session_id (ro_objs r p)"
  using ok
proof (cases rule: get_or_create_ok [where cfg = cfg and ag = ag and mkdir = mkdir and now = now
      and c = "conv_key conv" and user = user and query = q])
  case (failed e r1)
  let ?r' = "emit k [EvError (''relay: '' @ e) ''user_caused_error'', EvDone] r1"
  have none: "map_of (ro_sessions r) (conv_key conv) = None"
    using failed(1) by (auto simp: get_or_create_def split: option.splits)
  show thesis
  proof (rule that(1) [of e ?r'])
    show "prompt_submit cfg ag mkdir env now now' ctx conv user q opts k r = Inr (Inl e, ?r')"
      using failed(1) latest by (simp add: prompt_submit_def)
    show "map_of (ro_sessions ?r') (conv_key conv) = None" using failed(3) none by (simp add: emit_def)
  qed (use failed none miss_succeeds [OF ok none f] in auto)
next
  case (found p fresh r1)
  note idle = found_is_idle [OF ok f told found(1)]
  from found(1,2,3) disk latest show thesis
  proof (rule prompt_found)
    fix i r' req rest
    assume *: "prompt_submit cfg ag mkdir env now now' ctx conv user q opts k r = Inr (Inr i, r')" "router_ok r'"
      "ro_sessions r' = ro_sessions r1" "ro_calls r' = ro_calls r1"
      "ss_session_id (ro_objs r' p) = ss_session_id (ro_objs r1 p)" "is_user req"
      "rq_blocks req = TextBlock (if fresh then flatten_transcript q else latest_user_text q) # rest"
      "sq_q (ss_queue (ro_objs r1 p)) = [] \<Longrightarrow> sq_q (ss_queue (ro_objs r' p)) = [req]"
    show thesis
      by (rule that(2) [OF *(1,2) _ *(8) [OF idle(1)] *(6), where rest = rest])
        (use found(3) idle(2,3) * in auto)
  qed
qed

text \<open>The turn that \<open>Prompt\<close> queued, alone on its queue.\<close>

lemma user_turn_runs:
  assumes ok: "router_ok r" and p: "p < ro_next_obj r" and q: "sq_q (ss_queue (ro_objs r p)) = [req]"
    and user: "is_user req" and bs: "rq_blocks req = TextBlock t # rest"
  obtains r' where "run_turns_iter cfg ag now now' p r = Some (Inr r')" "router_ok r'"
    "ro_sessions r' = ro_sessions r" "sq_q (ss_queue (ro_objs r' p)) = []"
    "ss_session_id (ro_objs r' p) = ss_session_id (ro_objs r p)" "set (ro_calls r) \<subseteq> set (ro_calls r')"
    "told (ss_session_id (ro_objs r p)) t (ro_calls r')"
proof -
  let ?sq = "(ss_queue (ro_objs r p))\<lparr>sq_q := [], sq_in_flight := True\<rparr>"
  let ?r0 = "upd_session p (\<lambda>st. st\<lparr>ss_queue := ?sq\<rparr>) r"
  have pop: "try_pop (ss_queue (ro_objs r p)) = Some (req, ?sq)" using q by (simp add: try_pop_def)
  have ids: "ids_ok (ro_next_obj r) (ro_next_req r) (pending r) (req_done r)"
    using ok by (simp add: router_ok_def)
  have "pending r p = [] @ rq_id req # []" by (simp add: pending_def q)
  then have "\<not> req_done r (rq_id req)" using ids_okD(3) [OF ids p] by simp
  then have undone: "\<not> rs_done (ro_reqs ?r0 (rq_id req))" by (simp add: upd_session_def)
  have fresh: "\<not> stale_reaction now req" using user by (simp add: stale_reaction_def)
  obtain us res where "ag_prompt ag (ss_session_id (ro_objs ?r0 p)) (turn_blocks cfg (ro_objs ?r0 p) req) = (us, res)"
    by fastforce
  from run_one_turn_effects [OF fresh undone this, where now' = now'] obtain r1 where
    r1: "run_one_turn cfg ag now now' p req ?r0 = Inr r1"
    "ro_calls r1 = ro_calls ?r0 @ turn_calls cfg ag (ro_objs ?r0 p) req" by metis
  let ?r' = "upd_session p (\<lambda>st. st\<lparr>ss_queue := finish_in_flight (ss_queue st)\<rparr>) r1"
  have run: "run_turns_iter cfg ag now now' p r = Some (Inr ?r')"
    unfolding run_turns_iter_def pop by (simp add: r1(1))
  from run_turns_iter_ok [OF ok p run] have ok': "router_ok ?r'" "ro_sessions ?r' = ro_sessions r" by auto
  note shape = run_one_turn_shape [OF r1(1)]
  have calls: "ro_calls ?r' = ro_calls r @ turn_calls cfg ag (ro_objs ?r0 p) req"
    using r1(2) by (simp add: upd_session_def)
  have "told (ss_session_id (ro_objs r p)) t (ro_calls ?r')"
    using turn_calls_tell [OF bs, of "ro_objs ?r0 p" cfg ag] unfolding calls
    by (simp add: upd_session_def told_mono)
  with run ok' shape calls show thesis
    by (intro that [of ?r']) (simp_all add: upd_session_def same_shape_def finish_in_flight_def)
qed

text \<open>A query and its turn: whatever the conversation's session is then, it has been told all.\<close>

definition one_more :: "turn list option \<Rightarrow> turn list \<Rightarrow> bool" where
  "one_more us q \<longleftrightarrow>
     (case us of None \<Rightarrow> True | Some ts \<Rightarrow> user_turns q \<noteq> [] \<and> butlast (user_turns q) = ts)"

lemma one_more_set:
  "one_more (Some ts) q \<Longrightarrow> t \<in> set (user_turns q) \<longleftrightarrow> t \<in> set ts \<or> user_turns q \<noteq> [] \<and> t = last (user_turns q)"
proof -
  assume "one_more (Some ts) q"
  then have "user_turns q = ts @ [last (user_turns q)]" and ne: "user_turns q \<noteq> []"
    using append_butlast_last_id [of "user_turns q"] by (simp_all add: one_more_def)
  then have "set (user_turns q) = set ts \<union> {last (user_turns q)}" by (metis list.simps(15) list.set(1) set_append)
  with ne show ?thesis by blast
qed

definition conv_inv :: "gostring \<Rightarrow> turn list option \<Rightarrow> router \<Rightarrow> bool" where
  "conv_inv c us r \<longleftrightarrow> router_ok r \<and>
     (case us of None \<Rightarrow> map_of (ro_sessions r) c = None | Some ts \<Rightarrow> conv_told c ts r)"

lemma conv_inv_told: "conv_inv c us r \<Longrightarrow> conv_told c (case us of None \<Rightarrow> [] | Some ts \<Rightarrow> ts) r"
  by (auto simp: conv_inv_def conv_told_def split: option.splits)

text \<open>What was told before and the text of this prompt make up the query.\<close>

lemma prompt_completes:
  assumes inv: "conv_inv c us r" and more: "one_more us q" and t: "t \<in> set (user_turns q)" "t_content t \<noteq> []"
    and sent: "told sid (if map_of (ro_sessions r) c = None \<and> 1 < length q
      then flatten_transcript q else latest_user_text q) cs"
    and old: "\<And>p. map_of (ro_sessions r) c = Some p \<Longrightarrow>
      ss_session_id (ro_objs r p) = sid \<and> set (ro_calls r) \<subseteq> set cs"
  shows "told sid (t_content t) cs"
proof (cases "map_of (ro_sessions r) c")
  case None
  with sent seed_tells [OF t(1)] show ?thesis by (auto intro: told_part)
next
  case (Some p)
  with inv obtain ts where us: "us = Some ts" by (auto simp: conv_inv_def split: option.splits)
  show ?thesis
  proof (cases "t \<in> set ts")
    case True
    with inv us Some t(2) have "told (ss_session_id (ro_objs r p)) (t_content t) (ro_calls r)"
      by (auto simp: conv_inv_def conv_told_def)
    with old [OF Some] show ?thesis by (auto intro: told_mono)
  next
    case False
    with more us t(1) one_more_set [of ts q t] have "t = last (user_turns q)" by simp
    moreover have "user_turns q \<noteq> []" using t(1) by auto
    ultimately have "latest_user_text q = t_content t" by (simp add: latest_text_last)
    with sent Some show ?thesis by simp
  qed
qed


lemma empty_query_told:
  assumes inv: "conv_inv c us r" and more: "one_more us q" and empty: "latest_user_text q = []"
  shows "conv_told c (user_turns q) r"
  unfolding conv_told_def
proof (intro allI impI conjI ballI)
  fix p t assume p: "map_of (ro_sessions r) c = Some p"
  from p inv obtain ts where us: "us = Some ts" and told: "conv_told c ts r"
    by (auto simp: conv_inv_def split: option.splits)
  then show "sq_q (ss_queue (ro_objs r p)) = []" using p by (simp add: conv_told_def)
  assume t: "t \<in> set (user_turns q)" "t_content t \<noteq> []"
  then have "user_turns q \<noteq> []" by auto
  with empty t(2) have "t \<noteq> last (user_turns q)" by (auto simp: latest_text_last)
  then have "t \<in> set ts" using more us t(1) one_more_set [of ts q t] by simp
  with told p t(2) show "told (ss_session_id (ro_objs r p)) (t_content t) (ro_calls r)"
    by (simp add: conv_told_def)
qed

lemma query_step_told:
  assumes inv: "conv_inv (conv_key conv) us r" and more: "one_more us q"
    and disk: "disk_ok (oe_att e)" and f: "forgets (oe_agent e)"
  obtains r1 r2 where "router_step cfg e (OpPrompt ctx conv user q opts k) r = Inr r1"
    "router_step cfg e' (OpTurn (conv_key conv)) r1 = Inr r2" "conv_inv (conv_key conv) (Some (user_turns q)) r2"
    "latest_user_text q \<noteq> [] \<and> oe_mkdir e (conv_cwd cfg (conv_key conv)) = None \<and>
       ag_new_session (oe_agent e) (conv_cwd cfg (conv_key conv)) (system_blocks cfg (oe_agent e)) = Inr sid \<longrightarrow>
       (\<exists>p. map_of (ro_sessions r2) (conv_key conv) = Some p \<and>
         told (ss_session_id (ro_objs r2 p)) [] (ro_calls r2))"
proof (cases "latest_user_text q = []")
  case True
  let ?c = "conv_key conv" and ?r1 = "emit k [EvError ''empty user message'' ''user_caused_error'', EvDone] r"
  have ok: "router_ok r" and told: "conv_told ?c (case us of None \<Rightarrow> [] | Some ts \<Rightarrow> ts) r"
    using inv conv_inv_told by (auto simp: conv_inv_def)
  have told1: "conv_told ?c (user_turns q) r" by (rule empty_query_told [OF inv more True])
  have "conv_told ?c (user_turns q) ?r1" by (rule conv_told_keeps [OF _ told1]) simp
  moreover have "router_step cfg e' (OpTurn ?c) ?r1 = Inr ?r1"
    using told by (auto simp: conv_told_def emit_def run_turns_iter_def try_pop_def split: option.splits)
  ultimately show thesis
    using ok True by (intro that [of ?r1 ?r1]) (simp_all add: prompt_submit_def conv_inv_def)
next
  case latest: False
  let ?c = "conv_key conv"
  have ok: "router_ok r" and told: "conv_told ?c (case us of None \<Rightarrow> [] | Some ts \<Rightarrow> ts) r"
    using inv conv_inv_told by (auto simp: conv_inv_def)
  from ok disk f told latest show thesis
  proof (cases rule: query_queues [where cfg = cfg and mkdir = "oe_mkdir e" and now = "oe_now e"
        and now' = "oe_now e" and ctx = ctx and conv = conv and user = user and opts = opts and k = k])
    case (failed err r1)
    then show thesis by (intro that [of r1 r1]) (auto simp: conv_inv_def conv_told_def)
  next
    case (queued i p r1 req rest)
    have p: "p < ro_next_obj r1" using registered [OF queued(2,3)] by (simp add: session_ok_def)
    obtain r2 where r2: "run_turns_iter cfg (oe_agent e') (oe_now e') (oe_now e') p r1 = Some (Inr r2)"
      "router_ok r2" "ro_sessions r2 = ro_sessions r1" "sq_q (ss_queue (ro_objs r2 p)) = []"
      "ss_session_id (ro_objs r2 p) = ss_session_id (ro_objs r1 p)" "set (ro_calls r1) \<subseteq> set (ro_calls r2)"
      "told (ss_session_id (ro_objs r1 p)) (if map_of (ro_sessions r) ?c = None \<and> 1 < length q
         then flatten_transcript q else latest_user_text q) (ro_calls r2)"
      by (rule user_turn_runs [OF queued(2) p queued(4,5,6)])
    have "told (ss_session_id (ro_objs r1 p)) (t_content t) (ro_calls r2)"
      if "t \<in> set (user_turns q)" "t_content t \<noteq> []" for t
      by (rule prompt_completes [OF inv more that r2(7)]) (use queued(7) r2(6) in auto)
    then have "conv_told ?c (user_turns q) r2" using r2(3,4,5) queued(3) by (simp add: conv_told_def)
    moreover have "told (ss_session_id (ro_objs r2 p)) [] (ro_calls r2)"
      using told_part [OF r2(7)] r2(5) by simp
    ultimately show thesis
      using queued(1,3) r2 by (intro that [of r1 r2]) (simp_all add: conv_inv_def)
  qed
qed


section \<open>The whole conversation\<close>

datatype conv_event =
    Query op_env op_env nat gostring options sink_ref "turn list"  \<comment> \<open>what \<open>Prompt\<close> and then the turn find outside\<close>
  | Between op_env router_op

fun event_ops :: "gostring \<Rightarrow> conv_event \<Rightarrow> (op_env \<times> router_op) list" where
  "event_ops conv (Query e e' ctx user opts k q) =
     [(e, OpPrompt ctx conv user q opts k), (e', OpTurn (conv_key conv))]"
| "event_ops conv (Between e op) = [(e, op)]"

text \<open>Between the queries: collections, cancellations and anything on other conversations.\<close>

fun event_ok :: "gostring \<Rightarrow> conv_event \<Rightarrow> bool" where
  "event_ok conv (Query e e' ctx user opts k q) \<longleftrightarrow> disk_ok (oe_att e) \<and> forgets (oe_agent e)"
| "event_ok conv (Between e op) \<longleftrightarrow> disk_ok (oe_att e) \<and> concerns op \<noteq> Some (conv_key conv)"

text \<open>After the first, each query repeats the messages of the user before and adds one.\<close>

fun growing :: "turn list option \<Rightarrow> conv_event list \<Rightarrow> bool" where
  "growing us [] \<longleftrightarrow> True"
| "growing us (Query e e' ctx user opts k q # evs) \<longleftrightarrow> one_more us q \<and> growing (Some (user_turns q)) evs"
| "growing us (Between e op # evs) \<longleftrightarrow> growing us evs"

fun last_seen :: "turn list option \<Rightarrow> conv_event list \<Rightarrow> turn list option" where
  "last_seen us [] = us"
| "last_seen us (Query e e' ctx user opts k q # evs) = last_seen (Some (user_turns q)) evs"
| "last_seen us (Between e op # evs) = last_seen us evs"

lemma growing_append:
  "growing us (evs @ [ev]) \<longleftrightarrow> growing us evs \<and> growing (last_seen us evs) [ev]"
proof (induction evs arbitrary: us)
  case Nil
  show ?case by simp
next
  case (Cons a evs)
  then show ?case by (cases a) auto
qed

lemma gc_keeps_told:
  assumes "router_ok r" "conv_told c us r" "gc_once cfg now r = Inr r'"
  shows "conv_told c us r'"
proof -
  from assms(1) obtain r1 where r1: "gc_once cfg now r = Inr r1"
    "ro_sessions r1 = filter (\<lambda>e. \<not> expired (now - cfg_session_ttl cfg) r e) (ro_sessions r)"
    "\<forall>e \<in> set (ro_sessions r1). ro_objs r1 (snd e) = ro_objs r (snd e)" "ro_calls r1 = ro_calls r"
    by (rule gc_once_effects)
  have same: "r1 = r'" using assms(3) r1(1) by simp
  show ?thesis
    unfolding conv_told_def
  proof (intro allI impI)
    fix p assume p: "map_of (ro_sessions r') c = Some p"
    then have in': "(c, p) \<in> set (ro_sessions r')" by (rule map_of_SomeD)
    then have "(c, p) \<in> set (ro_sessions r)" using r1(2) same by simp
    then have "map_of (ro_sessions r) c = Some p" using assms(1) by (simp add: router_ok_def)
    moreover have "ro_objs r' p = ro_objs r p" using r1(3) same in' by force
    moreover have "ro_calls r' = ro_calls r" using r1(4) same by simp
    ultimately show "sq_q (ss_queue (ro_objs r' p)) = [] \<and> (\<forall>t \<in> set us. t_content t \<noteq> [] \<longrightarrow>
        told (ss_session_id (ro_objs r' p)) (t_content t) (ro_calls r'))"
      using assms(2) by (simp add: conv_told_def)
  qed
qed

lemma gc_keeps_absent:
  assumes "router_ok r" "map_of (ro_sessions r) c = None" "gc_once cfg now r = Inr r'"
  shows "map_of (ro_sessions r') c = None"
proof -
  from assms(1) obtain r1 where "gc_once cfg now r = Inr r1"
    "ro_sessions r1 = filter (\<lambda>e. \<not> expired (now - cfg_session_ttl cfg) r e) (ro_sessions r)"
    by (rule gc_once_effects)
  with assms(2,3) show ?thesis by (auto simp: map_of_eq_None_iff)
qed

lemma between_told:
  assumes inv: "conv_inv c us r" and ev: "disk_ok (oe_att e)" "concerns op \<noteq> Some c"
  obtains r' where "router_step cfg e op r = Inr r'" "conv_inv c us r'"
proof -
  have ok: "router_ok r" using inv by (simp add: conv_inv_def)
  from router_step_ok [OF ok ev(1)] obtain r' where r': "router_step cfg e op r = Inr r'" "router_ok r'" by blast
  have "conv_inv c us r'"
  proof (cases "op = OpGc")
    case True
    with r' have "gc_once cfg (oe_now e) r = Inr r'" by simp
    with inv r'(2) gc_keeps_told [OF ok] gc_keeps_absent [OF ok] show ?thesis
      by (cases us) (simp_all add: conv_inv_def)
  next
    case False
    from router_step_keeps [OF ok ev False r'(1)] have "keeps c r r'" .
    with inv r'(2) conv_told_keeps [OF this] show ?thesis
      by (cases us) (simp_all add: conv_inv_def keeps_def)
  qed
  with r'(1) show thesis by (rule that)
qed

lemma router_run_append:
  "router_run cfg (ops @ ops') r =
     (case router_run cfg ops r of Inl x \<Rightarrow> Inl x | Inr r' \<Rightarrow> router_run cfg ops' r')"
  by (induction cfg ops r rule: router_run.induct) (simp_all split: sum.splits)

lemma conversation_runs:
  assumes "conv_inv (conv_key conv) us r" "\<forall>ev \<in> set evs. event_ok conv ev" "growing us evs"
  shows "\<exists>r'. router_run cfg (concat (map (event_ops conv) evs)) r = Inr r' \<and>
    conv_inv (conv_key conv) (last_seen us evs) r'"
  using assms
proof (induction evs arbitrary: us r)
  case Nil
  then show ?case by simp
next
  case (Cons ev evs)
  show ?case
  proof (cases ev)
    case (Query e e' ctx user opts k q)
    with Cons.prems have "one_more us q" "disk_ok (oe_att e)" "forgets (oe_agent e)" by simp_all
    then obtain r1 r2 where
      "router_step cfg e (OpPrompt ctx conv user q opts k) r = Inr r1"
      "router_step cfg e' (OpTurn (conv_key conv)) r1 = Inr r2" "conv_inv (conv_key conv) (Some (user_turns q)) r2"
      by (rule query_step_told [OF Cons.prems(1)])
    with Cons.IH [OF this(3)] Cons.prems Query show ?thesis by simp
  next
    case (Between e op)
    with Cons.prems have "disk_ok (oe_att e)" "concerns op \<noteq> Some (conv_key conv)" by simp_all
    from between_told [OF Cons.prems(1) this] obtain r1 where
      "router_step cfg e op r = Inr r1" "conv_inv (conv_key conv) us r1" .
    with Cons.IH [OF this(2)] Cons.prems Between show ?thesis by simp
  qed
qed

text \<open>C4: A conversation survives collections and restarts of the relay. Starting from a router that
  does not know the conversation, after any queries that repeat the transcript and grow by one user
  message each, with collections, cancellations and operations on other conversations in between, and
  with an agent that cannot resume sessions by itself, the session that answers the last query has
  been sent every message of the user in that query, if the agent could open a session for it.\<close>

theorem agent_knows_the_conversation:
  assumes "router_ok r" "map_of (ro_sessions r) (conv_key conv) = None"
    and "\<forall>ev \<in> set (evs @ [Query e e' ctx user opts k q]). event_ok conv ev"
    and "growing None (evs @ [Query e e' ctx user opts k q])"
    and "latest_user_text q \<noteq> []" "oe_mkdir e (conv_cwd cfg (conv_key conv)) = None"
    and "ag_new_session (oe_agent e) (conv_cwd cfg (conv_key conv)) (system_blocks cfg (oe_agent e)) = Inr sid"
  shows "\<exists>r' p. router_run cfg (concat (map (event_ops conv) (evs @ [Query e e' ctx user opts k q]))) r = Inr r' \<and>
    map_of (ro_sessions r') (conv_key conv) = Some p \<and>
    (\<forall>t \<in> set (user_turns q). told (ss_session_id (ro_objs r' p)) (t_content t) (ro_calls r'))"
proof -
  let ?c = "conv_key conv" and ?us = "last_seen None evs"
  have inv: "conv_inv ?c None r" using assms(1,2) by (simp add: conv_inv_def)
  from conversation_runs [OF this, of evs cfg] assms(3,4) obtain r1 where
    r1: "router_run cfg (concat (map (event_ops conv) evs)) r = Inr r1" "conv_inv ?c ?us r1"
    by (auto simp: growing_append)
  have last: "one_more ?us q" "disk_ok (oe_att e)" "forgets (oe_agent e)"
    using assms(3,4) by (simp_all add: growing_append)
  obtain r2 r3 where r3: "router_step cfg e (OpPrompt ctx conv user q opts k) r1 = Inr r2"
    "router_step cfg e' (OpTurn ?c) r2 = Inr r3" "conv_inv ?c (Some (user_turns q)) r3"
    "latest_user_text q \<noteq> [] \<and> oe_mkdir e (conv_cwd cfg ?c) = None \<and>
      ag_new_session (oe_agent e) (conv_cwd cfg ?c) (system_blocks cfg (oe_agent e)) = Inr sid \<longrightarrow>
      (\<exists>p. map_of (ro_sessions r3) ?c = Some p \<and> told (ss_session_id (ro_objs r3 p)) [] (ro_calls r3))"
    by (rule query_step_told [OF r1(2) last, where cfg = cfg and ctx = ctx and user = user and opts = opts
        and k = k and e' = e' and sid = sid])
  from r3(4) assms(5-7) obtain p where p: "map_of (ro_sessions r3) ?c = Some p"
    "told (ss_session_id (ro_objs r3 p)) [] (ro_calls r3)" by blast
  have "router_run cfg (concat (map (event_ops conv) (evs @ [Query e e' ctx user opts k q]))) r = Inr r3"
    using r1(1) r3(1,2) by (simp add: router_run_append)
  moreover have "told (ss_session_id (ro_objs r3 p)) (t_content t) (ro_calls r3)"
    if "t \<in> set (user_turns q)" for t
    using r3(3) p that by (cases "t_content t = []") (auto simp: conv_inv_def conv_told_def)
  ultimately show ?thesis using p(1) by blast
qed


text \<open>A message, a collection when the session has expired, and the next query.\<close>

definition demo_query :: "int \<Rightarrow> turn list \<Rightarrow> conv_event" where
  "demo_query t q = Query (demo_op_env t) (demo_op_env t) 0 ''u'' no_options (HttpSink 0) q"

definition demo_transcript :: "turn list" where
  "demo_transcript = [demo_turn ''hi'', (demo_turn ''hello'')\<lparr>t_role := ''bot''\<rparr>, demo_turn ''and now?'']"

theorem agent_knows_the_conversation_witness:
  "\<exists>r' p. router_run demo_config (concat (map (event_ops ''c'') ([demo_query 0 [demo_turn ''hi''],
        Between (demo_op_env 9000) OpGc] @ [demo_query 9001 demo_transcript]))) empty_router = Inr r' \<and>
     map_of (ro_sessions r') ''c'' = Some p \<and> told (ss_session_id (ro_objs r' p)) ''hi'' (ro_calls r') \<and>
     told (ss_session_id (ro_objs r' p)) ''and now?'' (ro_calls r')"
proof -
  let ?evs = "[demo_query 0 [demo_turn ''hi''], Between (demo_op_env 9000) OpGc]"
  have disk: "disk_ok (oe_att (demo_op_env t))" for t by (simp add: demo_op_env_def disk_ok_def demo_env_def)
  have f: "forgets (oe_agent (demo_op_env t))" for t
    by (simp add: demo_op_env_def chatty_agent_def quiet_agent_def quiet_caps_def forgets_def)
  have q: "user_turns demo_transcript = [demo_turn ''hi'', demo_turn ''and now?'']"
    by (simp add: user_turns_def demo_transcript_def demo_turn_def)
  have q1: "user_turns [demo_turn ''hi''] = [demo_turn ''hi'']" by (simp add: user_turns_def demo_turn_def)
  have c: "conv_key ''c'' = ''c''" by (simp add: conv_key_def)
  have "\<exists>r' p. router_run demo_config (concat (map (event_ops ''c'') (?evs @ [demo_query 9001 demo_transcript])))
        empty_router = Inr r' \<and> map_of (ro_sessions r') (conv_key ''c'') = Some p \<and>
      (\<forall>t \<in> set (user_turns demo_transcript). told (ss_session_id (ro_objs r' p)) (t_content t) (ro_calls r'))"
    unfolding demo_query_def
  proof (rule agent_knows_the_conversation)
    show "map_of (ro_sessions empty_router) (conv_key ''c'') = None" by (simp add: empty_router_def)
    show "latest_user_text demo_transcript \<noteq> []" by (simp add: latest_text_last q demo_turn_def)
    show "oe_mkdir (demo_op_env 9001) (conv_cwd demo_config (conv_key ''c'')) = None"
      by (simp add: demo_op_env_def)
    show "ag_new_session (oe_agent (demo_op_env 9001)) (conv_cwd demo_config (conv_key ''c''))
        (system_blocks demo_config (oe_agent (demo_op_env 9001))) = Inr ''s1''"
      by (simp add: demo_op_env_def chatty_agent_def quiet_agent_def)
  qed (simp_all add: empty_router_ok disk f one_more_def q q1)
  then show ?thesis unfolding q c by (simp add: demo_turn_def)
qed

section \<open>A reaction that comes first\<close>

text \<open>A reaction on a conversation the relay has no session for opens one (\<open>getOrCreate\<close> with no
  query), and the transcript is never sent to it.\<close>

lemma reaction_opens:
  assumes ok: "router_ok r" and none: "map_of (ro_sessions r) (conv_key conv) = None" and f: "forgets ag"
    and "mkdir (conv_cwd cfg (conv_key conv)) = None"
    and "ag_new_session ag (conv_cwd cfg (conv_key conv)) (system_blocks cfg ag) = Inr sid"
  obtains p r' where "report_reaction U cfg ag mkdir now now' ctx conv user msg kind action r = Inr (None, r')"
    "router_ok r'" "map_of (ro_sessions r') (conv_key conv) = Some p"
  using ok
proof (cases rule: get_or_create_ok [where cfg = cfg and ag = ag and mkdir = mkdir and now = now
      and c = "conv_key conv" and user = user and query = "[]"])
  case (failed e r1)
  with miss_succeeds [OF ok none f, of mkdir cfg sid now user "[]" e r1] assms(4,5) show thesis by simp
next
  case (found p fresh r1)
  have "p < ro_next_obj r1" using found(5) by (simp add: session_ok_def)
  with found(2) obtain res r3 where
    "submit p (reaction_req U ctx (conv_key conv) msg kind action now') r1 = Inr (res, r3)"
    "router_ok r3" "ro_sessions r3 = ro_sessions r1"
    by (rule submit_cases [where mk = "reaction_req U ctx (conv_key conv) msg kind action now'"])
      (simp add: reaction_req_def, (rule that; assumption))
  with found show thesis
    by (intro that [of r3 p]) (simp_all add: report_reaction_def)
qed


text \<open>A session that exists is sent the latest message only.\<close>

lemma prompt_on_session:
  assumes ok: "router_ok r" and disk: "disk_ok env" and some: "map_of (ro_sessions r) (conv_key conv) = Some p"
    and latest: "latest_user_text q \<noteq> []"
  obtains i r' req rest where
    "prompt_submit cfg ag mkdir env now now' ctx conv user q opts k r = Inr (Inr i, r')"
    "map_of (ro_sessions r') (conv_key conv) = Some p"
    "last (sq_q (ss_queue (ro_objs r' p))) = req" "rq_id req = i"
    "rq_blocks req = TextBlock (latest_user_text q) # rest"
proof -
  have g: "get_or_create cfg ag mkdir now (conv_key conv) user q r = Inr (Inr (p, False), r)"
    using some by (simp add: get_or_create_def)
  show thesis
    by (rule prompt_found [OF g ok some disk latest]) (rule that, auto simp: some)
qed

text \<open>C38: When a reaction reaches a conversation before its first query does, after a restart or a
  collection, the transcript is lost: the reaction opens the agent's session, and the query that
  follows queues only its latest message for that session, however long the transcript is. (The
  change log promises that the first prompt to a new session is seeded with the transcript.)\<close>

theorem reaction_loses_the_transcript:
  assumes "router_ok r" "map_of (ro_sessions r) (conv_key conv) = None" "forgets ag" "disk_ok env"
    and "mkdir (conv_cwd cfg (conv_key conv)) = None"
    and "ag_new_session ag (conv_cwd cfg (conv_key conv)) (system_blocks cfg ag) = Inr sid"
    and "latest_user_text q \<noteq> []"
  shows "\<exists>r1 i r2 p req rest.
    report_reaction U cfg ag mkdir t1 t2 ctx conv user msg kind action r = Inr (None, r1) \<and>
    prompt_submit cfg ag' mkdir' env t3 t4 ctx' conv user' q opts k r1 = Inr (Inr i, r2) \<and>
    map_of (ro_sessions r2) (conv_key conv) = Some p \<and> last (sq_q (ss_queue (ro_objs r2 p))) = req \<and>
    rq_id req = i \<and> rq_blocks req = TextBlock (latest_user_text q) # rest"
proof -
  obtain p r1 where r1: "report_reaction U cfg ag mkdir t1 t2 ctx conv user msg kind action r = Inr (None, r1)"
    "router_ok r1" "map_of (ro_sessions r1) (conv_key conv) = Some p"
    by (rule reaction_opens [where mkdir = mkdir and cfg = cfg and conv = conv, OF assms(1-3,5,6)])
  from prompt_on_session [OF r1(2) assms(4) r1(3) assms(7), of cfg ag' mkdir' t3 t4 ctx' user' opts k] r1(1)
  show ?thesis by metis
qed

text \<open>The same relay and transcript as above, with a reaction first: the agent gets \<open>and now?\<close> only.\<close>

theorem reaction_loses_the_transcript_witness:
  "\<exists>r1 i r2 p req rest.
    report_reaction ascii_tables demo_config chatty_agent (\<lambda>_. None) 0 0 0 ''c'' ''u'' ''m'' ''like'' ''added''
      empty_router = Inr (None, r1) \<and>
    prompt_submit demo_config chatty_agent (\<lambda>_. None) demo_env 1 1 1 ''c'' ''u'' demo_transcript no_options
      (HttpSink 0) r1 = Inr (Inr i, r2) \<and>
    map_of (ro_sessions r2) ''c'' = Some p \<and> last (sq_q (ss_queue (ro_objs r2 p))) = req \<and>
    rq_id req = i \<and> rq_blocks req = TextBlock ''and now?'' # rest"
proof -
  have c: "conv_key ''c'' = ''c''" by (simp add: conv_key_def)
  have t: "latest_user_text demo_transcript = ''and now?''"
    by (simp add: latest_user_text_def latest_user_turn_ref_def demo_transcript_def demo_turn_def)
  show ?thesis
    using reaction_loses_the_transcript [where r = empty_router and conv = "''c''" and ag = chatty_agent
        and env = demo_env and mkdir = "\<lambda>_. None" and cfg = demo_config and sid = "''s1''" and q = demo_transcript
        and U = ascii_tables and ?t1.0 = 0 and ?t2.0 = 0 and ctx = 0 and user = "''u''" and msg = "''m''"
        and kind = "''like''" and action = "''added''" and ag' = chatty_agent and mkdir' = "\<lambda>_. None"
        and ?t3.0 = 1 and ?t4.0 = 1 and ctx' = 1 and user' = "''u''" and opts = no_options and k = "HttpSink 0"]
    by (simp add: c t empty_router_ok, simp add: empty_router_def forgets_def chatty_agent_def quiet_agent_def
        quiet_caps_def disk_ok_def demo_env_def)
qed

end
