(* ===== verification/Policy.thy ===== *)
theory Policy
  imports Go_Strings
begin

text \<open>
  Permission policies (internal/policy/policy.go): the answer to the agent's
  \<open>session/request_permission\<close>. Of the SDK's request only the fields the policies read are kept.
  The interface the ACP client relies on (\<open>PermissionPolicy\<close> in internal/acpclient/agent.go) is
  the locale \<open>permission_policy\<close>, interpreted on the three policies.
\<close>

section \<open>Requests and policies\<close>

record permission_option =
  po_id :: gostring
  po_name :: gostring
  po_kind :: gostring

record permission_request =
  pr_title :: "gostring option"
  pr_options :: "permission_option list"

datatype policy = AllowAll | ReadOnly | DenyAll

definition parse_policy :: "unicode \<Rightarrow> gostring \<Rightarrow> policy fallible" where
  "parse_policy U name =
     (let n = to_lower U (trim_space name) in
      if n = [] \<or> n = ''allow-all'' \<or> n = ''allow'' then Inr AllowAll
      else if n = ''read-only'' \<or> n = ''readonly'' then Inr ReadOnly
      else if n = ''deny-all'' \<or> n = ''deny'' then Inr DenyAll
      else Inl (''unknown policy '' @ go_quote U name @ '' (want allow-all|read-only|deny-all)''))"

text \<open>Whether an option looks like the wanted answer, by its name or its kind.\<close>

definition looks_like :: "unicode \<Rightarrow> gostring \<Rightarrow> permission_option \<Rightarrow> bool" where
  "looks_like U want opt \<longleftrightarrow>
     contains (to_lower U (po_name opt)) want \<or> contains (to_lower U (po_kind opt)) want"

text \<open>The id of the selected option; \<open>[]\<close> when no option was offered.\<close>

definition pick :: "unicode \<Rightarrow> permission_request \<Rightarrow> gostring \<Rightarrow> gostring" where
  "pick U req want =
     (let chosen = (case find (looks_like U want) (pr_options req) of
                      Some opt \<Rightarrow> po_id opt | None \<Rightarrow> []) in
      if chosen = [] then (case pr_options req of opt # _ \<Rightarrow> po_id opt | [] \<Rightarrow> []) else chosen)"

definition writeish :: "gostring list" where
  "writeish = [''write'', ''edit'', ''bash'', ''exec'', ''run'', ''delete'', ''rm '']"

definition request_title :: "unicode \<Rightarrow> permission_request \<Rightarrow> gostring" where
  "request_title U req = (case pr_title req of None \<Rightarrow> [] | Some t \<Rightarrow> to_lower U t)"

definition decide_allow_all :: "unicode \<Rightarrow> permission_request \<Rightarrow> gostring" where
  "decide_allow_all U req = pick U req ''allow''"

definition decide_deny_all :: "unicode \<Rightarrow> permission_request \<Rightarrow> gostring" where
  "decide_deny_all U req = pick U req ''reject''"

definition decide_read_only :: "unicode \<Rightarrow> permission_request \<Rightarrow> gostring" where
  "decide_read_only U req =
     (if \<exists>w \<in> set writeish. contains (request_title U req) w then pick U req ''reject''
      else pick U req ''allow'')"

text \<open>The dynamic dispatch of the interface.\<close>

fun decide :: "unicode \<Rightarrow> policy \<Rightarrow> permission_request \<Rightarrow> gostring" where
  "decide U AllowAll = decide_allow_all U"
| "decide U ReadOnly = decide_read_only U"
| "decide U DenyAll = decide_deny_all U"

section \<open>Strictness\<close>

text \<open>The policies from the strictest to the most permissive.\<close>

instantiation policy :: linorder
begin

fun strictness :: "policy \<Rightarrow> nat" where
  "strictness DenyAll = 0"
| "strictness ReadOnly = 1"
| "strictness AllowAll = 2"

definition less_eq_policy :: "policy \<Rightarrow> policy \<Rightarrow> bool" where
  "p \<le> q \<longleftrightarrow> strictness p \<le> strictness q"

definition less_policy :: "policy \<Rightarrow> policy \<Rightarrow> bool" where
  "p < q \<longleftrightarrow> strictness p < strictness q"

instance
proof
  fix p q :: policy
  show "p \<le> q \<Longrightarrow> q \<le> p \<Longrightarrow> p = q" by (cases p; cases q) (simp_all add: less_eq_policy_def)
qed (auto simp: less_eq_policy_def less_policy_def)

end

text \<open>A request that a policy approves, as \<open>AllowAll\<close> does, is approved by every more permissive
  policy.\<close>

lemma decide_mono:
  "p \<le> q \<Longrightarrow> decide U p req = decide U AllowAll req \<Longrightarrow> decide U q req = decide U AllowAll req"
  by (cases p; cases q)
    (simp_all add: less_eq_policy_def decide_allow_all_def decide_read_only_def decide_deny_all_def split: if_splits)

section \<open>The interface\<close>

text \<open>What the client may assume of a policy: it answers with an offered option, if there is
  one, and its answer is a function of the request.\<close>

locale permission_policy =
  fixes answer :: "permission_request \<Rightarrow> gostring"
  assumes answer_offered: "pr_options req \<noteq> [] \<Longrightarrow> answer req \<in> po_id ` set (pr_options req)"
    and answer_none: "pr_options req = [] \<Longrightarrow> answer req = []"
begin

lemma answer_in: "answer req \<in> insert [] (po_id ` set (pr_options req))"
  using answer_offered answer_none by (cases "pr_options req = []") auto

text \<open>A request with one option gets it.\<close>

lemma answer_single: "pr_options req = [opt] \<Longrightarrow> answer req = po_id opt"
  using answer_offered [of req] by simp

end

lemma pick_offered:
  assumes "pr_options req \<noteq> []"
  shows "pick U req want \<in> po_id ` set (pr_options req)"
proof (cases "find (looks_like U want) (pr_options req)")
  case None
  with assms show ?thesis by (cases "pr_options req") (simp_all add: pick_def del: find.simps)
next
  case (Some opt)
  with assms find_SomeD [OF Some] show ?thesis
    by (cases "pr_options req") (auto simp: pick_def Let_def simp del: find.simps)
qed

lemma pick_none: "pr_options req = [] \<Longrightarrow> pick U req want = []"
  by (simp add: pick_def)

text \<open>The first option that looks like the wanted answer is selected.\<close>

lemma pick_first:
  assumes "pr_options req = xs @ opt # ys" "looks_like U want opt" "\<forall>x \<in> set xs. \<not> looks_like U want x"
    "po_id opt \<noteq> []"
  shows "pick U req want = po_id opt"
proof -
  have "find (looks_like U want) (xs @ opt # ys) = Some opt"
    using assms(2,3) by (induction xs) auto
  with assms show ?thesis by (simp add: pick_def)
qed

text \<open>Without such an option the first one is.\<close>

lemma pick_fallback:
  assumes "\<forall>x \<in> set (pr_options req). \<not> looks_like U want x" "pr_options req = opt # rest"
  shows "pick U req want = po_id opt"
proof -
  have "find (looks_like U want) (pr_options req) = None" using assms(1) by (simp add: find_None_iff)
  with assms(2) show ?thesis by (simp add: pick_def del: find.simps)
qed

interpretation allow_all: permission_policy "decide_allow_all U" for U
  by unfold_locales (simp_all add: decide_allow_all_def pick_offered pick_none)

interpretation deny_all: permission_policy "decide_deny_all U" for U
  by unfold_locales (simp_all add: decide_deny_all_def pick_offered pick_none)

interpretation read_only: permission_policy "decide_read_only U" for U
  by unfold_locales (simp_all add: decide_read_only_def pick_offered pick_none)

lemma decide_policy: "permission_policy (decide U p)"
  by (cases p)
    (simp_all add: allow_all.permission_policy_axioms deny_all.permission_policy_axioms
      read_only.permission_policy_axioms)

interpretation any_policy: permission_policy "decide U p" for U p
  by (rule decide_policy)

section \<open>What the policies promise\<close>


definition demo_request :: permission_request where
  "demo_request = \<lparr>pr_title = Some ''Run rm -rf'', pr_options =
     [\<lparr>po_id = ''a'', po_name = ''Allow once'', po_kind = ''allow_once''\<rparr>,
      \<lparr>po_id = ''r'', po_name = ''Reject'', po_kind = ''reject_once''\<rparr>]\<rparr>"


text \<open>The deny-all policy approves when no offered option looks like a rejection: it falls back to
  the first option, even one that allows.\<close>

theorem deny_all_can_approve:
  assumes "\<forall>x \<in> set (pr_options req). \<not> looks_like U ''reject'' x" "pr_options req = opt # rest"
    "looks_like U ''allow'' opt"
  shows "decide U DenyAll req = po_id opt \<and> decide U DenyAll req = decide U AllowAll req"
  using pick_fallback [OF assms(1,2)] pick_first [of req "[]" opt rest U "''allow''"] assms(2,3)
    pick_def [of U req "''allow''"]
  by (cases "po_id opt = []") (auto simp: decide_deny_all_def decide_allow_all_def)

theorem deny_all_can_approve_witness:
  "decide ascii_tables DenyAll (demo_request\<lparr>pr_options := [\<lparr>po_id = ''a'', po_name = ''Allow'',
     po_kind = ''allow_once''\<rparr>, \<lparr>po_id = ''d'', po_name = ''Deny'', po_kind = ''deny''\<rparr>]\<rparr>) = ''a''"
proof -
  let ?o = "[\<lparr>po_id = ''a'', po_name = ''Allow'', po_kind = ''allow_once''\<rparr>,
    \<lparr>po_id = ''d'', po_name = ''Deny'', po_kind = ''deny''\<rparr>]"
  have "\<forall>x \<in> set ?o. \<not> looks_like ascii_tables ''reject'' x" "looks_like ascii_tables ''allow'' (hd ?o)"
    by (simp_all add: looks_like_def go_eval)
  then show ?thesis
    using deny_all_can_approve [of "demo_request\<lparr>pr_options := ?o\<rparr>" ascii_tables "hd ?o" "tl ?o"] by simp
qed

end
