(* ===== verification/Go_Decode.thy ===== *)
theory Go_Decode
  imports Go_Strings
begin

text \<open>
  \<open>json.Unmarshal\<close> into Go values, on a parsed document. An object's key fills the field whose
  name it equals up to case; a repeated key is decoded again on top of the first; \<open>null\<close> leaves a
  string, number, boolean or struct alone and clears a pointer, map or slice; a value of the wrong
  type leaves its field alone, and the decoder goes on and reports the first mismatch at the end.
  A decoder takes the document and the value so far, and gives the value and whether all types
  matched. The scanner, which turns bytes into a document, is an argument (\<open>json_lib\<close>), as is the
  text of its errors.
\<close>

record json_lib =
  jl_parse :: "gostring \<Rightarrow> json fallible"     \<comment> \<open>the first value of the input\<close>
  jl_mismatch :: "json \<Rightarrow> gostring"           \<comment> \<open>message of the type error for a document\<close>

type_synonym 'a decoder = "json \<Rightarrow> 'a \<Rightarrow> 'a \<times> bool"

fun dec_string :: "gostring decoder" where
  "dec_string (JString s) _ = (s, True)"
| "dec_string JNull v = (v, True)"
| "dec_string _ v = (v, False)"

fun dec_bool :: "bool decoder" where
  "dec_bool (JBool b) _ = (b, True)"
| "dec_bool JNull v = (v, True)"
| "dec_bool _ v = (v, False)"

text \<open>\<open>*string\<close> and \<open>*bool\<close>.\<close>

fun dec_string_ptr :: "gostring option decoder" where
  "dec_string_ptr (JString s) _ = (Some s, True)"
| "dec_string_ptr JNull _ = (None, True)"
| "dec_string_ptr _ v = (v, False)"

fun dec_bool_ptr :: "bool option decoder" where
  "dec_bool_ptr (JBool b) _ = (Some b, True)"
| "dec_bool_ptr JNull _ = (None, True)"
| "dec_bool_ptr _ v = (v, False)"

text \<open>\<open>*json.RawMessage\<close> and \<open>any\<close>: anything fits.\<close>

fun dec_raw :: "json option decoder" where
  "dec_raw JNull _ = (None, True)"
| "dec_raw j _ = (Some j, True)"

text \<open>\<open>map[string]any\<close>: keys are added to the map there is.\<close>

fun dec_map :: "(gostring \<Rightarrow> json option) option decoder" where
  "dec_map JNull _ = (None, True)"
| "dec_map (JObject kvs) v =
     (Some (foldl (\<lambda>m (k, j). m(k \<mapsto> j)) (case v of None \<Rightarrow> (\<lambda>_. None) | Some m \<Rightarrow> m) kvs), True)"
| "dec_map _ v = (v, False)"

text \<open>A slice; \<open>zero\<close> is the element type's zero value.\<close>

fun dec_list :: "'a decoder \<Rightarrow> 'a \<Rightarrow> 'a list decoder" where
  "dec_list dec zero (JArray js) _ =
     (let rs = map (\<lambda>j. dec j zero) js in (map fst rs, list_all snd rs))"
| "dec_list dec zero JNull _ = ([], True)"
| "dec_list dec zero _ v = (v, False)"

text \<open>One field of a struct: the values of the keys that match its name, in order.\<close>

definition key_matches :: "unicode \<Rightarrow> gostring \<Rightarrow> gostring \<Rightarrow> bool" where
  "key_matches U name k \<longleftrightarrow> k = name \<or> equal_fold U k name"

fun dec_field :: "unicode \<Rightarrow> gostring \<Rightarrow> 'a decoder \<Rightarrow> (gostring \<times> json) list \<Rightarrow> 'a \<Rightarrow> 'a \<times> bool" where
  "dec_field U name dec [] v = (v, True)"
| "dec_field U name dec ((k, j) # kvs) v =
     (if key_matches U name k
      then (let (v', ok) = dec j v; (v'', ok') = dec_field U name dec kvs v' in (v'', ok \<and> ok'))
      else dec_field U name dec kvs v)"

text \<open>A struct: \<open>null\<close> leaves it, an object fills its fields.\<close>

fun dec_struct :: "((gostring \<times> json) list \<Rightarrow> 'a \<Rightarrow> 'a \<times> bool) \<Rightarrow> 'a decoder" where
  "dec_struct flds (JObject kvs) v = flds kvs v"
| "dec_struct flds JNull v = (v, True)"
| "dec_struct flds _ v = (v, False)"

text \<open>\<open>DisallowUnknownFields\<close>: an object's keys must be names of fields.\<close>

definition dec_strict :: "unicode \<Rightarrow> gostring list \<Rightarrow> 'a decoder \<Rightarrow> 'a decoder" where
  "dec_strict U names dec j v =
     (case dec j v of (v', ok) \<Rightarrow>
        (v', ok \<and> (case j of JObject kvs \<Rightarrow> list_all (\<lambda>(k, _). list_ex (\<lambda>n. key_matches U n k) names) kvs
                     | _ \<Rightarrow> True)))"

text \<open>Parse and decode: the value is filled as far as possible even when an error is returned.\<close>

definition unmarshal :: "json_lib \<Rightarrow> 'a decoder \<Rightarrow> gostring \<Rightarrow> 'a \<Rightarrow> 'a \<times> gostring option" where
  "unmarshal L dec data zero =
     (case jl_parse L data of
        Inl e \<Rightarrow> (zero, Some e)
      | Inr j \<Rightarrow> (case dec j zero of (v, ok) \<Rightarrow> (v, if ok then None else Some (jl_mismatch L j))))"

section \<open>Absent and single keys\<close>

lemma dec_field_absent:
  "\<forall>(k, j) \<in> set kvs. \<not> key_matches U name k \<Longrightarrow> dec_field U name dec kvs v = (v, True)"
  by (induction kvs) auto

text \<open>Field names and keys in ASCII.\<close>

lemma key_matches_ascii [go_eval]:
  "is_ascii k \<Longrightarrow> is_ascii name \<Longrightarrow>
     key_matches U name k \<longleftrightarrow> map (\<lambda>b. lower_ascii (byte_of b)) k = map (\<lambda>b. lower_ascii (byte_of b)) name"
  by (auto simp: key_matches_def equal_fold_ascii)

lemma key_matches_self [simp]: "key_matches U name name"
  by (simp add: key_matches_def)


lemma unmarshal_ok_iff:
  "snd (unmarshal L dec data zero) = None \<longleftrightarrow>
     (\<exists>j. jl_parse L data = Inr j \<and> snd (dec j zero))"
  by (auto simp: unmarshal_def split: sum.splits prod.splits)

end
