(* ===== verification/Auth_Broker.thy ===== *)
theory Auth_Broker
  imports Go_Decode
begin

text \<open>
  The login broker (internal/authbroker/authbroker.go): \<open>/login\<close> commands and pasted redirect URLs
  of the agent's two-call login. The agent is an argument (\<open>authenticator\<close>); the state is the map
  of pending logins and the calls made. \<open>start\<close> is two critical sections with the agent's call
  between them; \<open>start_check\<close> and \<open>start_finish\<close> are separate so that another turn of the same
  conversation can come in between.
\<close>

section \<open>Types\<close>

record auth_method =
  am_id :: gostring
  am_name :: gostring
  am_description :: gostring
  am_type :: gostring

record auth_result =
  ar_state :: gostring
  ar_id :: gostring
  ar_url :: gostring
  ar_instructions :: gostring

text \<open>An \<open>Authenticate\<close> call: method, id, redirect, cancel.\<close>

type_synonym auth_call = "gostring \<times> gostring \<times> gostring \<times> bool"

record authenticator =
  au_methods :: "auth_method list"
  au_call :: "auth_call \<Rightarrow> auth_result fallible"

record pending_entry =
  pe_method :: gostring
  pe_auth :: gostring

record broker =
  br_pending :: "gostring \<Rightarrow> pending_entry option"
  br_calls :: "auth_call list"

record outcome =
  oc_text :: gostring
  oc_url :: gostring
  oc_instructions :: gostring

definition new_broker :: broker where
  "new_broker = \<lparr>br_pending = (\<lambda>_. None), br_calls = []\<rparr>"

definition text_outcome :: "gostring \<Rightarrow> outcome" where
  "text_outcome t = \<lparr>oc_text = t, oc_url = [], oc_instructions = []\<rparr>"

section \<open>Commands and methods\<close>

definition has_pending :: "broker \<Rightarrow> gostring \<Rightarrow> bool" where
  "has_pending b conv \<longleftrightarrow> br_pending b conv \<noteq> None"

definition is_login_command :: "gostring \<Rightarrow> bool" where
  "is_login_command text =
     (let t = trim_space text in
      t = ''/login'' \<or> has_prefix t ''/login '' \<or> t = ''/logins'' \<or> t = ''/cancel-login'')"

definition filter_loginable :: "auth_method list \<Rightarrow> auth_method list" where
  "filter_loginable ms = filter (\<lambda>m. am_type m = [] \<or> am_type m = ''agent'') ms"

definition short_id :: "auth_method \<Rightarrow> gostring" where
  "short_id m = trim_prefix (am_id m) ''oauth-''"

definition list_line :: "auth_method \<Rightarrow> gostring" where
  "list_line m =
     ''- `/login '' @ short_id m @ ''` '' @ u_emdash @ '' '' @ am_name m @
     (if am_description m \<noteq> [] then '' ('' @ am_description m @ '')'' else []) @ [nl]"

definition list_logins :: "authenticator \<Rightarrow> outcome" where
  "list_logins au =
     (let loginable = filter_loginable (au_methods au) in
      if loginable = [] then text_outcome ''No OAuth login methods available.''
      else text_outcome (''Available login methods:'' @ [nl, nl] @ concat (map list_line loginable)))"

definition resolve_method_id :: "unicode \<Rightarrow> authenticator \<Rightarrow> gostring \<Rightarrow> gostring fallible" where
  "resolve_method_id U au provider =
     (let loginable = filter_loginable (au_methods au);
          want = to_lower U (trim_space provider) in
      if loginable = [] then Inl ''the agent advertises no OAuth login methods''
      else
        (case find (\<lambda>m. am_id m = provider \<or> equal_fold U (short_id m) want) loginable of
           Some m \<Rightarrow> Inr (am_id m)
         | None \<Rightarrow>
             Inl (''unknown provider '' @ go_quote U provider @ ''. Available: '' @
               join_with '', '' (sort_by str_le (map short_id loginable)))))"

section \<open>Starting, completing, cancelling\<close>

definition set_pending :: "gostring \<Rightarrow> pending_entry option \<Rightarrow> broker \<Rightarrow> broker" where
  "set_pending conv e b = b\<lparr>br_pending := (br_pending b)(conv := e)\<rparr>"

definition log_auth :: "auth_call \<Rightarrow> broker \<Rightarrow> broker" where
  "log_auth c b = b\<lparr>br_calls := br_calls b @ [c]\<rparr>"

definition in_progress_text :: "pending_entry \<Rightarrow> gostring" where
  "in_progress_text e =
     ''A login is already in progress ('' @ pe_method e @
     ''). Paste the redirect URL or send `/cancel-login`.''"

text \<open>Up to the agent's call: the answer given at once, or the method to authenticate with.\<close>

definition start_check :: "unicode \<Rightarrow> authenticator \<Rightarrow> gostring \<Rightarrow> gostring \<Rightarrow> broker \<Rightarrow> outcome + gostring" where
  "start_check U au conv provider b =
     (case resolve_method_id U au provider of
        Inl e \<Rightarrow> Inl (text_outcome e)
      | Inr mid \<Rightarrow>
          (case br_pending b conv of
             Some e \<Rightarrow> Inl (text_outcome (in_progress_text e))
           | None \<Rightarrow> Inr mid))"

definition start_finish ::
  "unicode \<Rightarrow> gostring \<Rightarrow> gostring \<Rightarrow> auth_result fallible \<Rightarrow> broker \<Rightarrow> outcome fallible \<times> broker" where
  "start_finish U conv mid res b =
     (case res of
        Inl e \<Rightarrow> (Inl (''authenticate '' @ mid @ '': '' @ e), b)
      | Inr r \<Rightarrow>
          if ar_state r = ''needs_redirect'' then
            (let t = ''Open this URL to authenticate, then paste the URL of the page you land on (even if it fails to load):'' @
                     [nl, nl] @ ar_url r @ [nl];
                 t' = (if ar_instructions r \<noteq> [] then t @ [nl] @ ar_instructions r @ [nl] else t) in
             (Inr \<lparr>oc_text = t', oc_url = ar_url r, oc_instructions = ar_instructions r\<rparr>,
              set_pending conv (Some \<lparr>pe_method = mid, pe_auth = ar_id r\<rparr>) b))
          else if ar_state r = ''ok'' \<or> ar_state r = [] then
            (Inr (text_outcome (u_check @ '' Already authenticated ('' @ mid @ '').'')), b)
          else if ar_state r = ''cancelled'' then (Inr (text_outcome ''Login cancelled.''), b)
          else (Inr (text_outcome (''Login returned unexpected state: '' @ go_quote U (ar_state r) @ ''.'')), b))"

definition start_login ::
  "unicode \<Rightarrow> authenticator \<Rightarrow> gostring \<Rightarrow> gostring \<Rightarrow> broker \<Rightarrow> outcome fallible \<times> broker" where
  "start_login U au conv provider b =
     (case start_check U au conv provider b of
        Inl oc \<Rightarrow> (Inr oc, b)
      | Inr mid \<Rightarrow>
          start_finish U conv mid (au_call au (mid, [], [], False)) (log_auth (mid, [], [], False) b))"

definition complete_login ::
  "unicode \<Rightarrow> authenticator \<Rightarrow> gostring \<Rightarrow> pending_entry \<Rightarrow> gostring \<Rightarrow> broker \<Rightarrow> outcome \<times> broker" where
  "complete_login U au conv e redirect b =
     (if redirect = [] then
        (text_outcome (''Empty paste '' @ u_emdash @ '' send the redirect URL or `/cancel-login`.''), b)
      else
        (let c = (pe_method e, pe_auth e, redirect, False);
             b' = set_pending conv None (log_auth c b) in
         (case au_call au c of
            Inl err \<Rightarrow>
              text_outcome (u_cross @ '' Login failed: '' @ err @ [nl, nl] @ ''Send `/login '' @
                trim_prefix (pe_method e) ''oauth-'' @ ''` to try again.'')
          | Inr r \<Rightarrow>
              if ar_state r = ''ok'' \<or> ar_state r = [] then
                text_outcome (u_check @ '' Authenticated ('' @ pe_method e @ '').'')
              else if ar_state r = ''cancelled'' then text_outcome ''Login cancelled.''
              else text_outcome (''Login returned unexpected state: '' @ go_quote U (ar_state r) @ ''.''),
          b')))"

definition cancel_login ::
  "authenticator \<Rightarrow> gostring \<Rightarrow> pending_entry \<Rightarrow> broker \<Rightarrow> outcome \<times> broker" where
  "cancel_login au conv e b =
     (let c = (pe_method e, pe_auth e, [], True) in
      (case au_call au c of
         Inl err \<Rightarrow> text_outcome (''Login cancelled (agent reported: '' @ err @ '').'')
       | Inr _ \<Rightarrow> text_outcome ''Login cancelled.'',
       log_auth c (set_pending conv None b)))"

text \<open>\<open>Handle\<close>: \<open>Inr None\<close> is \<open>(nil, nil)\<close>, a turn that is not about logins.\<close>

definition handle_auth_turn ::
  "unicode \<Rightarrow> authenticator \<Rightarrow> gostring \<Rightarrow> gostring \<Rightarrow> broker \<Rightarrow> outcome option fallible \<times> broker" where
  "handle_auth_turn U au conv text b =
     (let t = trim_space text in
      case br_pending b conv of
        Some e \<Rightarrow>
          (if t = ''/cancel-login'' then apfst (Inr \<circ> Some) (cancel_login au conv e b)
           else apfst (Inr \<circ> Some) (complete_login U au conv e t b))
      | None \<Rightarrow>
          if \<not> is_login_command t then (Inr None, b)
          else if t = ''/cancel-login'' then (Inr (Some (text_outcome ''No login in progress.'')), b)
          else if t = ''/login'' \<or> t = ''/logins'' then (Inr (Some (list_logins au)), b)
          else apfst (map_sum id Some)
            (start_login U au conv (trim_space (trim_prefix t ''/login'')) b))"

section \<open>The interface of the HTTP handler\<close>

text \<open>What the handler (internal/httpsrv/handler.go, \<open>AuthBroker\<close>) relies on: a turn it intercepts
  gets an answer, a turn it would not have intercepted is left alone, and the turns of one
  conversation do not touch the logins of another. \<open>say\<close> is what an answer tells the user.\<close>

locale auth_broker =
  fixes has :: "'s \<Rightarrow> gostring \<Rightarrow> bool"
    and is_cmd :: "gostring \<Rightarrow> bool"
    and handle :: "gostring \<Rightarrow> gostring \<Rightarrow> 's \<Rightarrow> 'o option fallible \<times> 's"
    and say :: "'o \<Rightarrow> gostring"
  assumes answered: "has s c \<or> is_cmd t \<Longrightarrow> fst (handle c t s) \<noteq> Inr None"
    and ignored: "\<not> has s c \<Longrightarrow> \<not> is_cmd t \<Longrightarrow> handle c t s = (Inr None, s)"
    and isolated: "c' \<noteq> c \<Longrightarrow> has (snd (handle c t s)) c' = has s c'"
    and speaks: "fst (handle c t s) = Inr (Some oc) \<Longrightarrow> say oc \<noteq> []"
begin

text \<open>A conversation without a login and without a command never enters the broker.\<close>

lemma ordinary_turn: "\<not> has s c \<Longrightarrow> \<not> is_cmd t \<Longrightarrow> snd (handle c t s) = s"
  by (simp add: ignored)

lemma intercepted_cases:
  assumes "has s c \<or> is_cmd t"
  obtains (failed) e s' where "handle c t s = (Inl e, s')"
  | (told) oc s' where "handle c t s = (Inr (Some oc), s')" "say oc \<noteq> []"
proof (cases "handle c t s")
  case (Pair res s')
  then show ?thesis
    using answered [OF assms] speaks [of c t s] failed told by (cases res) (force split: option.splits)+
qed

text \<open>Any sequence of turns of other conversations leaves the logins of this one.\<close>

lemma isolated_fold: "c \<notin> fst ` set ts \<Longrightarrow> has (fold (\<lambda>(c, t) s. snd (handle c t s)) ts s) c = has s c"
proof (induction ts arbitrary: s)
  case (Cons ct ts)
  obtain c' t where "ct = (c', t)" by (cases ct)
  with Cons.prems Cons.IH [of "snd (handle c' t s)"] isolated [of c c' t s] show ?case by simp
qed simp

end

section \<open>The broker provides it\<close>

lemma is_login_command_trim [simp]: "is_login_command (trim_space t) = is_login_command t"
  by (simp add: is_login_command_def)

lemma text_outcome_simps [simp]: "oc_text (text_outcome t) = t" "oc_url (text_outcome t) = []"
  by (simp_all add: text_outcome_def)

lemma set_pending_other [simp]: "c' \<noteq> c \<Longrightarrow> br_pending (set_pending c e b) c' = br_pending b c'"
  by (simp add: set_pending_def)

lemma log_auth_pending [simp]: "br_pending (log_auth c b) = br_pending b"
  by (simp add: log_auth_def)

lemma list_logins_text [simp]: "oc_text (list_logins au) \<noteq> []"
  by (simp add: list_logins_def Let_def)

lemma start_finish_other: "c' \<noteq> c \<Longrightarrow> br_pending (snd (start_finish U c mid res b)) c' = br_pending b c'"
  by (auto simp: start_finish_def Let_def split: sum.splits)

lemma start_finish_text: "fst (start_finish U c mid res b) = Inr oc \<Longrightarrow> oc_text oc \<noteq> []"
  by (auto simp: start_finish_def Let_def u_check_def split: sum.splits if_splits)

lemma start_check_text: "start_check U au c p b = Inl oc \<Longrightarrow> oc_text oc \<noteq> []"
  by (auto simp: start_check_def resolve_method_id_def in_progress_text_def Let_def split: sum.splits option.splits if_splits)

lemma start_login_other: "c' \<noteq> c \<Longrightarrow> br_pending (snd (start_login U au c p b)) c' = br_pending b c'"
  by (simp add: start_login_def start_finish_other split: sum.splits)

lemma start_login_text: "fst (start_login U au c p b) = Inr oc \<Longrightarrow> oc_text oc \<noteq> []"
  by (auto simp: start_login_def dest: start_check_text start_finish_text split: sum.splits)

lemma complete_login_other: "c' \<noteq> c \<Longrightarrow> br_pending (snd (complete_login U au c e t b)) c' = br_pending b c'"
  by (simp add: complete_login_def Let_def)

lemma complete_login_text: "oc_text (fst (complete_login U au c e t b)) \<noteq> []"
  by (simp add: complete_login_def Let_def u_check_def u_cross_def split: sum.splits)

lemma cancel_login_other: "c' \<noteq> c \<Longrightarrow> br_pending (snd (cancel_login au c e b)) c' = br_pending b c'"
  by (simp add: cancel_login_def Let_def)

lemma cancel_login_text: "oc_text (fst (cancel_login au c e b)) \<noteq> []"
  by (simp add: cancel_login_def Let_def split: sum.splits)

lemmas broker_others = start_login_other complete_login_other cancel_login_other
lemmas broker_texts = start_login_text complete_login_text cancel_login_text

lemma handle_other: "c' \<noteq> c \<Longrightarrow> br_pending (snd (handle_auth_turn U au c t b)) c' = br_pending b c'"
  by (simp add: handle_auth_turn_def Let_def broker_others split: option.splits)

lemma handle_speaks: "fst (handle_auth_turn U au c t b) = Inr (Some oc) \<Longrightarrow> oc_text oc \<noteq> []"
  by (auto simp: handle_auth_turn_def Let_def map_sum_def broker_texts
      split: option.splits if_splits sum.splits dest: start_login_text)

lemma handle_answered:
  "has_pending b c \<or> is_login_command t \<Longrightarrow> fst (handle_auth_turn U au c t b) \<noteq> Inr None"
  by (cases "start_login U au c (trim_space (trim_prefix (trim_space t) ''/login'')) b")
    (auto simp: handle_auth_turn_def has_pending_def Let_def split: option.splits; simp add: map_sum_def split: sum.splits)

lemma handle_ignored:
  "\<not> has_pending b c \<Longrightarrow> \<not> is_login_command t \<Longrightarrow> handle_auth_turn U au c t b = (Inr None, b)"
  by (simp add: handle_auth_turn_def has_pending_def Let_def)

interpretation login: auth_broker has_pending is_login_command "handle_auth_turn U au" oc_text for U au
proof
  fix s c t c' and oc :: outcome
  show "has_pending s c \<or> is_login_command t \<Longrightarrow> fst (handle_auth_turn U au c t s) \<noteq> Inr None"
    by (rule handle_answered)
  show "\<not> has_pending s c \<Longrightarrow> \<not> is_login_command t \<Longrightarrow> handle_auth_turn U au c t s = (Inr None, s)"
    by (rule handle_ignored)
  show "c' \<noteq> c \<Longrightarrow> has_pending (snd (handle_auth_turn U au c t s)) c' = has_pending s c'"
    by (simp add: has_pending_def handle_other)
  show "fst (handle_auth_turn U au c t s) = Inr (Some oc) \<Longrightarrow> oc_text oc \<noteq> []"
    by (rule handle_speaks)
qed

section \<open>The two calls of a login\<close>

text \<open>Turns of several conversations, one after the other.\<close>

definition auth_turns ::
  "unicode \<Rightarrow> authenticator \<Rightarrow> (gostring \<times> gostring) list \<Rightarrow> broker \<Rightarrow> broker" where
  "auth_turns U au ts b = fold (\<lambda>(c, t) s. snd (handle_auth_turn U au c t s)) ts b"

lemma auth_turns_other:
  "c \<notin> fst ` set ts \<Longrightarrow> br_pending (auth_turns U au ts b) c = br_pending b c"
  unfolding auth_turns_def
proof (induction ts arbitrary: b)
  case (Cons ct ts)
  then show ?case by (cases ct) (simp add: handle_other)
qed simp

text \<open>C28: A login takes exactly two agent calls, whatever other conversations do in between: the
  \<open>/login\<close> turn starts it and remembers the method and the agent's id, and the conversation's next
  turn that is neither empty nor \<open>/cancel-login\<close> hands the trimmed text with that method and id to
  the agent and forgets the login, whether it succeeded or not.\<close>

theorem login_is_two_calls:
  assumes "br_pending b c = None" "resolve_method_id U au provider = Inr mid"
    and "au_call au (mid, [], [], False) = Inr r" "ar_state r = ''needs_redirect''"
    and "trim_space provider = provider" "provider \<noteq> []" "trim_space (''/login '' @ provider) = ''/login '' @ provider"
    and "c \<notin> fst ` set others" "trim_space paste \<notin> {[], ''/cancel-login''}"
  shows "\<exists>b1. snd (handle_auth_turn U au c (''/login '' @ provider) b) = b1 \<and>
    br_calls b1 = br_calls b @ [(mid, [], [], False)] \<and>
    br_pending b1 = (br_pending b)(c \<mapsto> \<lparr>pe_method = mid, pe_auth = ar_id r\<rparr>) \<and>
    (let b2 = auth_turns U au others b1; b3 = snd (handle_auth_turn U au c paste b2) in
      br_calls b3 = br_calls b2 @ [(mid, ar_id r, trim_space paste, False)] \<and>
      br_pending b3 = (br_pending b2)(c := None))"
proof -
  have trim: "trim_space (trim_prefix (''/login '' @ provider) ''/login'') = provider"
  proof -
    have "trim_prefix (''/login '' @ provider) ''/login'' = CHR '' '' # provider"
      using trim_prefix_append [of "''/login''" "CHR '' '' # provider"] by simp
    moreover have "trim_left_space (CHR '' '' # provider) = trim_left_space provider"
    proof -
      have "leading_space (CHR '' '' # provider) = 1"
        by (simp add: leading_space_def space_runes_def has_prefix_def)
      then show ?thesis by (subst trim_left_space.simps) simp
    qed
    ultimately show ?thesis using assms(5) by (simp add: trim_space_def)
  qed
  have cmd: "is_login_command (''/login '' @ provider)"
    using has_prefix_append [of "''/login ''" provider] assms(7) by (simp add: is_login_command_def Let_def)
  let ?b1 = "set_pending c (Some \<lparr>pe_method = mid, pe_auth = ar_id r\<rparr>) (log_auth (mid, [], [], False) b)"
  have b1: "snd (handle_auth_turn U au c (''/login '' @ provider) b) = ?b1"
    unfolding handle_auth_turn_def Let_def assms(7)
    using assms(1,2,3,4,6) cmd trim
    by (simp add: start_login_def start_check_def start_finish_def Let_def)
  have "br_pending (auth_turns U au others ?b1) c = Some \<lparr>pe_method = mid, pe_auth = ar_id r\<rparr>"
    using auth_turns_other [OF assms(8)] by (simp add: set_pending_def)
  then have "snd (handle_auth_turn U au c paste (auth_turns U au others ?b1)) =
    set_pending c None (log_auth (mid, ar_id r, trim_space paste, False) (auth_turns U au others ?b1))"
    using assms(9) by (simp add: handle_auth_turn_def complete_login_def Let_def)
  with b1 show ?thesis by (simp add: Let_def set_pending_def log_auth_def)
qed

definition demo_authenticator :: authenticator where
  "demo_authenticator = \<lparr>au_methods = [\<lparr>am_id = ''oauth-x'', am_name = ''X'', am_description = [], am_type = []\<rparr>],
     au_call = (\<lambda>(m, i, r, c). Inr \<lparr>ar_state = (if r = [] then ''needs_redirect'' else ''ok''), ar_id = ''7'',
       ar_url = ''https://x'', ar_instructions = []\<rparr>)\<rparr>"

lemma trim_demo:
  "trim_space ''x'' = ''x''" "trim_space ''u'' = ''u''" "trim_space ''/login x'' = ''/login x''"
  by (rule trim_space_trimmed; simp add: leading_space_def trailing_space_def space_runes_def go_eval)+

theorem login_is_two_calls_witness:
  "br_calls (snd (handle_auth_turn ascii_tables demo_authenticator ''c'' ''u''
     (snd (handle_auth_turn ascii_tables demo_authenticator ''c'' ''/login x'' new_broker)))) =
   [(''oauth-x'', [], [], False), (''oauth-x'', ''7'', ''u'', False)]"
proof -
  have r: "resolve_method_id ascii_tables demo_authenticator ''x'' = Inr ''oauth-x''"
  proof -
    have "equal_fold ascii_tables ''x'' ''x''"
      by (simp add: equal_fold_def list_all2_refl fold_eq_def)
    moreover have "to_lower ascii_tables ''x'' = ''x''" by (simp add: go_eval)
    ultimately show ?thesis
      by (simp add: resolve_method_id_def Let_def demo_authenticator_def filter_loginable_def short_id_def
          trim_demo go_eval)
  qed
  show ?thesis
    using login_is_two_calls [of new_broker "''c''" ascii_tables demo_authenticator "''x''" "''oauth-x''"
        "\<lparr>ar_state = ''needs_redirect'', ar_id = ''7'', ar_url = ''https://x'', ar_instructions = []\<rparr>" "[]" "''u''"]
      r trim_demo
    by (simp add: new_broker_def demo_authenticator_def auth_turns_def Let_def)
qed

text \<open>While a login is pending every other text is a paste, commands included: \<open>/login other\<close> is
  handed to the agent as the redirect URL and ends the login; the answer that a login is already in
  progress is never given to a turn that finds one.\<close>

theorem pending_login_swallows_commands:
  assumes "br_pending b c = Some e" "trim_space text \<notin> {[], ''/cancel-login''}" "is_login_command text"
  shows "br_calls (snd (handle_auth_turn U au c text b)) =
      br_calls b @ [(pe_method e, pe_auth e, trim_space text, False)] \<and>
    \<not> has_pending (snd (handle_auth_turn U au c text b)) c"
  using assms
  by (simp add: handle_auth_turn_def complete_login_def Let_def set_pending_def log_auth_def has_pending_def)

theorem pending_login_swallows_commands_witness:
  "br_calls (snd (handle_auth_turn ascii_tables demo_authenticator ''c'' ''/login x''
     (new_broker\<lparr>br_pending := [''c'' \<mapsto> \<lparr>pe_method = ''oauth-x'', pe_auth = ''7''\<rparr>]\<rparr>))) =
   [(''oauth-x'', ''7'', ''/login x'', False)]"
proof -
  have "is_login_command ''/login x''" by (simp add: is_login_command_def Let_def trim_demo go_eval)
  then show ?thesis
    using pending_login_swallows_commands [of "new_broker\<lparr>br_pending := [''c'' \<mapsto> \<lparr>pe_method = ''oauth-x'', pe_auth = ''7''\<rparr>]\<rparr>"
        "''c''" "\<lparr>pe_method = ''oauth-x'', pe_auth = ''7''\<rparr>" "''/login x''" ascii_tables demo_authenticator]
    by (simp add: trim_demo new_broker_def)
qed

text \<open>Two \<open>/login\<close> turns of one conversation that overlap both pass the check and both start a
  login at the agent; the one that finishes last overwrites the other, whose id the broker then no
  longer knows.\<close>

lemma overlapping_logins_lose_one:
  assumes "start_check U au c p1 b = Inr m1" "start_check U au c p2 b = Inr m2"
    and "ar_state r1 = ''needs_redirect''" "ar_state r2 = ''needs_redirect''"
  shows "let b1 = snd (start_finish U c m1 (Inr r1) b); (oc, b2) = start_finish U c m2 (Inr r2) b1 in
    br_pending b1 c = Some \<lparr>pe_method = m1, pe_auth = ar_id r1\<rparr> \<and>
    br_pending b2 = (br_pending b)(c \<mapsto> \<lparr>pe_method = m2, pe_auth = ar_id r2\<rparr>) \<and>
    map_sum id oc_url oc = Inr (ar_url r2)"
  using assms by (simp add: start_finish_def Let_def set_pending_def)

end
