(* ===== verification/Acp_Client.thy ===== *)
theory Acp_Client
  imports Policy Auth_Broker Router_State Go_Path
begin

text \<open>
  The agent client (internal/acpclient/agent.go): the requests the relay sends to the agent
  process, what it reads from the answers, and the calls the agent makes on the relay
  (\<open>dispatch\<close>): session updates, permission requests, reading and writing files. The agent and the
  SDK's connection are an argument (\<open>acp_peer\<close>): the raw answer to each request, and the SDK's
  decoding of its own types. The disk is an argument too. The state is \<open>AgentProc\<close> with histories of
  what was sent, delivered and done on disk.
\<close>

section \<open>Types\<close>

text \<open>A request by the struct the relay fills; a notification for \<open>session/cancel\<close>. The first
  argument of the new-session request's blocks is \<open>None\<close> when there is no \<open>_meta\<close>.\<close>

datatype acp_request =
    ReqInitialize
  | ReqNewSession gostring "content_block list option"
  | ReqSetModel gostring gostring
  | ReqSetConfig gostring gostring gostring
  | ReqListSessions gostring
  | ReqResume gostring gostring                  \<comment> \<open>session id, cwd\<close>
  | ReqPrompt gostring "content_block list"
  | ReqAuthenticate json
  | NoteCancel gostring

record model_info =
  mi_id :: gostring
  mi_name :: gostring

text \<open>\<open>acp.SessionModelState\<close>.\<close>

record model_state =
  mst_available :: "model_info list"
  mst_current :: gostring

record session_info =
  si_session_id :: gostring
  si_cwd :: gostring
  si_title :: "gostring option"
  si_updated_at :: gostring

record read_request =
  rd_path :: gostring
  rd_line :: "int option"
  rd_limit :: "int option"

record acp_peer =
  px_json :: json_lib
  px_call :: "acp_request \<Rightarrow> gostring fallible"
  px_new_session :: "gostring \<Rightarrow> (gostring \<times> model_state option) fallible"
  px_set_model :: "gostring \<Rightarrow> error"
  px_prompt :: "gostring \<Rightarrow> stop_reason fallible"
  px_update :: "gostring \<Rightarrow> (gostring \<times> session_update) fallible"
  px_permission :: "gostring \<Rightarrow> permission_request fallible"
  px_read :: "gostring \<Rightarrow> read_request fallible"
  px_write :: "gostring \<Rightarrow> (gostring \<times> gostring) fallible"

record disk_env =
  dk_read :: "gostring \<Rightarrow> gostring fallible"
  dk_mkdir_all :: "gostring \<Rightarrow> error"
  dk_write :: "gostring \<Rightarrow> gostring \<Rightarrow> error"

datatype disk_op = DiskRead gostring | DiskMkdir gostring | DiskWrite gostring gostring

text \<open>A session's sink is its session object.\<close>

datatype update_sink = SessionSink nat | NoopSink

record agent_proc =
  ap_policy :: policy
  ap_caps :: caps
  ap_sinks :: "gostring \<Rightarrow> update_sink option"
  ap_models :: "model_state option"
  ap_auth_methods :: "auth_method list"
  ap_sent :: "acp_request list"
  ap_delivered :: "(nat \<times> session_update) list"
  ap_disk :: "disk_op list"

definition log_sent :: "acp_request \<Rightarrow> agent_proc \<Rightarrow> agent_proc" where
  "log_sent q a = a\<lparr>ap_sent := ap_sent a @ [q]\<rparr>"

definition log_disk :: "disk_op list \<Rightarrow> agent_proc \<Rightarrow> agent_proc" where
  "log_disk ops a = a\<lparr>ap_disk := ap_disk a @ ops\<rparr>"

declare log_sent_def [relay_defs] log_disk_def [relay_defs]

section \<open>What initialize announces\<close>

definition dec_session_caps :: "unicode \<Rightarrow> (json option \<times> json option) decoder" where
  "dec_session_caps U = dec_struct (\<lambda>kvs v.
     (let (l, o1) = dec_field U ''list'' dec_raw kvs (fst v);
          (r, o2) = dec_field U ''resume'' dec_raw kvs (snd v) in
      ((l, r), o1 \<and> o2)))"

definition dec_prompt_caps :: "unicode \<Rightarrow> bool decoder" where
  "dec_prompt_caps U = dec_struct (\<lambda>kvs v. dec_field U ''embeddedContext'' dec_bool kvs v)"

record raw_caps =
  rw_load :: bool
  rw_session :: "json option \<times> json option"
  rw_embedded :: bool
  rw_meta :: "(gostring \<Rightarrow> json option) option"

definition dec_agent_caps :: "unicode \<Rightarrow> raw_caps decoder" where
  "dec_agent_caps U = dec_struct (\<lambda>kvs v.
     (let (load, o1) = dec_field U ''loadSession'' dec_bool kvs (rw_load v);
          (ses, o2) = dec_field U ''sessionCapabilities'' (dec_session_caps U) kvs (rw_session v);
          (emb, o3) = dec_field U ''promptCapabilities'' (dec_prompt_caps U) kvs (rw_embedded v);
          (meta, o4) = dec_field U ''_meta'' dec_map kvs (rw_meta v) in
      (\<lparr>rw_load = load, rw_session = ses, rw_embedded = emb, rw_meta = meta\<rparr>, o1 \<and> o2 \<and> o3 \<and> o4)))"

definition parse_caps :: "json_lib \<Rightarrow> unicode \<Rightarrow> gostring \<Rightarrow> caps" where
  "parse_caps L U raw =
     (let (v, _) = unmarshal L (dec_struct (\<lambda>kvs v. dec_field U ''agentCapabilities'' (dec_agent_caps U) kvs v)) raw
            \<lparr>rw_load = False, rw_session = (None, None), rw_embedded = False, rw_meta = None\<rparr> in
      \<lparr>cap_load_session = rw_load v,
       cap_list_sessions = fst (rw_session v) \<noteq> None,
       cap_resume_session = snd (rw_session v) \<noteq> None,
       cap_embedded_context = rw_embedded v,
       cap_system_prompt = (case rw_meta v of None \<Rightarrow> False | Some m \<Rightarrow> m ''session.systemPrompt'' \<noteq> None)\<rparr>)"

definition zero_method :: auth_method where
  "zero_method = \<lparr>am_id = [], am_name = [], am_description = [], am_type = []\<rparr>"

definition dec_auth_method :: "unicode \<Rightarrow> auth_method decoder" where
  "dec_auth_method U = dec_struct (\<lambda>kvs v.
     (let (mid, o1) = dec_field U ''id'' dec_string kvs (am_id v);
          (name, o2) = dec_field U ''name'' dec_string kvs (am_name v);
          (descr, o3) = dec_field U ''description'' dec_string kvs (am_description v);
          (typ, o4) = dec_field U ''type'' dec_string kvs (am_type v) in
      (\<lparr>am_id = mid, am_name = name, am_description = descr, am_type = typ\<rparr>, o1 \<and> o2 \<and> o3 \<and> o4)))"

definition parse_auth_methods :: "json_lib \<Rightarrow> unicode \<Rightarrow> gostring \<Rightarrow> auth_method list" where
  "parse_auth_methods L U raw =
     fst (unmarshal L (dec_struct (\<lambda>kvs v.
        dec_field U ''authMethods'' (dec_list (dec_auth_method U) zero_method) kvs v)) raw [])"

text \<open>\<open>connect\<close>, after the process has been started.\<close>

definition connect :: "unicode \<Rightarrow> acp_peer \<Rightarrow> policy \<Rightarrow> agent_proc fallible" where
  "connect U px pol =
     (case px_call px ReqInitialize of
        Inl e \<Rightarrow> Inl (''acp initialize: '' @ e)
      | Inr raw \<Rightarrow>
          Inr \<lparr>ap_policy = pol, ap_caps = parse_caps (px_json px) U raw, ap_sinks = (\<lambda>_. None), ap_models = None,
               ap_auth_methods = parse_auth_methods (px_json px) U raw, ap_sent = [ReqInitialize],
               ap_delivered = [], ap_disk = []\<rparr>)"

text \<open>\<open>Start\<close>: \<open>spawn\<close> starts the process with its command, directory and environment and connects its
  pipes. Without a directory it runs in \<open>tmp\<close>; a missing environment is the relay's own.\<close>

definition start_agent ::
  "unicode \<Rightarrow> (gostring list \<Rightarrow> gostring \<Rightarrow> gostring list option \<Rightarrow> acp_peer fallible) \<Rightarrow> gostring \<Rightarrow>
   gostring list \<Rightarrow> gostring \<Rightarrow> gostring list option \<Rightarrow> policy option \<Rightarrow> (acp_peer \<times> agent_proc) fallible" where
  "start_agent U spawn tmp command cwd env pol =
     (if command = [] then Inl ''acpclient: empty Command''
      else
        (case pol of
           None \<Rightarrow> Inl ''acpclient: nil Policy''
         | Some p \<Rightarrow>
             (case spawn command (if cwd = [] then tmp else cwd) env of
                Inl e \<Rightarrow> Inl (''start agent: '' @ e)
              | Inr px \<Rightarrow> map_sum id (Pair px) (connect U px p))))"

section \<open>Sessions\<close>

definition new_session ::
  "acp_peer \<Rightarrow> gostring \<Rightarrow> update_sink \<Rightarrow> content_block list option \<Rightarrow> agent_proc \<Rightarrow> gostring fallible \<times> agent_proc" where
  "new_session px cwd k blocks a =
     (let q = ReqNewSession cwd blocks; a1 = log_sent q a in
      case px_call px q of
        Inl e \<Rightarrow> (Inl e, a1)
      | Inr raw \<Rightarrow>
          (case px_new_session px raw of
             Inl e \<Rightarrow> (Inl e, a1)
           | Inr (sid, models) \<Rightarrow>
               (Inr sid, a1\<lparr>ap_sinks := (ap_sinks a1)(sid \<mapsto> k),
                            ap_models := (case models of None \<Rightarrow> ap_models a1 | Some _ \<Rightarrow> models)\<rparr>)))"

definition models :: "agent_proc \<Rightarrow> model_info list \<times> gostring" where
  "models a = (case ap_models a of None \<Rightarrow> ([], []) | Some m \<Rightarrow> (mst_available m, mst_current m))"

definition must_temp_dir :: "gostring \<Rightarrow> go_panic" where
  "must_temp_dir e = MustFailed (''acpclient: probe mkdir tmp: '' @ e)"

text \<open>\<open>ProbeModels\<close> in the temporary directory \<open>tmp\<close>.\<close>

definition probe_models :: "acp_peer \<Rightarrow> gostring fallible \<Rightarrow> agent_proc \<Rightarrow> go_panic + (error \<times> agent_proc)" where
  "probe_models px tmp a =
     (if ap_models a \<noteq> None then Inr (None, a)
      else
        (case tmp of
           Inl e \<Rightarrow> Inl (must_temp_dir e)
         | Inr dir \<Rightarrow>
             (case new_session px dir NoopSink None a of
                (Inl e, a') \<Rightarrow> Inr (Some (''probe: new session: '' @ e), a')
              | (Inr sid, a') \<Rightarrow> Inr (None, a'\<lparr>ap_sinks := (ap_sinks a')(sid := None)\<rparr>))))"

definition dec_session_info :: "unicode \<Rightarrow> session_info decoder" where
  "dec_session_info U = dec_struct (\<lambda>kvs v.
     (let (sid, o1) = dec_field U ''sessionId'' dec_string kvs (si_session_id v);
          (cwd, o2) = dec_field U ''cwd'' dec_string kvs (si_cwd v);
          (title, o3) = dec_field U ''title'' dec_string_ptr kvs (si_title v);
          (upd, o4) = dec_field U ''updatedAt'' dec_string kvs (si_updated_at v) in
      (\<lparr>si_session_id = sid, si_cwd = cwd, si_title = title, si_updated_at = upd\<rparr>, o1 \<and> o2 \<and> o3 \<and> o4)))"

definition list_sessions ::
  "unicode \<Rightarrow> acp_peer \<Rightarrow> gostring \<Rightarrow> agent_proc \<Rightarrow> session_info list fallible \<times> agent_proc" where
  "list_sessions U px cwd a =
     (case px_call px (ReqListSessions cwd) of
        Inl e \<Rightarrow> (Inl e, log_sent (ReqListSessions cwd) a)
      | Inr raw \<Rightarrow>
          (case unmarshal (px_json px) (dec_struct (\<lambda>kvs v.
                  dec_field U ''sessions'' (dec_list (dec_session_info U)
                    \<lparr>si_session_id = [], si_cwd = [], si_title = None, si_updated_at = []\<rparr>) kvs v)) raw [] of
             (_, Some e) \<Rightarrow> (Inl e, log_sent (ReqListSessions cwd) a)
           | (ss, None) \<Rightarrow> (Inr ss, log_sent (ReqListSessions cwd) a)))"

definition resume_session ::
  "acp_peer \<Rightarrow> gostring \<Rightarrow> gostring \<Rightarrow> update_sink \<Rightarrow> agent_proc \<Rightarrow> error \<times> agent_proc" where
  "resume_session px cwd sid k a =
     (case px_call px (ReqResume sid cwd) of
        Inl e \<Rightarrow> (Some e, log_sent (ReqResume sid cwd) a)
      | Inr _ \<Rightarrow> (None, (log_sent (ReqResume sid cwd) a)\<lparr>ap_sinks := (ap_sinks a)(sid \<mapsto> k)\<rparr>))"

definition set_model :: "acp_peer \<Rightarrow> gostring \<Rightarrow> gostring \<Rightarrow> agent_proc \<Rightarrow> error \<times> agent_proc" where
  "set_model px sid model a =
     ((case px_call px (ReqSetModel sid model) of Inl e \<Rightarrow> Some e | Inr raw \<Rightarrow> px_set_model px raw),
      log_sent (ReqSetModel sid model) a)"

definition set_config_option ::
  "acp_peer \<Rightarrow> gostring \<Rightarrow> gostring \<Rightarrow> gostring \<Rightarrow> agent_proc \<Rightarrow> error \<times> agent_proc" where
  "set_config_option px sid cid val a =
     ((case px_call px (ReqSetConfig sid cid val) of Inl e \<Rightarrow> Some e | Inr _ \<Rightarrow> None),
      log_sent (ReqSetConfig sid cid val) a)"

definition agent_prompt ::
  "acp_peer \<Rightarrow> gostring \<Rightarrow> content_block list \<Rightarrow> agent_proc \<Rightarrow> stop_reason fallible \<times> agent_proc" where
  "agent_prompt px sid blocks a =
     ((case px_call px (ReqPrompt sid blocks) of Inl e \<Rightarrow> Inl e | Inr raw \<Rightarrow> px_prompt px raw),
      log_sent (ReqPrompt sid blocks) a)"

definition agent_cancel :: "acp_peer \<Rightarrow> gostring \<Rightarrow> agent_proc \<Rightarrow> error \<times> agent_proc" where
  "agent_cancel px sid a =
     ((case px_call px (NoteCancel sid) of Inl e \<Rightarrow> Some e | Inr _ \<Rightarrow> None), log_sent (NoteCancel sid) a)"

section \<open>Authentication\<close>

text \<open>A Go map is marshalled with its keys sorted.\<close>

definition auth_params :: "auth_call \<Rightarrow> json" where
  "auth_params c =
     (case c of (mid, aid, redirect, cancel) \<Rightarrow>
        JObject [(''_meta'', JObject [(''auth'', JObject
           ((if cancel then [(''cancel'', JBool True)] else []) @
            (if aid \<noteq> [] then [(''id'', JString aid)] else []) @
            [(''interactive'', JBool True)] @
            (if redirect \<noteq> [] then [(''redirect'', JString redirect)] else [])))]),
          (''methodId'', JString mid)])"

definition dec_auth_result :: "unicode \<Rightarrow> auth_result decoder" where
  "dec_auth_result U = dec_struct (\<lambda>kvs v.
     (let (st, o1) = dec_field U ''state'' dec_string kvs (ar_state v);
          (aid, o2) = dec_field U ''id'' dec_string kvs (ar_id v);
          (url, o3) = dec_field U ''url'' dec_string kvs (ar_url v);
          (ins, o4) = dec_field U ''instructions'' dec_string kvs (ar_instructions v) in
      (\<lparr>ar_state = st, ar_id = aid, ar_url = url, ar_instructions = ins\<rparr>, o1 \<and> o2 \<and> o3 \<and> o4)))"

definition parse_auth_result :: "json_lib \<Rightarrow> unicode \<Rightarrow> gostring \<Rightarrow> auth_result" where
  "parse_auth_result L U raw =
     fst (unmarshal L (dec_struct (\<lambda>kvs v. dec_field U ''_meta''
        (dec_struct (\<lambda>kvs' v'. dec_field U ''auth'' (dec_auth_result U) kvs' v')) kvs v)) raw
        \<lparr>ar_state = [], ar_id = [], ar_url = [], ar_instructions = []\<rparr>)"

definition authenticate ::
  "unicode \<Rightarrow> acp_peer \<Rightarrow> auth_call \<Rightarrow> agent_proc \<Rightarrow> auth_result fallible \<times> agent_proc" where
  "authenticate U px c a =
     (let q = ReqAuthenticate (auth_params c) in
      ((case px_call px q of Inl e \<Rightarrow> Inl e | Inr raw \<Rightarrow> Inr (parse_auth_result (px_json px) U raw)),
       log_sent q a))"

definition auth_methods :: "agent_proc \<Rightarrow> auth_method list" where
  "auth_methods a = ap_auth_methods a"

section \<open>The client as the router's and the broker's agent\<close>

text \<open>The answers do not depend on the client's state: \<open>notes\<close> are the notifications of a prompt.\<close>

definition client_agent ::
  "unicode \<Rightarrow> acp_peer \<Rightarrow> (gostring \<Rightarrow> content_block list \<Rightarrow> session_update list) \<Rightarrow> agent_proc \<Rightarrow> agent_env" where
  "client_agent U px notes a =
     \<lparr>ag_caps = ap_caps a,
      ag_new_session = (\<lambda>cwd bs. fst (new_session px cwd NoopSink (if bs = [] then None else Some bs) a)),
      ag_list_sessions = (\<lambda>cwd. map_sum id (map si_session_id) (fst (list_sessions U px cwd a))),
      ag_resume_session = (\<lambda>cwd sid. fst (resume_session px cwd sid NoopSink a)),
      ag_set_model = (\<lambda>sid m. fst (set_model px sid m a)),
      ag_set_config = (\<lambda>sid c v. fst (set_config_option px sid c v a)),
      ag_prompt = (\<lambda>sid bs. (notes sid bs, fst (agent_prompt px sid bs a))),
      ag_cancel = (\<lambda>sid. fst (agent_cancel px sid a))\<rparr>"

definition client_authenticator :: "unicode \<Rightarrow> acp_peer \<Rightarrow> agent_proc \<Rightarrow> authenticator" where
  "client_authenticator U px a = \<lparr>au_methods = auth_methods a, au_call = (\<lambda>c. fst (authenticate U px c a))\<rparr>"

section \<open>Calls from the agent\<close>

text \<open>\<open>readTextFile\<close> after the file has been read: the lines of the window. \<open>int\<close> has 64 bits.\<close>

definition window_start :: "int option \<Rightarrow> nat \<Rightarrow> int" where
  "window_start line n =
     (case line of Some l \<Rightarrow> if 0 < l then min (l - 1) (int n) else 0 | None \<Rightarrow> 0)"

definition window_end :: "int \<Rightarrow> int option \<Rightarrow> nat \<Rightarrow> int" where
  "window_end start limit n =
     (case limit of
        Some m \<Rightarrow> if 0 < m \<and> int64 (start + m) < int n then int64 (start + m) else int n
      | None \<Rightarrow> int n)"

definition slice :: "int \<Rightarrow> int \<Rightarrow> 'a list \<Rightarrow> go_panic + 'a list" where
  "slice lo hi xs =
     (if 0 \<le> lo \<and> lo \<le> hi \<and> hi \<le> int (length xs)
      then Inr (take (nat hi - nat lo) (drop (nat lo) xs)) else Inl SliceOutOfRange)"

definition read_window :: "int option \<Rightarrow> int option \<Rightarrow> gostring \<Rightarrow> go_panic + gostring" where
  "read_window line limit content =
     (if line = None \<and> limit = None then Inr content
      else
        (let lines = split_byte nl content;
             start = window_start line (length lines) in
         map_sum id (join_with [nl]) (slice start (window_end start limit (length lines)) lines)))"

definition read_text_file ::
  "disk_env \<Rightarrow> read_request \<Rightarrow> agent_proc \<Rightarrow> go_panic + (gostring fallible \<times> agent_proc)" where
  "read_text_file dk req a =
     (if \<not> is_abs (rd_path req) then Inr (Inl (''path must be absolute: '' @ rd_path req), a)
      else
        (let a' = log_disk [DiskRead (rd_path req)] a in
         case dk_read dk (rd_path req) of
           Inl e \<Rightarrow> Inr (Inl e, a')
         | Inr bytes \<Rightarrow> map_sum id (\<lambda>c. (Inr c, a')) (read_window (rd_line req) (rd_limit req) bytes)))"

definition write_text_file ::
  "disk_env \<Rightarrow> gostring \<Rightarrow> gostring \<Rightarrow> agent_proc \<Rightarrow> error \<times> agent_proc" where
  "write_text_file dk path content a =
     (if \<not> is_abs path then (Some (''path must be absolute: '' @ path), a)
      else
        (case dk_mkdir_all dk (path_dir path) of
           Some e \<Rightarrow> (Some e, log_disk [DiskMkdir (path_dir path)] a)
         | None \<Rightarrow> (dk_write dk path content, log_disk [DiskMkdir (path_dir path), DiskWrite path content] a)))"

text \<open>The session object's \<open>OnUpdate\<close> puts the notification on its channel; both sinks return no
  error.\<close>

fun on_update :: "update_sink \<Rightarrow> session_update \<Rightarrow> agent_proc \<Rightarrow> error \<times> agent_proc" where
  "on_update (SessionSink p) u a = (None, a\<lparr>ap_delivered := ap_delivered a @ [(p, u)]\<rparr>)"
| "on_update NoopSink u a = (None, a)"

definition sink_for :: "gostring \<Rightarrow> agent_proc \<Rightarrow> update_sink option" where
  "sink_for sid a = ap_sinks a sid"

definition session_update_in :: "gostring \<Rightarrow> session_update \<Rightarrow> agent_proc \<Rightarrow> error \<times> agent_proc" where
  "session_update_in sid u a =
     (case sink_for sid a of Some k \<Rightarrow> on_update k u a | None \<Rightarrow> (None, a))"

datatype rpc_reply =
    RpcNull
  | RpcSelected gostring                 \<comment> \<open>a permission outcome\<close>
  | RpcContent gostring
  | RpcWritten
  | RpcInvalidParams gostring
  | RpcInternal gostring
  | RpcMethodNotFound gostring

definition dispatch ::
  "unicode \<Rightarrow> acp_peer \<Rightarrow> disk_env \<Rightarrow> gostring \<Rightarrow> gostring \<Rightarrow> agent_proc \<Rightarrow> go_panic + (rpc_reply \<times> agent_proc)" where
  "dispatch U px dk meth params a =
     (if meth = ''session/update'' then
        (case px_update px params of
           Inl e \<Rightarrow> Inr (RpcInvalidParams e, a)
         | Inr (sid, u) \<Rightarrow>
             (case session_update_in sid u a of
                (Some e, a') \<Rightarrow> Inr (RpcInternal e, a')
              | (None, a') \<Rightarrow> Inr (RpcNull, a')))
      else if meth = ''session/request_permission'' then
        (case px_permission px params of
           Inl e \<Rightarrow> Inr (RpcInvalidParams e, a)
         | Inr req \<Rightarrow> Inr (RpcSelected (decide U (ap_policy a) req), a))
      else if meth = ''fs/read_text_file'' then
        (case px_read px params of
           Inl e \<Rightarrow> Inr (RpcInvalidParams e, a)
         | Inr req \<Rightarrow>
             (case read_text_file dk req a of
                Inl p \<Rightarrow> Inl p
              | Inr (Inl e, a') \<Rightarrow> Inr (RpcInternal e, a')
              | Inr (Inr c, a') \<Rightarrow> Inr (RpcContent c, a')))
      else if meth = ''fs/write_text_file'' then
        (case px_write px params of
           Inl e \<Rightarrow> Inr (RpcInvalidParams e, a)
         | Inr (path, content) \<Rightarrow>
             (case write_text_file dk path content a of
                (Some e, a') \<Rightarrow> Inr (RpcInternal e, a')
              | (None, a') \<Rightarrow> Inr (RpcWritten, a')))
      else Inr (RpcMethodNotFound meth, a))"

section \<open>Closing\<close>

text \<open>What \<open>Close\<close> does to the process, and after which waiting it returns: \<open>obeys\<close> is whether the
  child exits within the grace period after the first signal. Without a process it does nothing.\<close>

datatype proc_op = Interrupt | Kill | Reaped

definition close_agent :: "bool \<Rightarrow> bool \<Rightarrow> proc_op list \<times> error" where
  "close_agent started obeys =
     (if \<not> started then ([], None)
      else if obeys then ([Interrupt, Reaped], None)
      else ([Interrupt, Kill, Reaped], None))"

text \<open>It always returns without an error, and never leaves a child unreaped.\<close>

lemma close_agent_reaps: "snd (close_agent s b) = None \<and> (s \<longrightarrow> last (fst (close_agent s b)) = Reaped)"
  by (simp add: close_agent_def)

end
