(* ===== verification/Relay_Config.thy ===== *)
theory Relay_Config
  imports Go_Decode Relay_Types
begin

text \<open>
  The operator's configuration file (internal/config/config.go): \<open>Load\<close> with unknown keys
  refused, and \<open>Validate\<close>. The file is an argument: absent, not readable, or its bytes.
\<close>

record config_defaults =
  cd_model :: gostring
  cd_thinking :: gostring
  cd_hide_thinking :: "bool option"

record config_agent =
  ca_profile :: gostring

record relay_config =
  rc_bot_name :: gostring
  rc_defaults :: config_defaults
  rc_agent :: config_agent

definition empty_config :: relay_config where
  "empty_config = \<lparr>rc_bot_name = [], rc_defaults = \<lparr>cd_model = [], cd_thinking = [], cd_hide_thinking = None\<rparr>,
     rc_agent = \<lparr>ca_profile = []\<rparr>\<rparr>"

section \<open>Decoding\<close>

definition dec_config_defaults :: "unicode \<Rightarrow> config_defaults decoder" where
  "dec_config_defaults U = dec_strict U [''model'', ''thinking'', ''hide_thinking''] (dec_struct (\<lambda>kvs v.
     (let (model, o1) = dec_field U ''model'' dec_string kvs (cd_model v);
          (thinking, o2) = dec_field U ''thinking'' dec_string kvs (cd_thinking v);
          (hide, o3) = dec_field U ''hide_thinking'' dec_bool_ptr kvs (cd_hide_thinking v) in
      (\<lparr>cd_model = model, cd_thinking = thinking, cd_hide_thinking = hide\<rparr>, o1 \<and> o2 \<and> o3))))"

definition dec_config_agent :: "unicode \<Rightarrow> config_agent decoder" where
  "dec_config_agent U = dec_strict U [''profile''] (dec_struct (\<lambda>kvs v.
     (let (profile, ok) = dec_field U ''profile'' dec_string kvs (ca_profile v) in
      (\<lparr>ca_profile = profile\<rparr>, ok))))"

definition dec_config :: "unicode \<Rightarrow> relay_config decoder" where
  "dec_config U = dec_strict U [''bot_name'', ''defaults'', ''agent''] (dec_struct (\<lambda>kvs v.
     (let (bot, o1) = dec_field U ''bot_name'' dec_string kvs (rc_bot_name v);
          (dflt, o2) = dec_field U ''defaults'' (dec_config_defaults U) kvs (rc_defaults v);
          (agent, o3) = dec_field U ''agent'' (dec_config_agent U) kvs (rc_agent v) in
      (\<lparr>rc_bot_name = bot, rc_defaults = dflt, rc_agent = agent\<rparr>, o1 \<and> o2 \<and> o3))))"

section \<open>Validation and loading\<close>

definition config_thinking :: "gostring list" where
  "config_thinking = ['''', ''off'', ''minimal'', ''low'', ''medium'', ''high'', ''xhigh'', ''max'']"

definition validate_config :: "unicode \<Rightarrow> relay_config \<Rightarrow> error" where
  "validate_config U c =
     (if cd_thinking (rc_defaults c) \<in> set config_thinking then None
      else Some (''defaults.thinking: invalid '' @ go_quote U (cd_thinking (rc_defaults c)) @
        '' (want off|minimal|low|medium|high|xhigh|max)''))"

text \<open>What \<open>os.Open\<close> and the reads after it give for the path.\<close>

datatype config_file = NoFile | OpenFailed gostring | FileBytes gostring

text \<open>\<open>Load\<close>: the configuration and whether there is one, or an error.\<close>

definition load_config :: "json_lib \<Rightarrow> unicode \<Rightarrow> (gostring \<Rightarrow> config_file) \<Rightarrow> gostring \<Rightarrow>
    (relay_config \<times> bool) fallible" where
  "load_config L U disk path =
     (case disk path of
        NoFile \<Rightarrow> Inr (empty_config, False)
      | OpenFailed e \<Rightarrow> Inl (''open config '' @ path @ '': '' @ e)
      | FileBytes bytes \<Rightarrow>
          (case unmarshal L (dec_config U) bytes empty_config of
             (_, Some e) \<Rightarrow> Inl (''parse config '' @ path @ '': '' @ e)
           | (c, None) \<Rightarrow>
               (case validate_config U c of
                  Some e \<Rightarrow> Inl (''validate config '' @ path @ '': '' @ e)
                | None \<Rightarrow> Inr (c, True))))"

section \<open>A loaded configuration is valid and understood\<close>

lemma load_config_valid:
  "load_config L U disk path = Inr (c, found) \<Longrightarrow> cd_thinking (rc_defaults c) \<in> set config_thinking"
  by (auto simp: load_config_def validate_config_def empty_config_def config_thinking_def
    split: config_file.splits prod.splits option.splits if_splits)

text \<open>A key that no field is named after is refused at every level.\<close>

lemma dec_strict_unknown:
  assumes "(k, v) \<in> set kvs" "\<forall>n \<in> set names. \<not> key_matches U n k"
  shows "\<not> snd (dec_strict U names dec (JObject kvs) x)"
  using assms by (force simp: dec_strict_def list_all_iff list_ex_iff split: prod.splits)

lemma dec_field_fails:
  assumes "key_matches U name k" "(k, j) \<in> set kvs" "\<And>v. \<not> snd (dec j v)"
  shows "\<not> snd (dec_field U name dec kvs v)"
  using assms(2)
proof (induction kvs arbitrary: v)
  case (Cons a kvs)
  show ?case
  proof (cases "a = (k, j)")
    case True
    with assms(1,3) show ?thesis by (auto simp: split_def Let_def)
  next
    case False
    with Cons have "(k, j) \<in> set kvs" by simp
    with Cons.IH show ?thesis by (cases a) (auto simp: split_def Let_def)
  qed
qed simp

definition unknown_at :: "unicode \<Rightarrow> gostring list \<Rightarrow> json \<Rightarrow> bool" where
  "unknown_at U names j \<longleftrightarrow>
     (case j of JObject kvs \<Rightarrow> list_ex (\<lambda>(k, _). list_all (\<lambda>n. \<not> key_matches U n k) names) kvs | _ \<Rightarrow> False)"

lemma unknown_refused: "unknown_at U names j \<Longrightarrow> \<not> snd (dec_strict U names dec j x)"
  by (cases j) (force simp: unknown_at_def list_ex_iff list_all_iff dec_strict_def split: prod.splits)+

text \<open>Does the document have a key the configuration does not know, on either level?\<close>

definition has_unknown_key :: "unicode \<Rightarrow> json \<Rightarrow> bool" where
  "has_unknown_key U j \<longleftrightarrow>
     unknown_at U [''bot_name'', ''defaults'', ''agent''] j \<or>
     (case j of JObject kvs \<Rightarrow> list_ex (\<lambda>(k, v).
         key_matches U ''defaults'' k \<and> unknown_at U [''model'', ''thinking'', ''hide_thinking''] v \<or>
         key_matches U ''agent'' k \<and> unknown_at U [''profile''] v) kvs
      | _ \<Rightarrow> False)"

lemma dec_config_unknown:
  assumes "has_unknown_key U j"
  shows "\<not> snd (dec_config U j c)"
proof (cases "unknown_at U [''bot_name'', ''defaults'', ''agent''] j")
  case True
  then show ?thesis unfolding dec_config_def by (rule unknown_refused)
next
  case False
  with assms obtain kvs k v where j: "j = JObject kvs" "(k, v) \<in> set kvs"
    and kv: "key_matches U ''defaults'' k \<and> unknown_at U [''model'', ''thinking'', ''hide_thinking''] v \<or>
      key_matches U ''agent'' k \<and> unknown_at U [''profile''] v"
    by (cases j) (auto simp: has_unknown_key_def list_ex_iff)
  from kv show ?thesis
  proof
    assume "key_matches U ''defaults'' k \<and> unknown_at U [''model'', ''thinking'', ''hide_thinking''] v"
    then have "\<not> snd (dec_field U ''defaults'' (dec_config_defaults U) kvs d)" for d
      using j(2) by (intro dec_field_fails) (auto simp: dec_config_defaults_def unknown_refused)
    with j(1) show ?thesis by (auto simp: dec_config_def dec_strict_def split_def Let_def)
  next
    assume "key_matches U ''agent'' k \<and> unknown_at U [''profile''] v"
    then have "\<not> snd (dec_field U ''agent'' (dec_config_agent U) kvs d)" for d
      using j(2) by (intro dec_field_fails) (auto simp: dec_config_agent_def unknown_refused)
    with j(1) show ?thesis by (auto simp: dec_config_def dec_strict_def split_def Let_def)
  qed
qed


text \<open>A scanner that knows one document, \<open>{"defaults":{"modle":"x"}}\<close>.\<close>

definition demo_config_json :: json where
  "demo_config_json = JObject [(''defaults'', JObject [(''modle'', JString ''x'')])]"

definition demo_config_lib :: json_lib where
  "demo_config_lib = \<lparr>jl_parse = (\<lambda>_. Inr demo_config_json), jl_mismatch = (\<lambda>_. ''unknown field'')\<rparr>"


end
