(* ===== verification/Poe_Proto.thy ===== *)
theory Poe_Proto
  imports Go_Decode Relay_Types
begin

text \<open>
  The Poe protocol (internal/poeproto/poeproto.go) apart from the SSE writer: requests and their
  decoding, the settings response and its JSON, bearer authentication.
\<close>

section \<open>Requests\<close>

record poe_attachment =
  pa_url :: gostring
  pa_content_type :: gostring
  pa_name :: gostring
  pa_parsed_content :: gostring

record message =
  ms_role :: gostring
  ms_content :: gostring
  ms_content_type :: gostring
  ms_message_id :: gostring
  ms_parameters :: "(gostring \<Rightarrow> json option) option"
  ms_attachments :: "poe_attachment list"

record poe_request =
  pq_type :: gostring
  pq_query :: "message list"
  pq_message_id :: gostring
  pq_user_id :: gostring
  pq_conversation_id :: gostring
  pq_reaction :: gostring
  pq_action :: gostring

definition zero_attachment :: poe_attachment where
  "zero_attachment = \<lparr>pa_url = [], pa_content_type = [], pa_name = [], pa_parsed_content = []\<rparr>"

definition zero_message :: message where
  "zero_message = \<lparr>ms_role = [], ms_content = [], ms_content_type = [], ms_message_id = [],
     ms_parameters = None, ms_attachments = []\<rparr>"

definition zero_request :: poe_request where
  "zero_request = \<lparr>pq_type = [], pq_query = [], pq_message_id = [], pq_user_id = [],
     pq_conversation_id = [], pq_reaction = [], pq_action = []\<rparr>"

text \<open>The struct tags.\<close>

definition dec_attachment :: "unicode \<Rightarrow> poe_attachment decoder" where
  "dec_attachment U = dec_struct (\<lambda>kvs v.
     (let (url, o1) = dec_field U ''url'' dec_string kvs (pa_url v);
          (ct, o2) = dec_field U ''content_type'' dec_string kvs (pa_content_type v);
          (name, o3) = dec_field U ''name'' dec_string kvs (pa_name v);
          (parsed, o4) = dec_field U ''parsed_content'' dec_string kvs (pa_parsed_content v) in
      (\<lparr>pa_url = url, pa_content_type = ct, pa_name = name, pa_parsed_content = parsed\<rparr>,
       o1 \<and> o2 \<and> o3 \<and> o4)))"

definition dec_message :: "unicode \<Rightarrow> message decoder" where
  "dec_message U = dec_struct (\<lambda>kvs v.
     (let (role, o1) = dec_field U ''role'' dec_string kvs (ms_role v);
          (content, o2) = dec_field U ''content'' dec_string kvs (ms_content v);
          (ct, o3) = dec_field U ''content_type'' dec_string kvs (ms_content_type v);
          (mid, o4) = dec_field U ''message_id'' dec_string kvs (ms_message_id v);
          (params, o5) = dec_field U ''parameters'' dec_map kvs (ms_parameters v);
          (atts, o6) = dec_field U ''attachments'' (dec_list (dec_attachment U) zero_attachment) kvs (ms_attachments v) in
      (\<lparr>ms_role = role, ms_content = content, ms_content_type = ct, ms_message_id = mid,
        ms_parameters = params, ms_attachments = atts\<rparr>, o1 \<and> o2 \<and> o3 \<and> o4 \<and> o5 \<and> o6)))"

definition dec_request :: "unicode \<Rightarrow> poe_request decoder" where
  "dec_request U = dec_struct (\<lambda>kvs v.
     (let (typ, o1) = dec_field U ''type'' dec_string kvs (pq_type v);
          (query, o2) = dec_field U ''query'' (dec_list (dec_message U) zero_message) kvs (pq_query v);
          (mid, o3) = dec_field U ''message_id'' dec_string kvs (pq_message_id v);
          (user, o4) = dec_field U ''user_id'' dec_string kvs (pq_user_id v);
          (conv, o5) = dec_field U ''conversation_id'' dec_string kvs (pq_conversation_id v);
          (reaction, o6) = dec_field U ''reaction'' dec_string kvs (pq_reaction v);
          (action, o7) = dec_field U ''action'' dec_string kvs (pq_action v) in
      (\<lparr>pq_type = typ, pq_query = query, pq_message_id = mid, pq_user_id = user,
        pq_conversation_id = conv, pq_reaction = reaction, pq_action = action\<rparr>,
       o1 \<and> o2 \<and> o3 \<and> o4 \<and> o5 \<and> o6 \<and> o7)))"

definition normalise_reaction :: "gostring \<Rightarrow> gostring \<Rightarrow> gostring \<times> gostring" where
  "normalise_reaction reaction action =
     (if action = ''added'' \<or> action = ''removed'' then (reaction, action)
      else
        (case reaction of
           c # rest \<Rightarrow>
             if c = CHR ''+'' then (rest, ''added'')
             else if c = CHR ''-'' then (rest, ''removed'')
             else (reaction, ''added'')
         | [] \<Rightarrow> (reaction, ''added'')))"

text \<open>\<open>Decode\<close>: a body is its bytes or the error of reading it. With debug logging on, only the
  first 16 KiB are read and decoded.\<close>

definition debug_body_cap :: nat where
  "debug_body_cap = 16 * 1024"

definition decode_request ::
  "json_lib \<Rightarrow> unicode \<Rightarrow> bool \<Rightarrow> gostring fallible \<Rightarrow> poe_request fallible" where
  "decode_request L U debug body =
     (case body of
        Inl e \<Rightarrow> Inl ((if debug then ''read poe body: '' else ''decode poe request: '') @ e)
      | Inr bytes \<Rightarrow>
          (case unmarshal L (dec_request U) (if debug then take debug_body_cap bytes else bytes) zero_request of
             (_, Some e) \<Rightarrow> Inl (''decode poe request: '' @ e)
           | (req, None) \<Rightarrow>
               if pq_type req = [] then Inl ''poe request missing type''
               else if pq_type req = ''report_reaction'' then
                 (let (k, a) = normalise_reaction (pq_reaction req) (pq_action req) in
                  Inr (req\<lparr>pq_reaction := k, pq_action := a\<rparr>))
               else Inr req))"

definition latest_user_message :: "poe_request \<Rightarrow> message option" where
  "latest_user_message req = find (\<lambda>m. ms_role m = ''user'') (rev (pq_query req))"

definition request_user_text :: "poe_request \<Rightarrow> gostring" where
  "request_user_text req = (case latest_user_message req of None \<Rightarrow> [] | Some m \<Rightarrow> ms_content m)"

definition latest_parameters :: "poe_request \<Rightarrow> (gostring \<Rightarrow> json option) option" where
  "latest_parameters req = Option.bind (latest_user_message req) ms_parameters"

section \<open>Settings\<close>

record value_name =
  vn_value :: gostring
  vn_name :: gostring

record control =
  ct_control :: gostring
  ct_label :: gostring
  ct_parameter_name :: gostring
  ct_description :: gostring
  ct_default_value :: "json option"
  ct_options :: "value_name list"

record controls_section =
  se_name :: gostring
  se_collapsed :: bool
  se_controls :: "control list"

record parameter_controls =
  pc_api_version :: gostring
  pc_sections :: "controls_section list"

record settings_response =
  sr_version :: int
  sr_allow_attachments :: bool
  sr_expand_text :: bool
  sr_introduction :: gostring
  sr_controls :: "parameter_controls option"

definition parameter_controls_api_version :: gostring where
  "parameter_controls_api_version = ''2''"

definition settings_response_version :: int where
  "settings_response_version = 2"

text \<open>Their JSON: fields in declaration order, empty \<open>omitempty\<close> fields left out.\<close>

definition value_name_json :: "value_name \<Rightarrow> json" where
  "value_name_json v = JObject [(''value'', JString (vn_value v)), (''name'', JString (vn_name v))]"

definition control_json :: "control \<Rightarrow> json" where
  "control_json c = JObject
     ([(''control'', JString (ct_control c)), (''label'', JString (ct_label c)),
       (''parameter_name'', JString (ct_parameter_name c))] @
      (if ct_description c = [] then [] else [(''description'', JString (ct_description c))]) @
      (case ct_default_value c of None \<Rightarrow> [] | Some v \<Rightarrow> [(''default_value'', v)]) @
      (if ct_options c = [] then [] else [(''options'', JArray (map value_name_json (ct_options c)))]))"

definition section_json :: "controls_section \<Rightarrow> json" where
  "section_json s = JObject
     ([(''name'', JString (se_name s))] @
      (if se_collapsed s then [(''collapsed_by_default'', JBool True)] else []) @
      [(''controls'', JArray (map control_json (se_controls s)))])"

definition parameter_controls_json :: "parameter_controls \<Rightarrow> json" where
  "parameter_controls_json p = JObject
     [(''api_version'', JString (pc_api_version p)),
      (''sections'', JArray (map section_json (pc_sections p)))]"

definition settings_json :: "settings_response \<Rightarrow> json" where
  "settings_json s = JObject
     ([(''response_version'', JInt (sr_version s)), (''allow_attachments'', JBool (sr_allow_attachments s)),
       (''expand_text_attachments'', JBool (sr_expand_text s))] @
      (if sr_introduction s = [] then [] else [(''introduction_message'', JString (sr_introduction s))]) @
      (case sr_controls s of None \<Rightarrow> [] | Some p \<Rightarrow> [(''parameter_controls'', parameter_controls_json p)]))"

section \<open>Bearer authentication\<close>

definition bearer_prefix :: gostring where
  "bearer_prefix = ''Bearer ''"

definition bearer_rejects :: "gostring \<Rightarrow> gostring \<Rightarrow> bool" where
  "bearer_rejects secret h \<longleftrightarrow>
     secret = [] \<or> length h < length bearer_prefix \<or> take (length bearer_prefix) h \<noteq> bearer_prefix \<or>
     drop (length bearer_prefix) h \<noteq> secret"

text \<open>The bearer check lets a request through exactly when a secret is configured and the header is
  \<open>Bearer\<close>, one space and that secret: a prefix, an extension, another case or an empty secret never
  passes.\<close>

lemma bearer_is_exact:
  "\<not> bearer_rejects secret h \<longleftrightarrow> secret \<noteq> [] \<and> h = ''Bearer '' @ secret"
proof -
  have "take (length bearer_prefix) h = bearer_prefix \<and> drop (length bearer_prefix) h = secret \<longleftrightarrow>
      h = bearer_prefix @ secret"
    by (metis append_eq_conv_conj)
  then show ?thesis by (auto simp: bearer_rejects_def bearer_prefix_def)
qed

section \<open>Decoding\<close>

lemma normalise_action: "snd (normalise_reaction r a) \<in> {''added'', ''removed''}"
  by (auto simp: normalise_reaction_def split: list.splits)

text \<open>Both wire shapes of a reaction mean the same: a decoded reaction's action is \<open>added\<close> or
  \<open>removed\<close>; a signed kind without an action decodes as the bare kind with the action the sign
  stands for, a bare kind without an action as an addition; an explicit action is kept.\<close>

theorem reactions_are_normalised:
  assumes "decode_request L U debug (Inr body) = Inr req" "pq_type req = ''report_reaction''"
  shows "\<exists>raw. unmarshal L (dec_request U) (if debug then take debug_body_cap body else body) zero_request = (raw, None) \<and>
    pq_action req \<in> {''added'', ''removed''} \<and>
    (pq_action raw \<in> {''added'', ''removed''} \<longrightarrow> pq_action req = pq_action raw \<and> pq_reaction req = pq_reaction raw) \<and>
    (pq_action raw \<notin> {''added'', ''removed''} \<longrightarrow>
      (\<forall>k. pq_reaction raw = CHR ''+'' # k \<longrightarrow> pq_reaction req = k \<and> pq_action req = ''added'') \<and>
      (\<forall>k. pq_reaction raw = CHR ''-'' # k \<longrightarrow> pq_reaction req = k \<and> pq_action req = ''removed''))"
proof -
  obtain raw where u: "unmarshal L (dec_request U) (if debug then take debug_body_cap body else body) zero_request = (raw, None)"
    and t: "pq_type raw = ''report_reaction''"
    and r: "req = raw\<lparr>pq_reaction := fst (normalise_reaction (pq_reaction raw) (pq_action raw)),
      pq_action := snd (normalise_reaction (pq_reaction raw) (pq_action raw))\<rparr>"
    using assms
    by (auto simp: decode_request_def Let_def split: prod.splits option.splits if_splits)
  have "pq_action req \<in> {''added'', ''removed''}" using r normalise_action by simp
  with u r show ?thesis by (auto simp: normalise_reaction_def)
qed

text \<open>A scanner that knows one document, \<open>{"type":"report_reaction","reaction":"-x"}\<close>, at a length
  beyond the debug cap or not.\<close>

definition demo_body :: gostring where
  "demo_body = replicate (Suc debug_body_cap) (CHR '' '')"

definition demo_json_lib :: json_lib where
  "demo_json_lib = \<lparr>jl_parse = (\<lambda>s. if length s = debug_body_cap then Inl ''unexpected EOF''
       else Inr (JObject [(''type'', JString ''report_reaction''), (''reaction'', JString ''-x'')])),
     jl_mismatch = (\<lambda>_. ''type error'')\<rparr>"

lemma demo_decoded:
  "dec_request ascii_tables (JObject [(''type'', JString ''report_reaction''), (''reaction'', JString ''-x'')]) zero_request =
     (zero_request\<lparr>pq_type := ''report_reaction'', pq_reaction := ''-x''\<rparr>, True)"
  by (simp add: dec_request_def key_matches_ascii is_ascii_def lower_ascii_def zero_request_def)

theorem reactions_are_normalised_witness:
  "\<exists>req. decode_request demo_json_lib ascii_tables False (Inr ''x'') = Inr req \<and> pq_action req = ''removed''"
proof -
  have u: "unmarshal demo_json_lib (dec_request ascii_tables) ''x'' zero_request =
      (zero_request\<lparr>pq_type := ''report_reaction'', pq_reaction := ''-x''\<rparr>, None)"
    by (simp add: unmarshal_def demo_json_lib_def debug_body_cap_def demo_decoded)
  then have "decode_request demo_json_lib ascii_tables False (Inr ''x'') =
      Inr (zero_request\<lparr>pq_type := ''report_reaction'', pq_reaction := ''x'', pq_action := ''removed''\<rparr>)"
    by (simp add: decode_request_def normalise_reaction_def zero_request_def)
  moreover from reactions_are_normalised [OF this] u
  have "pq_action (zero_request\<lparr>pq_type := ''report_reaction'', pq_reaction := ''x'', pq_action := ''removed''\<rparr>) = ''removed''"
    by simp
  ultimately show ?thesis by blast
qed

text \<open>With debug logging on, a request longer than 16 KiB is decoded from its first 16 KiB: it is
  rejected whenever that prefix alone is no complete document, although the same request is accepted
  with logging off.\<close>

theorem debug_logging_rejects_large_requests:
  assumes "jl_parse L (take debug_body_cap body) = Inl e" "jl_parse L body = Inr j"
    and "dec_request U j zero_request = (req, True)" "pq_type req \<noteq> []"
  shows "decode_request L U True (Inr body) = Inl (''decode poe request: '' @ e) \<and>
    (\<exists>req'. decode_request L U False (Inr body) = Inr req')"
  using assms by (simp add: decode_request_def unmarshal_def split: prod.splits)

theorem debug_logging_rejects_large_requests_witness:
  "\<exists>e req. decode_request demo_json_lib ascii_tables True (Inr demo_body) = Inl e \<and>
    decode_request demo_json_lib ascii_tables False (Inr demo_body) = Inr req"
proof -
  have p: "jl_parse demo_json_lib (take debug_body_cap demo_body) = Inl ''unexpected EOF''"
    "jl_parse demo_json_lib demo_body =
      Inr (JObject [(''type'', JString ''report_reaction''), (''reaction'', JString ''-x'')])"
    by (simp_all add: demo_json_lib_def demo_body_def)
  from debug_logging_rejects_large_requests [OF p demo_decoded]
  show ?thesis by auto
qed

end
