(* ===== verification/Param_Ctl.thy ===== *)
theory Param_Ctl
  imports Acp_Client Relay_Config Poe_Proto Router
begin

text \<open>
  The parameter controls shown by Poe and the defaults they show (internal/paramctl/paramctl.go).
  The same defaults go to the router (\<open>Resolve\<close>) and into the controls (\<open>Build\<close>), and what the user
  selects comes back through the router's \<open>ParseOptions\<close>: the theorems relate the three.
\<close>

section \<open>Resolve and Build\<close>

definition thinking_levels :: "value_name list" where
  "thinking_levels = map (\<lambda>(v, n). \<lparr>vn_value = v, vn_name = n\<rparr>)
     [(''off'', ''Off''), (''minimal'', ''Minimal''), (''low'', ''Low''), (''medium'', ''Medium''),
      (''high'', ''High''), (''xhigh'', ''Extra-high''), (''max'', ''Max'')]"

definition default_thinking :: gostring where
  "default_thinking = ''medium''"

definition default_hide_thinking :: bool where
  "default_hide_thinking = True"

definition has_model :: "model_info list \<Rightarrow> gostring \<Rightarrow> bool" where
  "has_model ms mid = list_ex (\<lambda>m. mi_id m = mid) ms"

definition resolve_defaults :: "config_defaults \<Rightarrow> model_info list \<Rightarrow> gostring \<Rightarrow> options" where
  "resolve_defaults cfg ms current =
     \<lparr>opt_model =
        (if ms = [] then []
         else if cd_model cfg \<noteq> [] then (if has_model ms (cd_model cfg) then cd_model cfg else [])
         else if current \<noteq> [] \<and> has_model ms current then current
         else []),
      opt_thinking = (if cd_thinking cfg \<noteq> [] then cd_thinking cfg else default_thinking),
      opt_hide_thinking = (case cd_hide_thinking cfg of Some b \<Rightarrow> b | None \<Rightarrow> default_hide_thinking)\<rparr>"

definition model_control :: "model_info list \<Rightarrow> options \<Rightarrow> control" where
  "model_control ms d = \<lparr>ct_control = ''drop_down'', ct_label = ''Model'', ct_parameter_name = ''model'',
     ct_description = [], ct_default_value = (if opt_model d \<noteq> [] then Some (JString (opt_model d)) else None),
     ct_options = map (\<lambda>m. \<lparr>vn_value = mi_id m, vn_name = mi_name m\<rparr>) ms\<rparr>"

definition thinking_control :: "options \<Rightarrow> control" where
  "thinking_control d = \<lparr>ct_control = ''drop_down'', ct_label = ''Thinking'', ct_parameter_name = ''thinking'',
     ct_description = [], ct_default_value = Some (JString (opt_thinking d)), ct_options = thinking_levels\<rparr>"

definition hide_control :: "options \<Rightarrow> control" where
  "hide_control d = \<lparr>ct_control = ''toggle_switch'', ct_label = ''Hide thinking output'',
     ct_parameter_name = ''hide_thinking'', ct_description = [],
     ct_default_value = Some (JBool (opt_hide_thinking d)), ct_options = []\<rparr>"

definition build_controls :: "model_info list \<Rightarrow> options \<Rightarrow> parameter_controls" where
  "build_controls ms d =
     \<lparr>pc_api_version = parameter_controls_api_version,
      pc_sections = [\<lparr>se_name = ''Options'', se_collapsed = False,
        se_controls = (if ms \<noteq> [] then [model_control ms d] else []) @ [thinking_control d, hide_control d]\<rparr>]\<rparr>"

section \<open>What the user can send back\<close>

definition controls_of :: "parameter_controls \<Rightarrow> control list" where
  "controls_of pc = concat (map se_controls (pc_sections pc))"

text \<open>The values a control lets the user choose.\<close>

definition choices :: "control \<Rightarrow> json set" where
  "choices c = (if ct_control c = ''toggle_switch'' then {JBool True, JBool False}
     else JString ` vn_value ` set (ct_options c))"

text \<open>The parameters Poe sends when the user leaves every control at its default.\<close>

definition default_params :: "parameter_controls \<Rightarrow> gostring \<Rightarrow> json option" where
  "default_params pc k = Option.bind (find (\<lambda>c. ct_parameter_name c = k) (controls_of pc)) ct_default_value"

lemma controls_of_build:
  "controls_of (build_controls ms d) =
     (if ms \<noteq> [] then [model_control ms d] else []) @ [thinking_control d, hide_control d]"
  by (simp add: controls_of_def build_controls_def)

lemma default_params_build:
  "default_params (build_controls ms d) ''model'' =
     (if ms \<noteq> [] \<and> opt_model d \<noteq> [] then Some (JString (opt_model d)) else None)"
  "default_params (build_controls ms d) ''thinking'' = Some (JString (opt_thinking d))"
  "default_params (build_controls ms d) ''hide_thinking'' = Some (JBool (opt_hide_thinking d))"
  by (simp_all add: default_params_def controls_of_build model_control_def thinking_control_def hide_control_def)

lemma thinking_values_levels: "set thinking_values = vn_value ` set thinking_levels"
  by (simp add: thinking_values_def thinking_levels_def insert_commute)

text \<open>The same list a third time: a valid configuration has a level of the dropdown.\<close>

lemma config_thinking_levels: "set config_thinking = insert [] (set thinking_values)"
  by (auto simp: config_thinking_def thinking_values_def)

lemma resolve_thinking:
  "cd_thinking cfg \<in> set config_thinking \<Longrightarrow> opt_thinking (resolve_defaults cfg ms cur) \<in> set thinking_values"
  by (auto simp: resolve_defaults_def config_thinking_levels default_thinking_def)
    (simp_all add: thinking_values_def)

lemma has_model_iff: "has_model ms mid \<longleftrightarrow> mid \<in> mi_id ` set ms"
  by (auto simp: has_model_def list_ex_iff)

lemma resolve_model:
  "opt_model (resolve_defaults cfg ms cur) \<noteq> [] \<Longrightarrow> opt_model (resolve_defaults cfg ms cur) \<in> mi_id ` set ms"
  by (auto simp: resolve_defaults_def has_model_iff split: if_splits)

lemma resolve_no_models: "opt_model (resolve_defaults cfg [] cur) = []"
  by (simp add: resolve_defaults_def)

text \<open>Sending back what is shown gives the defaults.\<close>

lemma parse_default_params:
  assumes "opt_thinking d \<in> set thinking_values" "ms = [] \<Longrightarrow> opt_model d = []"
    and "opt_model d' = [] \<or> opt_model d \<noteq> []"
  shows "parse_options (default_params (build_controls ms d)) d' = d"
  using assms by (cases "opt_model d = []") (auto simp: parse_options_def default_params_build)

text \<open>C26: What Poe shows is what the relay does. With the defaults resolved from a valid configuration
  and the probed models: every default shown is among the choices of its control; a user who changes
  nothing sends parameters that parse to exactly the router's defaults, whatever defaults the parser
  starts from when a model is set; and every value a control offers is understood: parsing it alone
  changes that option to it and no other.\<close>

theorem controls_show_what_applies:
  assumes "cd_thinking cfg \<in> set config_thinking"
    and d: "d = resolve_defaults cfg ms cur" and pc: "pc = build_controls ms d"
  shows "(\<forall>c \<in> set (controls_of pc). \<forall>v. ct_default_value c = Some v \<longrightarrow> v \<in> choices c) \<and>
    parse_options (default_params pc) d = d \<and>
    (\<forall>d'. opt_model d' = [] \<or> opt_model d \<noteq> [] \<longrightarrow> parse_options (default_params pc) d' = d) \<and>
    (\<forall>c \<in> set (controls_of pc). \<forall>v \<in> choices c. \<forall>d'.
       parse_options [ct_parameter_name c \<mapsto> v] d' =
         (if ct_parameter_name c = ''model'' then d'\<lparr>opt_model := (case v of JString s \<Rightarrow> s)\<rparr>
          else if ct_parameter_name c = ''thinking'' then d'\<lparr>opt_thinking := (case v of JString s \<Rightarrow> s)\<rparr>
          else d'\<lparr>opt_hide_thinking := (v = JBool True)\<rparr>))"
proof (intro conjI)
  have th: "opt_thinking d \<in> set thinking_values" using assms(1) by (simp add: d resolve_thinking)
  have md: "opt_model d \<noteq> [] \<Longrightarrow> opt_model d \<in> mi_id ` set ms" by (simp add: d resolve_model)
  have ne: "ms = [] \<Longrightarrow> opt_model d = []" by (simp add: d resolve_no_models)
  show "\<forall>c \<in> set (controls_of pc). \<forall>v. ct_default_value c = Some v \<longrightarrow> v \<in> choices c"
    using th md
    by (auto simp: pc controls_of_build model_control_def thinking_control_def hide_control_def choices_def
        thinking_values_levels image_image)
  have eq: "parse_options (default_params pc) d' = d" if "opt_model d' = [] \<or> opt_model d \<noteq> []" for d'
    using th ne that unfolding pc by (intro parse_default_params) auto
  then show "\<forall>d'. opt_model d' = [] \<or> opt_model d \<noteq> [] \<longrightarrow> parse_options (default_params pc) d' = d" by blast
  from eq [of d] show "parse_options (default_params pc) d = d" by blast
  show "\<forall>c \<in> set (controls_of pc). \<forall>v \<in> choices c. \<forall>d'.
       parse_options [ct_parameter_name c \<mapsto> v] d' =
         (if ct_parameter_name c = ''model'' then d'\<lparr>opt_model := (case v of JString s \<Rightarrow> s)\<rparr>
          else if ct_parameter_name c = ''thinking'' then d'\<lparr>opt_thinking := (case v of JString s \<Rightarrow> s)\<rparr>
          else d'\<lparr>opt_hide_thinking := (v = JBool True)\<rparr>)"
    by (auto simp: pc controls_of_build model_control_def thinking_control_def hide_control_def choices_def
        parse_options_def thinking_values_levels)
qed

text \<open>Two models, none configured, the second one current.\<close>

theorem controls_show_what_applies_witness:
  "let ms = [\<lparr>mi_id = ''a'', mi_name = ''A''\<rparr>, \<lparr>mi_id = ''b'', mi_name = ''B''\<rparr>];
       d = resolve_defaults \<lparr>cd_model = [], cd_thinking = ''low'', cd_hide_thinking = Some False\<rparr> ms ''b'' in
   opt_model d = ''b'' \<and> parse_options (default_params (build_controls ms d)) no_options = d"
proof -
  let ?cfg = "\<lparr>cd_model = [], cd_thinking = ''low'', cd_hide_thinking = Some False\<rparr>"
  let ?ms = "[\<lparr>mi_id = ''a'', mi_name = ''A''\<rparr>, \<lparr>mi_id = ''b'', mi_name = ''B''\<rparr>]"
  have v: "cd_thinking ?cfg \<in> set config_thinking" by (simp add: config_thinking_def)
  have m: "opt_model (resolve_defaults ?cfg ?ms ''b'') = ''b''" by (simp add: resolve_defaults_def has_model_def)
  from controls_show_what_applies [OF v refl refl, of ?ms "''b''"] m show ?thesis
    unfolding Let_def by (simp add: no_options_def)
qed

end
