(* ===== verification/Skills.thy ===== *)
theory Skills
  imports Go_Path Go_Codec Relay_Types
begin

text \<open>
  The skills catalogue (internal/skills/skills.go): front matter, the built-in bundle and its
  extraction, skills of the host's directory, merging and formatting. The embedded bundle is the
  sequence \<open>fs.WalkDir\<close> visits, the disk is a map of files with arguments for the failures of its
  operations. \<open>sort.Slice\<close> is a stable sort here; its order of equal names is only specified
  for up to twelve elements, and the theorems on merged skills, whose names are distinct, do not
  depend on it.
\<close>

record skill =
  sk_name :: gostring
  sk_description :: gostring
  sk_path :: gostring

section \<open>Front matter\<close>

definition squote :: char where "squote = CHR 0x27"

text \<open>One line \<open>key: value\<close> of the front matter.\<close>

definition frontmatter_line ::
  "gostring \<Rightarrow> gostring \<times> gostring \<times> bool \<Rightarrow> gostring \<times> gostring \<times> bool" where
  "frontmatter_line line st =
     (case cut_byte (CHR '':'') line of
        None \<Rightarrow> st
      | Some (k, v) \<Rightarrow>
          (let k' = trim_space k; v' = trim_set (trim_space v) [dquote, squote]; (name, descr, builtin) = st in
           if k' = ''name'' then (v', descr, builtin)
           else if k' = ''description'' then (name, v', builtin)
           else if k' = ''builtin'' then (name, descr, v' = ''true'')
           else st))"

definition parse_frontmatter :: "gostring \<Rightarrow> gostring \<times> gostring \<times> bool" where
  "parse_frontmatter body =
     (if \<not> has_prefix body (''---'' @ [nl]) then ([], [], False)
      else
        (case index_of (drop 4 body) (nl # ''---'') of
           None \<Rightarrow> ([], [], False)
         | Some n \<Rightarrow> fold frontmatter_line (split_byte nl (take n (drop 4 body))) ([], [], False)))"

section \<open>The built-in bundle\<close>

text \<open>What \<open>fs.WalkDir\<close> visits: the path, an error of the walk, a directory or a file with the
  result of reading it.\<close>

datatype walk_entry = WalkError gostring | WalkDir gostring | WalkFile gostring "gostring fallible"

text \<open>\<open>bundleHashFS\<close>: paths and contents, each ended by a zero byte.\<close>

fun hash_input :: "walk_entry list \<Rightarrow> gostring fallible" where
  "hash_input [] = Inr []"
| "hash_input (WalkError e # es) = Inl e"
| "hash_input (WalkDir p # es) = hash_input es"
| "hash_input (WalkFile p c # es) =
     (case c of
        Inl e \<Rightarrow> Inl e
      | Inr b \<Rightarrow> map_sum id (\<lambda>rest. p @ [CHR 0x00] @ b @ [CHR 0x00] @ rest) (hash_input es))"

definition bundle_hash :: "walk_entry list \<Rightarrow> gostring fallible" where
  "bundle_hash es = map_sum id (\<lambda>s. hex_encode (sha256 s)) (hash_input es)"

record host_disk =
  hd_files :: "gostring \<Rightarrow> gostring option"
  hd_mkdir :: "gostring \<Rightarrow> error"
  hd_write :: "gostring \<Rightarrow> error"
  hd_writes :: "gostring list"              \<comment> \<open>history: the paths written\<close>

text \<open>The visit of one file: nothing, a skill, or an error that ends the walk.\<close>

definition extract_file ::
  "gostring \<Rightarrow> gostring \<Rightarrow> gostring fallible \<Rightarrow> host_disk \<Rightarrow> skill option fallible \<times> host_disk" where
  "extract_file root p content d =
     (if path_base p \<noteq> ''SKILL.md'' then (Inr None, d)
      else
        (case content of
           Inl e \<Rightarrow> (Inl e, d)
         | Inr body \<Rightarrow>
             (case parse_frontmatter body of (name, descr, builtin) \<Rightarrow>
                if \<not> builtin then (Inr None, d)
                else
                  (let rel = trim_prefix p ''bundle/''; dst = path_join [root, rel];
                       sk = \<lparr>sk_name = (if name = [] then path_base (path_dir rel) else name),
                             sk_description = descr, sk_path = dst\<rparr> in
                   case hd_mkdir d (path_dir dst) of
                     Some e \<Rightarrow> (Inl e, d)
                   | None \<Rightarrow>
                       if hd_files d dst = Some body then (Inr (Some sk), d)
                       else
                         (case hd_write d dst of
                            Some e \<Rightarrow> (Inl e, d)
                          | None \<Rightarrow> (Inr (Some sk), d\<lparr>hd_files := (hd_files d)(dst \<mapsto> body),
                                                     hd_writes := hd_writes d @ [dst]\<rparr>))))))"

fun extract_walk ::
  "gostring \<Rightarrow> walk_entry list \<Rightarrow> host_disk \<Rightarrow> skill list fallible \<times> host_disk" where
  "extract_walk root [] d = (Inr [], d)"
| "extract_walk root (WalkError e # es) d = (Inl e, d)"
| "extract_walk root (WalkDir p # es) d = extract_walk root es d"
| "extract_walk root (WalkFile p c # es) d =
     (case extract_file root p c d of
        (Inl e, d') \<Rightarrow> (Inl e, d')
      | (Inr sk, d') \<Rightarrow>
          (case extract_walk root es d' of
             (Inl e, d'') \<Rightarrow> (Inl e, d'')
           | (Inr ss, d'') \<Rightarrow> (Inr ((case sk of None \<Rightarrow> [] | Some s \<Rightarrow> [s]) @ ss), d'')))"

definition skills_root :: "gostring \<Rightarrow> gostring \<Rightarrow> gostring" where
  "skills_root tmp hash = path_join [tmp, ''poe-acp-'' @ take 12 hash, ''skills'']"

definition load_builtin ::
  "gostring \<Rightarrow> walk_entry list \<Rightarrow> host_disk \<Rightarrow> skill list fallible \<times> host_disk" where
  "load_builtin tmp es d =
     (case bundle_hash es of
        Inl e \<Rightarrow> (Inl (''hash bundle: '' @ e), d)
      | Inr hash \<Rightarrow>
          (case extract_walk (skills_root tmp hash) es d of
             (Inl e, d') \<Rightarrow> (Inl e, d')
           | (Inr ss, d') \<Rightarrow> (Inr (sort_by (by_key sk_name) ss), d')))"

section \<open>The host's skills\<close>

datatype read_result = Missing | ReadError gostring | ReadOk gostring

definition dir_skill :: "gostring \<Rightarrow> (gostring \<Rightarrow> read_result) \<Rightarrow> gostring \<times> bool \<Rightarrow> skill list" where
  "dir_skill root rd e =
     (case e of (ename, is_dir) \<Rightarrow>
        if \<not> is_dir then []
        else
          (let p = path_join [root, ename, ''SKILL.md''] in
           case rd p of
             ReadOk body \<Rightarrow>
               (case parse_frontmatter body of (name, descr, _) \<Rightarrow>
                  if descr = [] then []
                  else [\<lparr>sk_name = (if name = [] then ename else name), sk_description = descr, sk_path = p\<rparr>])
           | _ \<Rightarrow> []))"

text \<open>The directory's entries, \<open>None\<close> when it does not exist.\<close>

definition load_dir ::
  "(gostring \<Rightarrow> gostring fallible) \<Rightarrow> (gostring \<Rightarrow> (gostring \<times> bool) list option fallible) \<Rightarrow>
   (gostring \<Rightarrow> read_result) \<Rightarrow> gostring \<Rightarrow> skill list fallible" where
  "load_dir absolute entries rd path =
     (if path = [] then Inr []
      else
        (case absolute path of
           Inl e \<Rightarrow> Inl e
         | Inr root \<Rightarrow>
             (case entries root of
                Inl e \<Rightarrow> Inl e
              | Inr None \<Rightarrow> Inr []
              | Inr (Some es) \<Rightarrow> Inr (sort_by (by_key sk_name) (concat (map (dir_skill root rd) es))))))"

section \<open>Merging\<close>

text \<open>The Go map by name, as a list in the order of the last assignments; the iteration order of
  the map does not matter because the result is sorted (\<open>merge_unique\<close>).\<close>

definition put_skill :: "skill \<Rightarrow> skill list \<Rightarrow> skill list" where
  "put_skill s m = filter (\<lambda>x. sk_name x \<noteq> sk_name s) m @ [s]"

definition merge_map :: "skill list list \<Rightarrow> skill list" where
  "merge_map layers = fold put_skill (concat layers) []"

definition merge_skills :: "skill list list \<Rightarrow> gostring list \<Rightarrow> skill list" where
  "merge_skills layers disable =
     sort_by (by_key sk_name) (filter (\<lambda>s. sk_name s \<notin> set disable) (merge_map layers))"

section \<open>The catalogue\<close>

definition escape_char :: "char \<Rightarrow> gostring" where
  "escape_char c = (if c = CHR ''&'' then ''&amp;'' else if c = CHR ''<'' then ''&lt;''
     else if c = CHR ''>'' then ''&gt;'' else [c])"

definition escape_xml :: "gostring \<Rightarrow> gostring" where
  "escape_xml s = concat (map escape_char s)"

definition catalog_preamble :: gostring where
  "catalog_preamble =
     ''The following skills provide specialized instructions for specific tasks.'' @ [nl] @
     ''Use your read tool to load a skill's SKILL.md when the task matches its description.'' @ [nl] @
     ''Skill body paths are absolute and stable for the lifetime of this session.'' @ [nl, nl] @
     ''<available_skills>'' @ [nl]"

definition skill_entry :: "skill \<Rightarrow> gostring" where
  "skill_entry s =
     ''  <skill>'' @ [nl] @ ''    <name>'' @ escape_xml (sk_name s) @ ''</name>'' @ [nl] @
     ''    <description>'' @ escape_xml (sk_description s) @ ''</description>'' @ [nl] @
     ''    <location>'' @ escape_xml (sk_path s) @ ''</location>'' @ [nl] @ ''  </skill>'' @ [nl]"

definition format_catalog :: "skill list \<Rightarrow> gostring" where
  "format_catalog ss =
     (if ss = [] then []
      else catalog_preamble @ concat (map skill_entry ss) @ ''</available_skills>'' @ [nl])"

section \<open>Merging: last wins, sorted\<close>

lemma put_skill_names: "sk_name ` set (put_skill s m) = insert (sk_name s) (sk_name ` set m)"
  by (auto simp: put_skill_def)

lemma put_skill_distinct: "distinct (map sk_name m) \<Longrightarrow> distinct (map sk_name (put_skill s m))"
  by (induction m) (auto simp: put_skill_def)

lemma fold_put_distinct: "distinct (map sk_name m) \<Longrightarrow> distinct (map sk_name (fold put_skill ss m))"
  by (induction ss arbitrary: m) (simp_all add: put_skill_distinct)

lemma fold_put_set:
  "s \<in> set (fold put_skill ss m) \<longleftrightarrow>
     find (\<lambda>x. sk_name x = sk_name s) (rev ss) = Some s \<or>
     s \<in> set m \<and> find (\<lambda>x. sk_name x = sk_name s) (rev ss) = None"
proof (induction ss rule: rev_induct)
  case (snoc x ss)
  then show ?case by (auto simp: put_skill_def)
qed simp

lemma merge_map_distinct: "distinct (map sk_name (merge_map layers))"
  by (simp add: merge_map_def fold_put_distinct)

text \<open>A sorted list with distinct keys is determined by its elements.\<close>

lemma sorted_distinct_unique:
  assumes "sorted_wrt (by_key f) xs" "sorted_wrt (by_key f) ys" "distinct (map f xs)" "distinct (map f ys)"
    and "set xs = set ys"
  shows "xs = ys"
  using assms
proof (induction xs arbitrary: ys)
  case (Cons x xs)
  then obtain y ys' where ys: "ys = y # ys'" by (cases ys) auto
  have "f x = f y"
  proof (rule ccontr)
    assume ne: "f x \<noteq> f y"
    with Cons.prems(5) ys have "x \<in> set ys'" "y \<in> set xs" by auto
    with Cons.prems(1,2) ys have "str_le (f y) (f x)" "str_le (f x) (f y)" by (auto simp: by_key_def)
    with ne str_le_antisym show False by blast
  qed
  with Cons.prems ys have "x = y" by (auto simp: image_iff)
  moreover from this Cons.prems ys have "set xs = set ys'" by (auto simp: image_iff)
  ultimately show ?case using Cons ys by auto
qed simp

text \<open>Merging keeps, of every name, the skill assigned last in the layers, unless the name is
  disabled, in strictly ascending order of names; and in whatever order the Go map is iterated,
  sorting by name gives this list.\<close>

theorem merge_is_last_wins:
  "sorted_wrt (by_key sk_name) (merge_skills layers disable) \<and> distinct (map sk_name (merge_skills layers disable)) \<and>
   (\<forall>s. s \<in> set (merge_skills layers disable) \<longleftrightarrow>
      sk_name s \<notin> set disable \<and> find (\<lambda>x. sk_name x = sk_name s) (rev (concat layers)) = Some s) \<and>
   (\<forall>m. distinct (map sk_name m) \<and> set m = set (merge_map layers) \<longrightarrow>
      sort_by (by_key sk_name) (filter (\<lambda>s. sk_name s \<notin> set disable) m) = merge_skills layers disable)"
proof (intro conjI allI impI)
  show "sorted_wrt (by_key sk_name) (merge_skills layers disable)" by (simp add: merge_skills_def sorted_sort_by)
  show d: "distinct (map sk_name (merge_skills layers disable))"
    by (simp add: merge_skills_def distinct_map_filter merge_map_distinct)
  show "s \<in> set (merge_skills layers disable) \<longleftrightarrow>
      sk_name s \<notin> set disable \<and> find (\<lambda>x. sk_name x = sk_name s) (rev (concat layers)) = Some s" for s
    by (auto simp: merge_skills_def merge_map_def fold_put_set)
  fix m
  assume m: "distinct (map sk_name m) \<and> set m = set (merge_map layers)"
  show "sort_by (by_key sk_name) (filter (\<lambda>s. sk_name s \<notin> set disable) m) = merge_skills layers disable"
    using m d
    by (intro sorted_distinct_unique [where f = sk_name])
      (auto simp: merge_skills_def sorted_sort_by distinct_map_filter)
qed

text \<open>The host's skill replaces the built-in one; a disabled one is dropped.\<close>

theorem merge_is_last_wins_witness:
  "let b = \<lparr>sk_name = ''b'', sk_description = ''built in'', sk_path = ''/t''\<rparr>;
       h = \<lparr>sk_name = ''b'', sk_description = ''host'', sk_path = ''/h''\<rparr>;
       a = \<lparr>sk_name = ''a'', sk_description = ''other'', sk_path = ''/a''\<rparr> in
   h \<in> set (merge_skills [[b], [h, a]] [''a'']) \<and> a \<notin> set (merge_skills [[b], [h, a]] [''a''])"
  using merge_is_last_wins [of "[[\<lparr>sk_name = ''b'', sk_description = ''built in'', sk_path = ''/t''\<rparr>],
      [\<lparr>sk_name = ''b'', sk_description = ''host'', sk_path = ''/h''\<rparr>,
       \<lparr>sk_name = ''a'', sk_description = ''other'', sk_path = ''/a''\<rparr>]]" "[''a'']"]
  unfolding Let_def by auto

section \<open>The catalogue can be read back\<close>

text \<open>A reader of the catalogue: the text of a field ends at the next tag.\<close>

function unescape_xml :: "gostring \<Rightarrow> gostring" where
  "unescape_xml s =
     (if s = [] then []
      else if has_prefix s ''&amp;'' then CHR ''&'' # unescape_xml (drop 5 s)
      else if has_prefix s ''&lt;'' then CHR ''<'' # unescape_xml (drop 4 s)
      else if has_prefix s ''&gt;'' then CHR ''>'' # unescape_xml (drop 4 s)
      else hd s # unescape_xml (tl s))"
  by auto
termination by (relation "measure length") (auto simp: has_prefix_iff)

declare unescape_xml.simps [simp del]

definition read_tag :: "gostring \<Rightarrow> gostring \<Rightarrow> (gostring \<times> gostring) option" where
  "read_tag tag s =
     (if has_prefix s tag
      then (let v = takeWhile (\<lambda>c. c \<noteq> CHR ''<'') (drop (length tag) s) in
            Some (unescape_xml v, drop (length tag + length v) s))
      else None)"

primrec read_entries :: "nat \<Rightarrow> gostring \<Rightarrow> skill list option" where
  "read_entries 0 s = None"
| "read_entries (Suc n) s =
     (if s = ''</available_skills>'' @ [nl] then Some []
      else
        (case read_tag (''  <skill>'' @ [nl] @ ''    <name>'') s of
           None \<Rightarrow> None
         | Some (name, s1) \<Rightarrow>
        (case read_tag (''</name>'' @ [nl] @ ''    <description>'') s1 of
           None \<Rightarrow> None
         | Some (descr, s2) \<Rightarrow>
        (case read_tag (''</description>'' @ [nl] @ ''    <location>'') s2 of
           None \<Rightarrow> None
         | Some (path, s3) \<Rightarrow>
             map_option (\<lambda>ss. \<lparr>sk_name = name, sk_description = descr, sk_path = path\<rparr> # ss)
               (read_entries n (trim_prefix s3 (''</location>'' @ [nl] @ ''  </skill>'' @ [nl])))))))"

definition read_catalog :: "gostring \<Rightarrow> skill list option" where
  "read_catalog s =
     (if s = [] then Some [] else read_entries (length s) (trim_prefix s catalog_preamble))"

lemma escape_xml_Cons: "escape_xml (c # s) = escape_char c @ escape_xml s"
  by (simp add: escape_xml_def)

lemma escape_xml_no_tag: "CHR ''<'' \<notin> set (escape_xml s)"
  by (auto simp: escape_xml_def escape_char_def split: if_splits)

lemma unescape_escape_xml: "unescape_xml (escape_xml s) = s"
proof (induction s)
  case Nil
  show ?case by (simp add: escape_xml_def unescape_xml.simps)
next
  case (Cons c s)
  consider "c = CHR ''&''" | "c = CHR ''<''" | "c = CHR ''>''"
    | "c \<noteq> CHR ''&''" "c \<noteq> CHR ''<''" "c \<noteq> CHR ''>''" by blast
  then show ?case
    by cases (subst unescape_xml.simps, simp add: escape_xml_Cons escape_char_def has_prefix_def Cons.IH)+
qed

lemma read_tag_step:
  "read_tag tag (tag @ escape_xml v @ CHR ''<'' # rest) = Some (v, CHR ''<'' # rest)"
proof -
  have "takeWhile (\<lambda>c. c \<noteq> CHR ''<'') (escape_xml v @ CHR ''<'' # rest) = escape_xml v"
    using escape_xml_no_tag [of v] by (subst takeWhile_append2) auto
  then show ?thesis by (simp add: read_tag_def Let_def unescape_escape_xml)
qed

lemma read_skill_entry:
  "read_entries (Suc n) (skill_entry s @ rest) = map_option ((#) s) (read_entries n rest)"
proof -
  let ?fin = "''</location>'' @ [nl] @ ''  </skill>'' @ [nl]"
  let ?loc = "''</description>'' @ [nl] @ ''    <location>''"
  let ?desc = "''</name>'' @ [nl] @ ''    <description>''"
  let ?name = "''  <skill>'' @ [nl] @ ''    <name>''"
  have e: "skill_entry s @ rest = ?name @ escape_xml (sk_name s) @ ?desc @ escape_xml (sk_description s) @
      ?loc @ escape_xml (sk_path s) @ ?fin @ rest"
    by (simp add: skill_entry_def)
  have f1: "read_tag ?name (skill_entry s @ rest) =
      Some (sk_name s, ?desc @ escape_xml (sk_description s) @ ?loc @ escape_xml (sk_path s) @ ?fin @ rest)"
    unfolding e using read_tag_step [of ?name "sk_name s"] by simp
  have f2: "read_tag ?desc (?desc @ escape_xml (sk_description s) @ ?loc @ escape_xml (sk_path s) @ ?fin @ rest) =
      Some (sk_description s, ?loc @ escape_xml (sk_path s) @ ?fin @ rest)"
    using read_tag_step [of ?desc "sk_description s"] by simp
  have f3: "read_tag ?loc (?loc @ escape_xml (sk_path s) @ ?fin @ rest) = Some (sk_path s, ?fin @ rest)"
    using read_tag_step [of ?loc "sk_path s"] by simp
  have ne: "skill_entry s @ rest \<noteq> ''</available_skills>'' @ [nl]" by (simp add: skill_entry_def)
  have t: "trim_prefix (?fin @ rest) ?fin = rest" by (rule trim_prefix_append)
  show ?thesis
    unfolding read_entries.simps(2) f1 if_not_P [OF ne] option.case prod.case f2 f3 t
    by (cases s) simp
qed

lemma read_entries_all:
  "length ss < n \<Longrightarrow> read_entries n (concat (map skill_entry ss) @ ''</available_skills>'' @ [nl]) = Some ss"
proof (induction ss arbitrary: n)
  case Nil
  then show ?case by (cases n) simp_all
next
  case (Cons s ss)
  then obtain n' where "n = Suc n'" "length ss < n'" by (cases n) auto
  with Cons.IH show ?case by (simp add: read_skill_entry del: read_entries.simps)
qed

lemma length_entries: "length ss \<le> length (concat (map skill_entry ss))"
  by (induction ss) (auto simp: skill_entry_def)

text \<open>C34: The catalogue cannot be forged: a reader that takes each field up to the next tag gets back
  exactly the skills it was made of, whatever their names, descriptions and paths contain.\<close>

theorem catalog_roundtrip: "read_catalog (format_catalog ss) = Some ss"
proof (cases "ss = []")
  case False
  let ?body = "concat (map skill_entry ss) @ ''</available_skills>'' @ [nl]"
  have fc: "format_catalog ss = catalog_preamble @ ?body" using False by (simp add: format_catalog_def)
  have "length ss < length (catalog_preamble @ ?body)" using length_entries [of ss] by simp
  then have "read_entries (length (catalog_preamble @ ?body)) ?body = Some ss" by (rule read_entries_all)
  moreover have "catalog_preamble @ ?body \<noteq> []" by simp
  ultimately show ?thesis unfolding read_catalog_def fc trim_prefix_append by simp
qed (simp add: format_catalog_def read_catalog_def)

section \<open>Extraction\<close>

text \<open>The files a walk extracts: destination and content.\<close>

definition stored_file :: "gostring \<Rightarrow> gostring \<Rightarrow> gostring fallible \<Rightarrow> (gostring \<times> gostring) list" where
  "stored_file root p content =
     (case content of
        Inl _ \<Rightarrow> []
      | Inr body \<Rightarrow>
          if path_base p = ''SKILL.md'' \<and> snd (snd (parse_frontmatter body))
          then [(path_join [root, trim_prefix p ''bundle/''], body)] else [])"

fun stored :: "gostring \<Rightarrow> walk_entry list \<Rightarrow> (gostring \<times> gostring) list" where
  "stored root [] = []"
| "stored root (WalkFile p c # es) = stored_file root p c @ stored root es"
| "stored root (e # es) = stored root es"

lemma extract_file_ok:
  assumes "extract_file root p c d = (Inr sk, d')"
  shows "hd_files d' = hd_files d ++ map_of (stored_file root p c)" "hd_mkdir d' = hd_mkdir d" "hd_write d' = hd_write d"
    "map sk_path (case sk of None \<Rightarrow> [] | Some s \<Rightarrow> [s]) = map fst (stored_file root p c)"
    "(\<forall>(q, b) \<in> set (stored_file root p c). hd_files e q = Some b) \<Longrightarrow> hd_mkdir e = hd_mkdir d \<Longrightarrow>
       extract_file root p c e = (Inr sk, e)"
  using assms
  by (auto simp: extract_file_def stored_file_def Let_def fun_eq_iff
      split: if_splits sum.splits prod.splits option.splits)

lemma extract_walk_ok:
  assumes "extract_walk root es d = (Inr ss, d')"
  shows "hd_files d' = hd_files d ++ map_of (rev (stored root es)) \<and> hd_mkdir d' = hd_mkdir d \<and>
    map sk_path ss = map fst (stored root es) \<and>
    (\<forall>e. (\<forall>(q, b) \<in> set (stored root es). hd_files e q = Some b) \<longrightarrow> hd_mkdir e = hd_mkdir d \<longrightarrow>
       extract_walk root es e = (Inr ss, e))"
  using assms
proof (induction es arbitrary: d ss d')
  case (Cons w es)
  show ?case
  proof (cases w)
    case (WalkFile p c)
    with Cons.prems obtain sk d1 ss1 where f: "extract_file root p c d = (Inr sk, d1)"
      and w1: "extract_walk root es d1 = (Inr ss1, d')"
      and ss: "ss = (case sk of None \<Rightarrow> [] | Some s \<Rightarrow> [s]) @ ss1"
      by (auto split: prod.splits sum.splits)
    have one: "map_of (rev (stored_file root p c)) = map_of (stored_file root p c)"
      by (simp add: stored_file_def split: sum.splits)
    note fo = extract_file_ok [OF f]
    have "extract_walk root (w # es) e = (Inr ss, e)"
      if "\<forall>(q, b) \<in> set (stored root (w # es)). hd_files e q = Some b" "hd_mkdir e = hd_mkdir d" for e
    proof -
      from that WalkFile have st: "\<forall>(q, b) \<in> set (stored_file root p c). hd_files e q = Some b"
        and st': "\<forall>(q, b) \<in> set (stored root es). hd_files e q = Some b" by auto
      from fo(5) [OF st that(2)] Cons.IH [OF w1] st' that(2) fo(2) WalkFile ss show ?thesis by simp
    qed
    then show ?thesis
      using Cons.IH [OF w1] fo(1,2,4) WalkFile ss by (simp add: map_add_assoc one)
  next
    case (WalkDir p)
    with Cons.IH [of d ss d'] Cons.prems show ?thesis by simp
  next
    case (WalkError e)
    with Cons.prems show ?thesis by simp
  qed
qed simp

text \<open>C35: After \<open>LoadBuiltin\<close> succeeds, every skill it returns is on disk with exactly the text of the
  bundle, and running it again with the same binary changes no file and gives the same skills.\<close>

theorem builtin_skills_are_extracted:
  assumes "load_builtin tmp es d = (Inr ss, d')" "bundle_hash es = Inr hash"
    and "distinct (map fst (stored (skills_root tmp hash) es))"
  shows "(\<forall>s \<in> set ss. \<exists>body. (sk_path s, body) \<in> set (stored (skills_root tmp hash) es) \<and>
      hd_files d' (sk_path s) = Some body) \<and> load_builtin tmp es d' = (Inr ss, d')"
proof -
  let ?st = "stored (skills_root tmp hash) es"
  from assms(1,2) obtain ss0 where w: "extract_walk (skills_root tmp hash) es d = (Inr ss0, d')"
    and ss: "ss = sort_by (by_key sk_name) ss0"
    by (auto simp: load_builtin_def split: prod.splits sum.splits)
  note ok = extract_walk_ok [OF w]
  have on_disk: "hd_files d' q = Some b" if "(q, b) \<in> set ?st" for q b
    using that ok assms(3) map_of_eq_Some_iff [of "rev ?st" q b]
    by (simp add: rev_map [symmetric])
  have "\<exists>body. (sk_path s, body) \<in> set ?st \<and> hd_files d' (sk_path s) = Some body" if "s \<in> set ss" for s
  proof -
    from that ss have "sk_path s \<in> set (map sk_path ss0)" by simp
    with ok have "sk_path s \<in> fst ` set ?st" by simp
    with on_disk show ?thesis by force
  qed
  moreover have "extract_walk (skills_root tmp hash) es d' = (Inr ss0, d')"
    using ok on_disk by blast
  ultimately show ?thesis using assms(2) ss by (simp add: load_builtin_def)
qed

text \<open>A bundle of one built-in skill on an empty disk; the hash is a variable because only its first
  characters name the directory.\<close>

definition demo_skill :: gostring where
  "demo_skill = ''---'' @ [nl] @ ''name: x'' @ [nl] @ ''builtin: true'' @ [nl] @ ''---'' @ [nl]"

definition demo_bundle :: "walk_entry list" where
  "demo_bundle = [WalkDir ''bundle'', WalkFile ''bundle/x/SKILL.md'' (Inr demo_skill)]"

definition empty_disk :: host_disk where
  "empty_disk = \<lparr>hd_files = (\<lambda>_. None), hd_mkdir = (\<lambda>_. None), hd_write = (\<lambda>_. None), hd_writes = []\<rparr>"

lemma demo_skill_parsed: "parse_frontmatter demo_skill = (''x'', [], True)"
proof -
  have "index_of (drop 4 demo_skill) (nl # ''---'') = Some 21"
    by (simp add: demo_skill_def has_prefix_def numeral_eq_Suc)
  moreover have "split_byte nl (take 21 (drop 4 demo_skill)) = [''name: x'', ''builtin: true'']"
    by (simp add: demo_skill_def)
  moreover have "trim_space '' x'' = ''x''" "trim_space '' true'' = ''true''" "trim_space ''name'' = ''name''"
    "trim_space ''builtin'' = ''builtin''"
    by code_simp+
  ultimately show ?thesis
    by (simp add: parse_frontmatter_def frontmatter_line_def trim_set_def squote_def)
      (simp add: demo_skill_def has_prefix_def)
qed

theorem builtin_skills_are_extracted_witness:
  "\<exists>ss d'. load_builtin ''/tmp'' demo_bundle empty_disk = (Inr ss, d') \<and>
     load_builtin ''/tmp'' demo_bundle d' = (Inr ss, d') \<and> length ss = 1 \<and> length (hd_writes d') = 1"
proof -
  define hash where "hash = hex_encode (sha256 (''bundle/x/SKILL.md'' @ [CHR 0x00] @ demo_skill @ [CHR 0x00]))"
  define root where "root = skills_root ''/tmp'' hash"
  have b: "path_base ''bundle/x/SKILL.md'' = ''SKILL.md''" by (simp add: path_base_def split_last_def)
  have h: "bundle_hash demo_bundle = Inr hash" by (simp add: bundle_hash_def demo_bundle_def hash_def)
  have st: "stored root demo_bundle = [(path_join [root, ''x/SKILL.md''], demo_skill)]"
    by (simp add: demo_bundle_def stored_file_def b demo_skill_parsed trim_prefix_def has_prefix_def)
  obtain ss d' where l: "load_builtin ''/tmp'' demo_bundle empty_disk = (Inr ss, d')"
    and n: "length ss = 1 \<and> length (hd_writes d') = 1"
  proof -
    have "\<exists>sk d'. extract_walk root demo_bundle empty_disk = (Inr [sk], d') \<and> length (hd_writes d') = 1"
      by (simp add: demo_bundle_def extract_file_def b demo_skill_parsed empty_disk_def Let_def)
    then show ?thesis
      using that by (auto simp: load_builtin_def h root_def [symmetric] sort_by_def)
  qed
  have "distinct (map fst (stored (skills_root ''/tmp'' hash) demo_bundle))"
    using st by (simp add: root_def)
  from builtin_skills_are_extracted [OF l h this] l n show ?thesis by blast
qed

end
