(* ===== verification/Sse_Stream.thy ===== *)
theory Sse_Stream
  imports Go_Json
begin

text \<open>
  The SSE writer of a Poe response (\<open>SSEWriter\<close>, internal/poeproto/poeproto.go) and the
  reader it is proved against. The environment \<open>io\<close> says which write to the HTTP connection
  fails (\<open>Some\<close> the error); a frame whose write fails is not part of the stream.
\<close>

section \<open>The writer\<close>

record sse_writer =
  sw_log :: "(gostring \<times> json) list"   \<comment> \<open>frames on the wire, in order\<close>
  sw_closed :: bool
  sw_writes :: nat                       \<comment> \<open>write attempts so far\<close>

type_synonym io_env = "nat \<Rightarrow> gostring option"
type_synonym go_error = "gostring option"

definition new_sse_writer :: sse_writer where
  "new_sse_writer = \<lparr>sw_log = [], sw_closed = False, sw_writes = 0\<rparr>"

text \<open>\<open>NewSSEWriter\<close>: the response writer must support flushing. The second component is the
  header set on the response.\<close>

definition new_sse ::
  "bool \<Rightarrow> (sse_writer \<times> (gostring \<times> gostring) list) fallible" where
  "new_sse is_flusher =
     (if is_flusher then
        Inr (new_sse_writer,
          [(''Content-Type'', ''text/event-stream''), (''Cache-Control'', ''no-cache''),
           (''Connection'', ''keep-alive'')])
      else Inl ''response writer does not support flushing'')"

definition sse_frame :: "gostring \<times> json \<Rightarrow> gostring" where
  "sse_frame f =
     ''event: '' @ fst f @ [nl] @ ''data: '' @ json_encode (snd f) @ [nl, nl]"

definition sse_event :: "io_env \<Rightarrow> gostring \<Rightarrow> json \<Rightarrow> sse_writer \<Rightarrow> go_error \<times> sse_writer" where
  "sse_event io name data w =
     (if sw_closed w then (Some ''sse: closed'', w)
      else
        (case io (sw_writes w) of
           Some e \<Rightarrow> (Some e, w\<lparr>sw_writes := Suc (sw_writes w)\<rparr>)
         | None \<Rightarrow>
             (None, w\<lparr>sw_log := sw_log w @ [(name, data)], sw_writes := Suc (sw_writes w)\<rparr>)))"

definition sse_meta :: "io_env \<Rightarrow> sse_writer \<Rightarrow> go_error \<times> sse_writer" where
  "sse_meta io w =
     sse_event io ''meta'' (JObject [(''content_type'', JString ''text/markdown'')]) w"

definition sse_text :: "io_env \<Rightarrow> gostring \<Rightarrow> sse_writer \<Rightarrow> go_error \<times> sse_writer" where
  "sse_text io chunk w =
     (if chunk = [] then (None, w)
      else sse_event io ''text'' (JObject [(''text'', JString chunk)]) w)"

definition sse_replace :: "io_env \<Rightarrow> gostring \<Rightarrow> sse_writer \<Rightarrow> go_error \<times> sse_writer" where
  "sse_replace io chunk w = sse_event io ''replace_response'' (JObject [(''text'', JString chunk)]) w"

text \<open>The map of an error event; \<open>json.Marshal\<close> writes its keys in sorted order.\<close>

definition error_data :: "gostring \<Rightarrow> gostring \<Rightarrow> json" where
  "error_data text error_type =
     JObject ([(''allow_retry'', JBool True)] @
       (if error_type \<noteq> [] then [(''error_type'', JString error_type)] else []) @
       [(''text'', JString text)])"

definition sse_error :: "io_env \<Rightarrow> gostring \<Rightarrow> gostring \<Rightarrow> sse_writer \<Rightarrow> go_error \<times> sse_writer" where
  "sse_error io text error_type w = sse_event io ''error'' (error_data text error_type) w"

definition sse_done :: "io_env \<Rightarrow> sse_writer \<Rightarrow> go_error \<times> sse_writer" where
  "sse_done io w =
     (case sse_event io ''done'' (JObject []) w of (err, w') \<Rightarrow> (err, w'\<lparr>sw_closed := True\<rparr>))"

text \<open>The bytes of the response body.\<close>

definition wire_bytes :: "sse_writer \<Rightarrow> gostring" where
  "wire_bytes w = concat (map sse_frame (sw_log w))"

lemmas sse_ops = sse_meta_def sse_text_def sse_replace_def sse_error_def sse_done_def

lemma sse_event_closed [simp]:
  "sw_closed w \<Longrightarrow> sse_event io name data w = (Some ''sse: closed'', w)"
  by (simp add: sse_event_def)

lemma sse_event_ok [simp]:
  "\<not> sw_closed w \<Longrightarrow> io (sw_writes w) = None \<Longrightarrow> sse_event io name data w =
     (None, w\<lparr>sw_log := sw_log w @ [(name, data)], sw_writes := Suc (sw_writes w)\<rparr>)"
  by (simp add: sse_event_def)

lemma sw_closed_event [simp]: "sw_closed (snd (sse_event io name data w)) = sw_closed w"
  by (simp add: sse_event_def split: option.splits)

section \<open>A Poe client's view of the stream\<close>

datatype poe_event =
    PMeta
  | PText gostring
  | PReplace gostring
  | PError gostring gostring
  | PDone

fun wire :: "poe_event \<Rightarrow> gostring \<times> json" where
  "wire PMeta = (''meta'', JObject [(''content_type'', JString ''text/markdown'')])"
| "wire (PText s) = (''text'', JObject [(''text'', JString s)])"
| "wire (PReplace s) = (''replace_response'', JObject [(''text'', JString s)])"
| "wire (PError t et) = (''error'', error_data t et)"
| "wire PDone = (''done'', JObject [])"

text \<open>What the client can see of an event: JSON carries UTF-8 only.\<close>

fun utf8_event :: "poe_event \<Rightarrow> poe_event" where
  "utf8_event PMeta = PMeta"
| "utf8_event (PText s) = PText (to_valid_utf8 s)"
| "utf8_event (PReplace s) = PReplace (to_valid_utf8 s)"
| "utf8_event (PError t et) = PError (to_valid_utf8 t) (to_valid_utf8 et)"
| "utf8_event PDone = PDone"

definition strip_prefix :: "gostring \<Rightarrow> gostring \<Rightarrow> gostring option" where
  "strip_prefix p s = (if take (length p) s = p then Some (drop (length p) s) else None)"

text \<open>A quoted string field \<open>key:"..."\<close>, and the rest of the object.\<close>

definition read_field :: "gostring \<Rightarrow> gostring \<Rightarrow> (gostring \<times> gostring) option" where
  "read_field key s =
     Option.bind (strip_prefix ([dquote] @ key @ [dquote] @ '':'' @ [dquote]) s) json_unescape"

definition read_payload :: "gostring \<Rightarrow> gostring \<Rightarrow> poe_event option" where
  "read_payload name data =
     (if name = ''meta'' then
        (if data = json_encode (snd (wire PMeta)) then Some PMeta else None)
      else if name = ''done'' then (if data = ''{}'' then Some PDone else None)
      else if name = ''text'' \<or> name = ''replace_response'' then
        Option.bind (strip_prefix ''{'' data) (\<lambda>d.
        Option.bind (read_field ''text'' d) (\<lambda>(t, rest).
          if rest \<noteq> ''}'' then None
          else Some (if name = ''text'' then PText t else PReplace t)))
      else if name = ''error'' then
        Option.bind (strip_prefix (''{'' @ [dquote] @ ''allow_retry'' @ [dquote] @ '':true,'') data) (\<lambda>d.
          (case read_field ''error_type'' d of
             Some (et, rest) \<Rightarrow>
               Option.bind (strip_prefix '','' rest) (\<lambda>d'.
               Option.bind (read_field ''text'' d') (\<lambda>(t, rest').
                 if rest' = ''}'' then Some (PError t et) else None))
           | None \<Rightarrow>
               Option.bind (read_field ''text'' d) (\<lambda>(t, rest').
                 if rest' = ''}'' then Some (PError t []) else None)))
      else None)"

definition split_line :: "gostring \<Rightarrow> gostring \<times> gostring" where
  "split_line s = (takeWhile (\<lambda>c. c \<noteq> nl) s, drop 1 (dropWhile (\<lambda>c. c \<noteq> nl) s))"

text \<open>A frame is an \<open>event:\<close> line, a \<open>data:\<close> line and an empty line.\<close>

fun read_stream :: "nat \<Rightarrow> gostring \<Rightarrow> poe_event list option" where
  "read_stream 0 s = (if s = [] then Some [] else None)"
| "read_stream (Suc n) s =
     (if s = [] then Some []
      else
        (let (l1, s1) = split_line s; (l2, s2) = split_line s1; (l3, s3) = split_line s2 in
         Option.bind (strip_prefix ''event: '' l1) (\<lambda>name.
         Option.bind (strip_prefix ''data: '' l2) (\<lambda>data.
         Option.bind (if l3 = [] then read_payload name data else None) (\<lambda>e.
           map_option (\<lambda>es. e # es) (read_stream n s3))))))"

section \<open>The client reads what was written\<close>

lemma strip_prefix_append [simp]: "strip_prefix p (p @ s) = Some s"
  by (simp add: strip_prefix_def)

lemma json_string_read:
  "read_field key ([dquote] @ key @ [dquote] @ '':'' @ json_string s @ rest) =
     Some (to_valid_utf8 s, rest)"
proof -
  have "strip_prefix ([dquote] @ key @ [dquote] @ '':'' @ [dquote])
      (([dquote] @ key @ [dquote] @ '':'' @ [dquote]) @ json_escape s @ dquote # rest) =
    Some (json_escape s @ dquote # rest)" by (rule strip_prefix_append)
  then show ?thesis
    by (simp add: read_field_def json_string_def json_unescape_escape)
qed

lemma json_key_plain [simp]:
  "json_string ''text'' = [dquote] @ ''text'' @ [dquote]"
  "json_string ''allow_retry'' = [dquote] @ ''allow_retry'' @ [dquote]"
  "json_string ''error_type'' = [dquote] @ ''error_type'' @ [dquote]"
  by (simp_all add: json_string_def json_escape.simps escape_byte_def Let_def)

lemma read_text_field:
  "read_field ''text'' (json_string ''text'' @ '':'' @ json_string s @ rest) = Some (to_valid_utf8 s, rest)"
  using json_string_read [of "''text''" s rest] by simp

lemma read_error_type_field:
  "read_field ''error_type'' (json_string ''error_type'' @ '':'' @ json_string s @ rest) =
     Some (to_valid_utf8 s, rest)"
  using json_string_read [of "''error_type''" s rest] by simp

lemma no_error_type_field:
  "read_field ''error_type'' (json_string ''text'' @ rest) = None"
  by (simp add: read_field_def strip_prefix_def)

lemma read_payload_wire:
  "read_payload (fst (wire e)) (json_encode (snd (wire e))) = Some (utf8_event e)"
proof (cases e)
  case PMeta
  then show ?thesis by (simp add: read_payload_def)
next
  case (PText t)
  have "json_encode (JObject [(''text'', JString t)]) =
    ''{'' @ (json_string ''text'' @ '':'' @ json_string t @ ''}'')" by simp
  with PText show ?thesis
    by (simp only: read_payload_def wire.simps fst_conv snd_conv strip_prefix_append
        read_text_field bind.simps prod.case) simp
next
  case (PReplace t)
  have "json_encode (JObject [(''text'', JString t)]) =
    ''{'' @ (json_string ''text'' @ '':'' @ json_string t @ ''}'')" by simp
  with PReplace show ?thesis
    by (simp only: read_payload_def wire.simps fst_conv snd_conv strip_prefix_append
        read_text_field bind.simps prod.case) simp
next
  case (PError t et)
  let ?head = "''{'' @ [dquote] @ ''allow_retry'' @ [dquote] @ '':true,''"
  let ?text = "json_string ''text'' @ '':'' @ json_string t @ ''}''"
  show ?thesis
  proof (cases "et = []")
    case True
    then have "json_encode (error_data t et) = ?head @ ?text" by (simp add: error_data_def)
    with PError True show ?thesis
      by (simp only: read_payload_def wire.simps fst_conv snd_conv strip_prefix_append
          no_error_type_field read_text_field bind.simps prod.case option.case) simp
  next
    case False
    then have "json_encode (error_data t et) =
      ?head @ (json_string ''error_type'' @ '':'' @ json_string et @ ('','' @ ?text))"
      by (simp add: error_data_def)
    with PError show ?thesis
      by (simp only: read_payload_def wire.simps fst_conv snd_conv strip_prefix_append
          read_error_type_field read_text_field bind.simps prod.case option.case) simp
  qed
next
  case PDone
  then show ?thesis by (simp add: read_payload_def)
qed

lemma split_line_append: "nl \<notin> set l \<Longrightarrow> split_line (l @ nl # s) = (l, s)"
  by (induction l) (auto simp: split_line_def)

lemma nl_not_escaped [simp]: "nl \<notin> set (json_escape s)"
  using json_escape_printable [of nl s] by auto

lemma wire_no_nl: "nl \<notin> set (json_encode (snd (wire e)))" "nl \<notin> set (fst (wire e))"
  by (cases e; simp add: json_string_def error_data_def)+

lemma read_stream_frames:
  "length es \<le> n \<Longrightarrow>
     read_stream n (concat (map (sse_frame \<circ> wire) es)) = Some (map utf8_event es)"
proof (induction es arbitrary: n)
  case Nil
  then show ?case by (cases n) simp_all
next
  case (Cons e es)
  then obtain m where n: "n = Suc m" and m: "length es \<le> m" by (cases n) auto
  let ?name = "fst (wire e)" and ?data = "json_encode (snd (wire e))"
  let ?rest = "concat (map (sse_frame \<circ> wire) es)"
  have s: "concat (map (sse_frame \<circ> wire) (e # es)) =
    (''event: '' @ ?name) @ nl # ((''data: '' @ ?data) @ nl # ([] @ nl # ?rest))"
    by (simp add: sse_frame_def)
  have 1: "split_line ((''event: '' @ ?name) @ nl # r) = (''event: '' @ ?name, r)" for r
    by (rule split_line_append) (simp add: wire_no_nl)
  have 2: "split_line ((''data: '' @ ?data) @ nl # r) = (''data: '' @ ?data, r)" for r
    by (rule split_line_append) (simp add: wire_no_nl)
  have 3: "split_line ([] @ nl # r) = ([], r)" for r
    by (rule split_line_append) simp
  have ne: "(''event: '' @ ?name) @ nl # r \<noteq> []" for r by simp
  show ?case
    unfolding n s read_stream.simps Let_def 1 2 3 prod.case
    by (simp only: ne if_False if_True strip_prefix_append bind.simps read_payload_wire
        Cons.IH [OF m] simp_thms option.map list.map)
qed

section \<open>Sequences of calls\<close>

datatype sse_call = CallMeta | CallText gostring | CallReplace gostring
  | CallError gostring gostring | CallDone

fun do_call :: "io_env \<Rightarrow> sse_call \<Rightarrow> sse_writer \<Rightarrow> sse_writer" where
  "do_call io CallMeta w = snd (sse_meta io w)"
| "do_call io (CallText s) w = snd (sse_text io s w)"
| "do_call io (CallReplace s) w = snd (sse_replace io s w)"
| "do_call io (CallError t et) w = snd (sse_error io t et w)"
| "do_call io CallDone w = snd (sse_done io w)"

text \<open>The event a call means, when the stream is open: an empty text is not sent.\<close>

fun call_event :: "sse_call \<Rightarrow> poe_event list" where
  "call_event CallMeta = [PMeta]"
| "call_event (CallText s) = (if s = [] then [] else [PText s])"
| "call_event (CallReplace s) = [PReplace s]"
| "call_event (CallError t et) = [PError t et]"
| "call_event CallDone = [PDone]"

text \<open>Events up to and including the first \<open>Done\<close>.\<close>

fun until_done :: "sse_call list \<Rightarrow> poe_event list" where
  "until_done [] = []"
| "until_done (CallDone # cs) = [PDone]"
| "until_done (c # cs) = call_event c @ until_done cs"

definition io_ok :: io_env where
  "io_ok = (\<lambda>_. None)"

lemma do_calls_closed:
  "sw_closed w \<Longrightarrow> sw_log (fold (do_call io) cs w) = sw_log w"
proof (induction cs arbitrary: w)
  case (Cons c cs)
  then have "sw_closed (do_call io c w)" "sw_log (do_call io c w) = sw_log w"
    by (cases c; simp add: sse_ops)+
  with Cons.IH show ?case by simp
qed simp

lemma do_calls_log:
  "\<not> sw_closed w \<Longrightarrow> sw_log (fold (do_call io_ok) cs w) = sw_log w @ map wire (until_done cs)"
proof (induction cs arbitrary: w)
  case (Cons c cs)
  show ?case
  proof (cases "c = CallDone")
    case True
    with Cons.prems have "sw_closed (do_call io_ok c w)"
      "sw_log (do_call io_ok c w) = sw_log w @ [wire PDone]"
      by (simp_all add: sse_ops io_ok_def)
    with True do_calls_closed [of "do_call io_ok c w" io_ok cs] show ?thesis by simp
  next
    case False
    with Cons.prems have "\<not> sw_closed (do_call io_ok c w)"
      "sw_log (do_call io_ok c w) = sw_log w @ map wire (call_event c)"
      by (cases c; simp add: sse_ops io_ok_def)+
    moreover have "until_done (c # cs) = call_event c @ until_done cs"
      using False by (cases c) simp_all
    ultimately show ?thesis using Cons.IH [of "do_call io_ok c w"] by simp
  qed
qed simp

text \<open>C12: A Poe client that parses the response body reads back exactly the events the relay
  wrote, in order, up to the first \<open>done\<close>, with text that is valid UTF-8 unchanged: frames
  cannot run into each other whatever bytes the agent's text holds, empty text chunks are not
  sent, and nothing follows \<open>done\<close>.\<close>

theorem sse_stream_roundtrip:
  "\<exists>n. read_stream n (wire_bytes (fold (do_call io_ok) cs new_sse_writer)) =
     Some (map utf8_event (until_done cs))"
proof -
  have "wire_bytes (fold (do_call io_ok) cs new_sse_writer) =
    concat (map (sse_frame \<circ> wire) (until_done cs))"
    using do_calls_log [of new_sse_writer cs] by (simp add: wire_bytes_def new_sse_writer_def)
  with read_stream_frames [of "until_done cs" "length (until_done cs)"] show ?thesis by auto
qed

end
