(* ===== verification/Http_Sink.thy ===== *)
theory Http_Sink
  imports Sse_Stream Chunk_Drain
begin

text \<open>
  The sink of one HTTP request (\<open>orderedWriter\<close>, \<open>sink\<close>, its heartbeat goroutine;
  internal/httpsrv/handler.go). Each \<open>orderedWriter\<close> method runs under its mutex, so an
  execution is a sequence of whole method calls: those of the router, in the router's order,
  and heartbeat ticks anywhere between them.
\<close>

section \<open>The ordered writer\<close>

record ordered_writer =
  ow_w :: sse_writer
  ow_real_written :: bool
  ow_closed :: bool
  ow_spinner_visible :: bool

definition new_ordered_writer :: "sse_writer \<Rightarrow> ordered_writer" where
  "new_ordered_writer w =
     \<lparr>ow_w = w, ow_real_written = False, ow_closed = False, ow_spinner_visible = False\<rparr>"

definition clear_spinner :: "io_env \<Rightarrow> ordered_writer \<Rightarrow> ordered_writer" where
  "clear_spinner io ow =
     (if \<not> ow_real_written ow \<and> ow_spinner_visible ow
      then ow\<lparr>ow_w := snd (sse_replace io [] (ow_w ow)), ow_spinner_visible := False\<rparr>
      else ow)"

definition user_text :: "io_env \<Rightarrow> gostring \<Rightarrow> ordered_writer \<Rightarrow> go_error \<times> ordered_writer" where
  "user_text io s ow =
     (if ow_closed ow then (None, ow)
      else
        (let ow' = clear_spinner io ow; (err, w') = sse_text io s (ow_w ow') in
         (err, ow'\<lparr>ow_real_written := True, ow_w := w'\<rparr>)))"

definition user_replace :: "io_env \<Rightarrow> gostring \<Rightarrow> ordered_writer \<Rightarrow> go_error \<times> ordered_writer" where
  "user_replace io s ow =
     (if ow_closed ow then (None, ow)
      else
        (let (err, w') = sse_replace io s (ow_w ow) in
         (err, ow\<lparr>ow_real_written := True, ow_spinner_visible := False, ow_w := w'\<rparr>)))"

definition user_error ::
  "io_env \<Rightarrow> gostring \<Rightarrow> gostring \<Rightarrow> ordered_writer \<Rightarrow> go_error \<times> ordered_writer" where
  "user_error io text et ow =
     (if ow_closed ow then (None, ow)
      else
        (let ow' = clear_spinner io ow; (err, w') = sse_error io text et (ow_w ow') in
         (err, ow'\<lparr>ow_real_written := True, ow_w := w'\<rparr>)))"

definition user_done :: "io_env \<Rightarrow> ordered_writer \<Rightarrow> go_error \<times> ordered_writer" where
  "user_done io ow =
     (if ow_closed ow then (None, ow)
      else
        (let ow' = clear_spinner io ow; (err, w') = sse_done io (ow_w ow') in
         (err, ow'\<lparr>ow_closed := True, ow_w := w'\<rparr>)))"

text \<open>The first component is \<open>gateOpen\<close>.\<close>

definition hb_replace ::
  "io_env \<Rightarrow> gostring \<Rightarrow> ordered_writer \<Rightarrow> bool \<times> go_error \<times> ordered_writer" where
  "hb_replace io s ow =
     (if ow_real_written ow \<or> ow_closed ow then (False, None, ow)
      else
        (let (err, w') = sse_replace io s (ow_w ow) in
         (True, err, ow\<lparr>ow_spinner_visible := (s \<noteq> []), ow_w := w'\<rparr>)))"

section \<open>The sink and its heartbeat\<close>

record http_sink =
  hs_o :: ordered_writer
  hs_hb_done :: bool      \<comment> \<open>\<open>hbDone\<close> is closed\<close>
  hs_hb_exited :: bool    \<comment> \<open>\<open>hbExited\<close> is closed\<close>
  hs_spin_tick :: nat

text \<open>\<open>newSink\<close>: an interval that is not positive disables the heartbeat.\<close>

definition new_sink :: "sse_writer \<Rightarrow> int \<Rightarrow> http_sink" where
  "new_sink w hb =
     \<lparr>hs_o = new_ordered_writer w, hs_hb_done = (hb \<le> 0), hs_hb_exited = (hb \<le> 0),
      hs_spin_tick = 0\<rparr>"

definition spinner_frame :: "nat \<Rightarrow> gostring" where
  "spinner_frame tick = ''> _Thinking'' @ replicate (1 + (tick - 1) mod 3) (CHR ''.'') @ ''_''"

definition stop_heartbeat :: "http_sink \<Rightarrow> http_sink" where
  "stop_heartbeat s = s\<lparr>hs_hb_done := True\<rparr>"

text \<open>A call of the \<open>ChunkSink\<close> interface.\<close>

fun sink_call :: "io_env \<Rightarrow> sink_event \<Rightarrow> http_sink \<Rightarrow> http_sink" where
  "sink_call io EvFirstChunk s = stop_heartbeat s"
| "sink_call io (EvText t) s = s\<lparr>hs_o := snd (user_text io t (hs_o s))\<rparr>"
| "sink_call io (EvReplace t) s = s\<lparr>hs_o := snd (user_replace io t (hs_o s))\<rparr>"
| "sink_call io (EvError t et) s =
     (let s' = stop_heartbeat s in s'\<lparr>hs_o := snd (user_error io t et (hs_o s'))\<rparr>)"
| "sink_call io EvDone s =
     (let s' = stop_heartbeat s in s'\<lparr>hs_o := snd (user_done io (hs_o s'))\<rparr>)"

text \<open>One iteration of \<open>heartbeat\<close>: a tick, or \<open>hbDone\<close> seen closed. When both are ready the
  select takes either, so a tick may still come after \<open>stop\<close>.\<close>

definition heartbeat_tick :: "io_env \<Rightarrow> http_sink \<Rightarrow> http_sink" where
  "heartbeat_tick io s =
     (if hs_hb_exited s then s
      else
        (let tick = Suc (hs_spin_tick s);
             (gate_open, err, ow) = hb_replace io (spinner_frame tick) (hs_o s) in
         s\<lparr>hs_spin_tick := tick, hs_o := ow, hs_hb_exited := \<not> gate_open\<rparr>))"

definition heartbeat_stop :: "http_sink \<Rightarrow> http_sink" where
  "heartbeat_stop s = (if hs_hb_done s then s\<lparr>hs_hb_exited := True\<rparr> else s)"

text \<open>\<open>SinkStop\<close> is the deferred \<open>stop\<close> of \<open>handleQuery\<close>.\<close>

datatype sink_act = SinkCall sink_event | HbTick | HbStop | SinkStop

fun sink_step :: "io_env \<Rightarrow> sink_act \<Rightarrow> http_sink \<Rightarrow> http_sink" where
  "sink_step io (SinkCall e) s = sink_call io e s"
| "sink_step io HbTick s = heartbeat_tick io s"
| "sink_step io HbStop s = heartbeat_stop s"
| "sink_step io SinkStop s = stop_heartbeat s"

definition sink_run :: "io_env \<Rightarrow> sink_act list \<Rightarrow> http_sink \<Rightarrow> http_sink" where
  "sink_run io acts s = fold (sink_step io) acts s"

abbreviation sink_log :: "http_sink \<Rightarrow> (gostring \<times> json) list" where
  "sink_log s \<equiv> sw_log (ow_w (hs_o s))"

section \<open>What reaches the wire\<close>

fun calls_of :: "sink_act list \<Rightarrow> sink_event list" where
  "calls_of [] = []"
| "calls_of (SinkCall e # as) = e # calls_of as"
| "calls_of (_ # as) = calls_of as"

text \<open>The SSE calls the router's calls stand for, without a heartbeat.\<close>

fun sse_calls :: "sink_event list \<Rightarrow> sse_call list" where
  "sse_calls [] = []"
| "sse_calls (EvFirstChunk # es) = sse_calls es"
| "sse_calls (EvText t # es) = CallText t # sse_calls es"
| "sse_calls (EvReplace t # es) = CallReplace t # sse_calls es"
| "sse_calls (EvError t et # es) = CallError t et # sse_calls es"
| "sse_calls (EvDone # es) = CallDone # sse_calls es"

definition sink_events :: "sink_event list \<Rightarrow> poe_event list" where
  "sink_events es = until_done (sse_calls es)"

text \<open>The first call that is seen by the user decides whether a visible spinner has to be
  cleared: a replacement overwrites it.\<close>

fun clear_frames :: "nat \<Rightarrow> sink_event list \<Rightarrow> poe_event list" where
  "clear_frames n [] = []"
| "clear_frames n (EvFirstChunk # es) = clear_frames n es"
| "clear_frames n (EvReplace t # es) = []"
| "clear_frames n (_ # es) = (if n = 0 then [] else [PReplace []])"

definition spinner_frames :: "nat \<Rightarrow> poe_event list" where
  "spinner_frames n = map (\<lambda>i. PReplace (spinner_frame i)) [1..<Suc n]"

text \<open>The gate is closed once a user write has landed or the stream is done.\<close>

definition gate_closed :: "http_sink \<Rightarrow> bool" where
  "gate_closed s \<longleftrightarrow> ow_real_written (hs_o s) \<or> ow_closed (hs_o s)"

definition in_sync :: "http_sink \<Rightarrow> bool" where
  "in_sync s \<longleftrightarrow> sw_closed (ow_w (hs_o s)) = ow_closed (hs_o s)"

lemmas writer_ops = user_text_def user_replace_def user_error_def user_done_def hb_replace_def
  clear_spinner_def

lemma gate_closed_tick:
  "gate_closed s \<Longrightarrow> hs_o (heartbeat_tick io s) = hs_o s"
  by (auto simp: gate_closed_def heartbeat_tick_def hb_replace_def)

text \<open>Self-disarm: the first tick after the gate has closed ends the goroutine.\<close>

lemma gate_closed_tick_exits:
  "gate_closed s \<Longrightarrow> hs_hb_exited (heartbeat_tick io s)"
  by (auto simp: gate_closed_def heartbeat_tick_def hb_replace_def Let_def)

lemma sink_run_sealed:
  "ow_closed (hs_o s) \<Longrightarrow> hs_o (sink_run io acts s) = hs_o s"
proof (induction acts arbitrary: s)
  case (Cons a acts)
  have "hs_o (sink_step io a s) = hs_o s"
  proof (cases a)
    case (SinkCall e)
    with Cons.prems show ?thesis
      by (cases e) (simp_all add: writer_ops stop_heartbeat_def)
  qed (use Cons.prems in \<open>auto simp: gate_closed_tick gate_closed_def heartbeat_stop_def stop_heartbeat_def\<close>)
  with Cons show ?case by (simp add: sink_run_def)
qed (simp add: sink_run_def)

lemma sink_run_gate_closed:
  assumes "ow_real_written (hs_o s)" "\<not> ow_closed (hs_o s)" "in_sync s"
  shows "sink_log (sink_run io_ok acts s) = sink_log s @ map wire (sink_events (calls_of acts))"
  using assms
proof (induction acts arbitrary: s)
  case Nil
  then show ?case by (simp add: sink_run_def sink_events_def)
next
  case (Cons a acts)
  show ?case
  proof (cases a)
    case (SinkCall e)
    show ?thesis
    proof (cases "e = EvDone")
      case True
      let ?s = "sink_step io_ok a s"
      have "ow_closed (hs_o ?s)" "sink_log ?s = sink_log s @ [wire PDone]"
        using Cons.prems SinkCall True
        by (simp_all add: writer_ops stop_heartbeat_def sse_ops io_ok_def in_sync_def Let_def)
      with sink_run_sealed [of ?s io_ok acts] SinkCall True show ?thesis
        by (simp add: sink_run_def sink_events_def)
    next
      case False
      let ?s = "sink_step io_ok a s"
      have "ow_real_written (hs_o ?s) \<and> \<not> ow_closed (hs_o ?s) \<and> in_sync ?s \<and>
        sink_log ?s @ map wire (sink_events (calls_of acts)) =
          sink_log s @ map wire (sink_events (e # calls_of acts))"
        using Cons.prems SinkCall False
        by (cases e) (auto simp: writer_ops stop_heartbeat_def sse_ops io_ok_def in_sync_def
            sink_events_def Let_def)
      with Cons.IH [of ?s] SinkCall show ?thesis by (simp add: sink_run_def)
    qed
  next
    case HbTick
    have "gate_closed s" using Cons.prems by (simp add: gate_closed_def)
    with Cons HbTick show ?thesis
      by (simp add: sink_run_def in_sync_def gate_closed_tick)
  next
    case HbStop
    with Cons show ?thesis
      by (auto simp: sink_run_def in_sync_def heartbeat_stop_def)
  next
    case SinkStop
    with Cons show ?thesis
      by (auto simp: sink_run_def in_sync_def stop_heartbeat_def)
  qed
qed

text \<open>Before the first user write only spinner frames are on the wire.\<close>

definition gate_open :: "http_sink \<Rightarrow> bool" where
  "gate_open s \<longleftrightarrow> \<not> ow_real_written (hs_o s) \<and> \<not> ow_closed (hs_o s) \<and> in_sync s \<and>
     ow_spinner_visible (hs_o s) = (0 < hs_spin_tick s)"

lemma spinner_frame_nonempty [simp]: "spinner_frame n \<noteq> []"
  by (simp add: spinner_frame_def)

lemma gate_open_tick:
  assumes "gate_open s" "\<not> hs_hb_exited s"
  shows "gate_open (heartbeat_tick io_ok s)"
    and "sink_log (heartbeat_tick io_ok s) =
      sink_log s @ [wire (PReplace (spinner_frame (Suc (hs_spin_tick s))))]"
    and "hs_spin_tick (heartbeat_tick io_ok s) = Suc (hs_spin_tick s)"
  using assms
  by (simp_all add: gate_open_def heartbeat_tick_def hb_replace_def sse_ops io_ok_def in_sync_def)

text \<open>A call that is not \<open>FirstChunk\<close>, made while the gate is open.\<close>

lemma gate_open_call:
  assumes "gate_open s" "e \<noteq> EvFirstChunk"
  shows "sink_log (sink_run io_ok (SinkCall e # acts) s) = sink_log s @
    map wire (clear_frames (hs_spin_tick s) (e # calls_of acts) @ sink_events (e # calls_of acts))"
proof (cases "e = EvDone")
  case True
  let ?s = "sink_call io_ok e s"
  have "ow_closed (hs_o ?s)" "sink_log ?s = sink_log s @
    map wire (clear_frames (hs_spin_tick s) [EvDone] @ [PDone])"
    using assms True
    by (simp_all add: gate_open_def writer_ops stop_heartbeat_def sse_ops io_ok_def in_sync_def Let_def)
  with sink_run_sealed [of ?s io_ok acts] True show ?thesis
    by (simp add: sink_run_def sink_events_def)
next
  case False
  let ?s = "sink_call io_ok e s"
  have "ow_real_written (hs_o ?s) \<and> \<not> ow_closed (hs_o ?s) \<and> in_sync ?s"
    using assms False
    by (cases e) (simp_all add: gate_open_def writer_ops stop_heartbeat_def sse_ops io_ok_def
        in_sync_def Let_def)
  moreover have "sink_log ?s @ map wire (sink_events cs) = sink_log s @
    map wire (clear_frames (hs_spin_tick s) (e # cs) @ sink_events (e # cs))" for cs
    using assms False
    by (cases e) (simp_all add: gate_open_def writer_ops stop_heartbeat_def sse_ops io_ok_def
        in_sync_def Let_def sink_events_def)
  ultimately show ?thesis
    using sink_run_gate_closed [of ?s acts] by (simp add: sink_run_def)
qed

text \<open>Acts that write nothing while the gate is open.\<close>

definition silent_act :: "sink_act \<Rightarrow> http_sink \<Rightarrow> bool" where
  "silent_act a s \<longleftrightarrow> a \<in> {SinkCall EvFirstChunk, HbStop, SinkStop} \<or> a = HbTick \<and> hs_hb_exited s"

lemma silent_step:
  assumes "gate_open s" "silent_act a s"
  shows "gate_open (sink_step io_ok a s)" "sink_log (sink_step io_ok a s) = sink_log s"
    "hs_spin_tick (sink_step io_ok a s) = hs_spin_tick s"
    "hs_hb_exited s \<Longrightarrow> hs_hb_exited (sink_step io_ok a s)"
    "clear_frames n (calls_of (a # as)) = clear_frames n (calls_of as)"
    "sink_events (calls_of (a # as)) = sink_events (calls_of as)"
  using assms
  by (auto simp: silent_act_def gate_open_def in_sync_def stop_heartbeat_def heartbeat_stop_def
      heartbeat_tick_def sink_events_def split: if_splits)

lemma sink_run_gate_open:
  assumes "gate_open s"
  shows "\<exists>n. hs_spin_tick s \<le> n \<and> (hs_hb_exited s \<longrightarrow> n = hs_spin_tick s) \<and>
    sink_log (sink_run io_ok acts s) = sink_log s @
      map wire (map (\<lambda>i. PReplace (spinner_frame i)) [Suc (hs_spin_tick s)..<Suc n] @
        clear_frames n (calls_of acts) @ sink_events (calls_of acts))"
  using assms
proof (induction acts arbitrary: s)
  case Nil
  then show ?case
    by (intro exI [of _ "hs_spin_tick s"]) (simp add: sink_run_def sink_events_def)
next
  case (Cons a acts)
  consider (silent) "silent_act a s" | (call) e where "a = SinkCall e" "e \<noteq> EvFirstChunk"
    | (tick) "a = HbTick" "\<not> hs_hb_exited s"
    by (cases a) (auto simp: silent_act_def)
  then show ?case
  proof cases
    case silent
    note step = silent_step [OF Cons.prems silent]
    from Cons.IH [OF step(1)] step(4) show ?thesis
      unfolding step(2,3,5,6) by (fastforce simp: sink_run_def simp del: upt_Suc)
  next
    case (call e)
    from gate_open_call [OF Cons.prems call(2), of acts] call(1) show ?thesis
      by (intro exI [of _ "hs_spin_tick s"]) simp
  next
    case tick
    note t = gate_open_tick [OF Cons.prems tick(2)]
    obtain n where n: "Suc (hs_spin_tick s) \<le> n"
      and log: "sink_log (sink_run io_ok acts (heartbeat_tick io_ok s)) =
        sink_log (heartbeat_tick io_ok s) @
        map wire (map (\<lambda>i. PReplace (spinner_frame i)) [Suc (Suc (hs_spin_tick s))..<Suc n] @
          clear_frames n (calls_of acts) @ sink_events (calls_of acts))"
      using Cons.IH [OF t(1)] unfolding t(3) by blast
    have "[Suc (hs_spin_tick s)..<Suc n] =
      Suc (hs_spin_tick s) # [Suc (Suc (hs_spin_tick s))..<Suc n]"
      using n by (simp add: upt_conv_Cons)
    with n log t(2) tick show ?thesis
      by (intro exI [of _ n]) (simp add: sink_run_def del: upt_Suc)
  qed
qed

text \<open>The sink of \<open>handleQuery\<close>: its writer has sent \<open>meta\<close>.\<close>

definition query_sink :: "int \<Rightarrow> http_sink" where
  "query_sink hb = new_sink (snd (sse_meta io_ok new_sse_writer)) hb"

lemma query_sink_open: "gate_open (query_sink hb)" "sink_log (query_sink hb) = [wire PMeta]"
  "hs_spin_tick (query_sink hb) = 0" "hs_hb_exited (query_sink hb) = (hb \<le> 0)"
  by (simp_all add: query_sink_def new_sink_def gate_open_def new_ordered_writer_def in_sync_def
      sse_meta_def new_sse_writer_def io_ok_def)

lemma query_sink_log:
  "\<exists>n. sink_log (sink_run io_ok acts (query_sink hb)) =
     map wire (PMeta # spinner_frames n @ clear_frames n (calls_of acts) @
       sink_events (calls_of acts))"
  using sink_run_gate_open [OF query_sink_open(1), of hb acts]
  unfolding query_sink_open(2,3) spinner_frames_def by auto

text \<open>C13: Whatever the interleaving of heartbeat ticks with the router's calls, the response is the
  \<open>meta\<close> event, then spinner frames only, then at most one frame clearing the spinner, then
  exactly the events of the router's calls up to the first \<open>done\<close>: no heartbeat frame ever
  follows user content, and nothing follows \<open>done\<close>.\<close>

theorem sink_orders_heartbeat:
  "\<exists>n. sink_log (sink_run io_ok acts (query_sink hb)) =
     map wire (PMeta # spinner_frames n @ clear_frames n (calls_of acts) @
       sink_events (calls_of acts))"
  by (rule query_sink_log)

section \<open>What the user sees\<close>

text \<open>Poe renders a response by appending \<open>text\<close> events and overwriting on
  \<open>replace_response\<close>.\<close>

fun render_body :: "poe_event list \<Rightarrow> gostring \<Rightarrow> gostring" where
  "render_body [] body = body"
| "render_body (PText t # es) body = render_body es (body @ t)"
| "render_body (PReplace t # es) body = render_body es t"
| "render_body (_ # es) body = render_body es body"

lemma render_body_append [simp]: "render_body (xs @ ys) b = render_body ys (render_body xs b)"
  by (induction xs b rule: render_body.induct) auto

lemma render_clear:
  assumes "\<exists>e \<in> set es. e \<noteq> EvFirstChunk"
  shows "render_body (clear_frames n es @ sink_events es) (render_body (spinner_frames n) []) =
    render_body (sink_events es) []"
  using assms
  by (induction n es rule: clear_frames.induct)
    (auto simp: sink_events_def spinner_frames_def)

text \<open>Text calls followed by \<open>Done\<close>, as the client renders them.\<close>

fun texts_of :: "sink_event list \<Rightarrow> gostring list" where
  "texts_of [] = []"
| "texts_of (EvText t # es) = t # texts_of es"
| "texts_of (_ # es) = texts_of es"

lemma concat_texts_of: "concat (texts_of es) = text_of es"
  by (induction es rule: texts_of.induct) auto

lemma render_texts:
  "set es \<subseteq> insert EvFirstChunk (range EvText) \<Longrightarrow>
     render_body (map utf8_event (sink_events (es @ [EvDone]))) b = b @ concat (map to_valid_utf8 (texts_of es))"
  by (induction es arbitrary: b rule: texts_of.induct) (auto simp: sink_events_def)

lemma render_clear_utf8:
  assumes "\<exists>e \<in> set es. e \<noteq> EvFirstChunk"
  shows "render_body (map utf8_event (clear_frames n es) @ map utf8_event (sink_events es))
      (render_body (map utf8_event (spinner_frames n)) []) =
    render_body (map utf8_event (sink_events es)) []"
  using assms
  by (induction n es rule: clear_frames.induct)
    (auto simp: sink_events_def spinner_frames_def)

lemma query_sink_body:
  assumes "\<exists>e \<in> set (calls_of acts). e \<noteq> EvFirstChunk"
  shows "\<exists>es. sink_log (sink_run io_ok acts (query_sink hb)) = map wire es \<and>
    render_body (map utf8_event es) [] = render_body (map utf8_event (sink_events (calls_of acts))) [] \<and>
    render_body es [] = render_body (sink_events (calls_of acts)) []"
proof -
  from query_sink_log [of acts hb] obtain n where
    log: "sink_log (sink_run io_ok acts (query_sink hb)) =
      map wire (PMeta # spinner_frames n @ clear_frames n (calls_of acts) @
        sink_events (calls_of acts))" by blast
  show ?thesis
    by (rule exI, rule conjI [OF log]) (use render_clear [OF assms] render_clear_utf8 [OF assms] in simp)
qed

text \<open>The heartbeat is invisible once the router has written anything: the body a user sees
  is the one the router's calls alone would render, for every interleaving of ticks.\<close>

theorem heartbeat_is_transparent:
  assumes "\<exists>e \<in> set (calls_of acts). e \<noteq> EvFirstChunk"
  shows "\<exists>es. sink_log (sink_run io_ok acts (query_sink hb)) = map wire es \<and>
    render_body es [] = render_body (sink_events (calls_of acts)) []"
  using query_sink_body [OF assms] by blast

theorem heartbeat_is_transparent_witness:
  "\<exists>es. sink_log (sink_run io_ok
       [HbTick, SinkCall EvFirstChunk, HbTick, SinkCall (EvText ''hi''), HbTick, SinkCall EvDone]
       (query_sink 1)) = map wire es \<and> render_body es [] = ''hi''"
  using heartbeat_is_transparent
    [of "[HbTick, SinkCall EvFirstChunk, HbTick, SinkCall (EvText ''hi''), HbTick, SinkCall EvDone]" 1]
  by (simp add: sink_events_def)

end
