(* ===== verification/Http_Handler.thy ===== *)
theory Http_Handler
  imports Router_Invariant Auth_Broker Poe_Proto Http_Sink
begin

text \<open>
  The HTTP endpoint (internal/httpsrv/handler.go): \<open>ServeHTTP\<close> and the three handlers behind it,
  composed of the decoder, the login broker, the router and the SSE writer. Everything outside the
  relay (agent, clock, disk, network, JSON scanner, the connection's writes) is a field of
  \<open>http_env\<close>. A query that reaches the router ends in \<open>ReplyPrompt\<close>: its stream goes on through
  the sink of theory \<open>Http_Sink\<close>, whose calls the router's turn makes.
\<close>

section \<open>Configuration, environment, replies\<close>

record handler_config =
  hc_settings :: settings_response
  hc_heartbeat :: int
  hc_controls :: "parameter_controls option option"   \<comment> \<open>the provider, and what it returns now\<close>
  hc_auth :: bool                                     \<comment> \<open>a broker is configured\<close>

record http_env =
  he_unicode :: unicode
  he_json :: json_lib
  he_router_cfg :: router_config
  he_agent :: agent_env
  he_auth :: authenticator
  he_mkdir :: "gostring \<Rightarrow> error"
  he_att :: att_env
  he_io :: io_env
  he_flusher :: bool
  he_debug :: bool
  he_now :: int
  he_now' :: int
  he_ctx :: nat
  he_time_json :: "int \<Rightarrow> gostring"                   \<comment> \<open>a \<open>time.Time\<close> in JSON, from nanoseconds\<close>

record server =
  sv_broker :: broker
  sv_router :: router

datatype reply =
    ReplyError nat gostring            \<comment> \<open>\<open>http.Error\<close>: status and body\<close>
  | ReplyJson gostring
  | ReplyText gostring
  | ReplyOk
  | ReplyAborted sse_writer            \<comment> \<open>the meta event could not be written\<close>
  | ReplyStream sse_writer             \<comment> \<open>a complete stream\<close>
  | ReplyPrompt http_sink "nat fallible"  \<comment> \<open>the router's answer: a queued request or an error\<close>

definition http_error :: "nat \<Rightarrow> gostring \<Rightarrow> reply" where
  "http_error code text = ReplyError code (text @ [nl])"

section \<open>Turns\<close>

definition to_attachment :: "poe_attachment \<Rightarrow> attachment" where
  "to_attachment a = \<lparr>att_url = pa_url a, att_content_type = pa_content_type a, att_name = pa_name a,
     att_parsed_content = pa_parsed_content a\<rparr>"

text \<open>With attachments off they are dropped.\<close>

definition to_turn :: "bool \<Rightarrow> message \<Rightarrow> turn" where
  "to_turn allow m = \<lparr>t_role = ms_role m, t_content = ms_content m, t_message_id = ms_message_id m,
     t_attachments = (if allow then map to_attachment (ms_attachments m) else [])\<rparr>"

definition latest_user_turn :: "turn list \<Rightarrow> gostring" where
  "latest_user_turn turns =
     (case find (\<lambda>t. t_role t = ''user'') (rev turns) of Some t \<Rightarrow> t_content t | None \<Rightarrow> [])"

definition request_params :: "poe_request \<Rightarrow> gostring \<Rightarrow> json option" where
  "request_params req = (case latest_parameters req of None \<Rightarrow> (\<lambda>_. None) | Some m \<Rightarrow> m)"

section \<open>The handlers\<close>

text \<open>Does the login broker take the turn?\<close>

definition intercepts :: "handler_config \<Rightarrow> gostring \<Rightarrow> gostring \<Rightarrow> broker \<Rightarrow> bool" where
  "intercepts hc conv latest b \<longleftrightarrow>
     hc_auth hc \<and> latest \<noteq> [] \<and> (has_pending b conv \<or> is_login_command latest)"

definition handle_auth :: "io_env \<Rightarrow> outcome option fallible \<Rightarrow> sse_writer \<Rightarrow> sse_writer" where
  "handle_auth io res w =
     (case res of
        Inl e \<Rightarrow> snd (sse_done io (snd (sse_error io e ''user_caused_error'' w)))
      | Inr None \<Rightarrow> snd (sse_done io w)
      | Inr (Some oc) \<Rightarrow>
          snd (sse_done io (if oc_text oc \<noteq> [] then snd (sse_text io (oc_text oc) w) else w)))"

definition handle_query ::
  "http_env \<Rightarrow> handler_config \<Rightarrow> sink_ref \<Rightarrow> poe_request \<Rightarrow> server \<Rightarrow> go_panic + reply \<times> server" where
  "handle_query E hc k req s =
     (case new_sse (he_flusher E) of
        Inl e \<Rightarrow> Inr (http_error 500 e, s)
      | Inr (w0, _) \<Rightarrow>
     (case sse_meta (he_io E) w0 of
        (Some e, w) \<Rightarrow> Inr (ReplyAborted w, s)
      | (None, w) \<Rightarrow>
          (let turns = map (to_turn (sr_allow_attachments (hc_settings hc))) (pq_query req);
               conv = pq_conversation_id req;
               latest = latest_user_turn turns in
           if intercepts hc conv latest (sv_broker s) then
             (let (res, b) = handle_auth_turn (he_unicode E) (he_auth E) conv latest (sv_broker s) in
              Inr (ReplyStream (handle_auth (he_io E) res w), s\<lparr>sv_broker := b\<rparr>))
           else
             (case prompt_submit (he_router_cfg E) (he_agent E) (he_mkdir E) (he_att E) (he_now E)
                    (he_now' E) (he_ctx E) conv (pq_user_id req) turns
                    (parse_options (request_params req) (cfg_defaults (he_router_cfg E))) k (sv_router s) of
                Inl p \<Rightarrow> Inl p
              | Inr (res, r) \<Rightarrow>
                  Inr (ReplyPrompt (new_sink w (hc_heartbeat hc)) res, s\<lparr>sv_router := r\<rparr>)))))"

definition handle_reaction ::
  "http_env \<Rightarrow> poe_request \<Rightarrow> server \<Rightarrow> go_panic + server" where
  "handle_reaction E req s =
     (if pq_reaction req = [] then Inr s
      else
        (case report_reaction (he_unicode E) (he_router_cfg E) (he_agent E) (he_mkdir E) (he_now E)
                (he_now' E) (he_ctx E) (pq_conversation_id req) (pq_user_id req) (pq_message_id req)
                (pq_reaction req) (pq_action req) (sv_router s) of
           Inl p \<Rightarrow> Inl p
         | Inr (_, r) \<Rightarrow> Inr (s\<lparr>sv_router := r\<rparr>)))"

definition settings_reply :: "handler_config \<Rightarrow> reply" where
  "settings_reply hc =
     (let st = hc_settings hc;
          st' = (case hc_controls hc of None \<Rightarrow> st | Some p \<Rightarrow> st\<lparr>sr_controls := p\<rparr>) in
      ReplyJson (json_encode (settings_json st') @ [nl]))"

definition serve_http ::
  "http_env \<Rightarrow> handler_config \<Rightarrow> sink_ref \<Rightarrow> gostring \<Rightarrow> gostring fallible \<Rightarrow> server \<Rightarrow>
   go_panic + reply \<times> server" where
  "serve_http E hc k meth body s =
     (if meth \<noteq> ''POST'' then Inr (http_error 405 ''method not allowed'', s)
      else
        (case decode_request (he_json E) (he_unicode E) (he_debug E) body of
           Inl e \<Rightarrow> Inr (http_error 400 e, s)
         | Inr req \<Rightarrow>
             if pq_type req = ''settings'' then Inr (settings_reply hc, s)
             else if pq_type req = ''query'' then handle_query E hc k req s
             else if pq_type req = ''report_reaction'' then
               (case handle_reaction E req s of Inl p \<Rightarrow> Inl p | Inr s' \<Rightarrow> Inr (ReplyOk, s'))
             else if pq_type req = ''report_feedback'' \<or> pq_type req = ''report_error'' then Inr (ReplyOk, s)
             else Inr (http_error 400 (''unknown request type: '' @ pq_type req), s)))"

text \<open>The watcher of the connection: the client went away while the prompt was running.\<close>

definition client_gone :: "http_env \<Rightarrow> poe_request \<Rightarrow> server \<Rightarrow> server" where
  "client_gone E req s = s\<lparr>sv_router := snd (cancel (he_agent E) (pq_conversation_id req) (sv_router s))\<rparr>"

text \<open>\<open>BearerAuth\<close> around a handler, and \<open>DebugHandler\<close>.\<close>

definition bearer_auth ::
  "gostring \<Rightarrow> gostring \<Rightarrow> (server \<Rightarrow> go_panic + reply \<times> server) \<Rightarrow> server \<Rightarrow> go_panic + reply \<times> server" where
  "bearer_auth secret header nxt s =
     (if bearer_rejects secret header then Inr (http_error 401 ''unauthorized'', s) else nxt s)"

definition debug_info_json :: "http_env \<Rightarrow> debug_info \<Rightarrow> json" where
  "debug_info_json E d = JObject [(''conv_id'', JString (di_conv_id d)), (''user_id'', JString (di_user_id d)),
     (''session_id'', JString (di_session_id d)), (''cwd'', JString (di_cwd d)),
     (''last_used'', JString (he_time_json E (di_last_used d)))]"

definition debug_reply :: "http_env \<Rightarrow> server \<Rightarrow> reply" where
  "debug_reply E s = ReplyJson (json_encode (JObject
     [(''count'', JInt (int (router_len (sv_router s)))),
      (''sessions'', JArray (map (debug_info_json E) (debug (sv_router s))))]) @ [nl])"

text \<open>A relay with an agent that answers everything with nothing, for the concrete witnesses.\<close>

definition demo_handler :: handler_config where
  "demo_handler = \<lparr>hc_settings = \<lparr>sr_version = 2, sr_allow_attachments = True, sr_expand_text = True,
     sr_introduction = [], sr_controls = None\<rparr>, hc_heartbeat = 0, hc_controls = None, hc_auth = True\<rparr>"

definition demo_http :: http_env where
  "demo_http = \<lparr>he_unicode = ascii_tables, he_json = demo_json_lib, he_router_cfg = demo_config,
     he_agent = quiet_agent, he_auth = demo_authenticator, he_mkdir = (\<lambda>_. None), he_att = demo_env,
     he_io = io_ok, he_flusher = True, he_debug = False, he_now = 0, he_now' = 0, he_ctx = 0,
     he_time_json = (\<lambda>_. [])\<rparr>"

definition demo_server :: server where
  "demo_server = \<lparr>sv_broker = new_broker, sv_router = empty_router\<rparr>"

definition demo_query :: "gostring \<Rightarrow> gostring \<Rightarrow> poe_request" where
  "demo_query conv content = zero_request\<lparr>pq_type := ''query'', pq_conversation_id := conv,
     pq_query := [zero_message\<lparr>ms_role := ''user'', ms_content := content\<rparr>]\<rparr>"

lemma demo_server_ok:
  "router_ok (sv_router demo_server)" "disk_ok (he_att demo_http)" "he_flusher demo_http" "he_io demo_http = io_ok"
  by (simp_all add: demo_server_def demo_http_def empty_router_ok disk_ok_def demo_env_def)

section \<open>Every request gets an answer\<close>

lemma report_reaction_total:
  assumes "router_ok r"
  shows "\<exists>e r'. report_reaction U cfg ag mkdir now now' ctx conv user msg kind action r = Inr (e, r') \<and> router_ok r'"
  using assms by (rule report_reaction_ok [where cfg = cfg and ag = ag and mkdir = mkdir and now = now
    and now' = now' and ctx = ctx and conv = conv and user = user and msg = msg and kind = kind
    and action = action and U = U]) blast

text \<open>The frames of a finished stream: meta, at most one text or error, done.\<close>

definition auth_events :: "outcome option fallible \<Rightarrow> poe_event list" where
  "auth_events res =
     (case res of
        Inl e \<Rightarrow> [PMeta, PError e ''user_caused_error'', PDone]
      | Inr None \<Rightarrow> [PMeta, PDone]
      | Inr (Some oc) \<Rightarrow> (if oc_text oc = [] then [PMeta, PDone] else [PMeta, PText (oc_text oc), PDone]))"

lemma new_sse_meta:
  "new_sse True = Inr (w0, h) \<Longrightarrow> sse_meta io_ok w0 =
     (None, w0\<lparr>sw_log := map wire [PMeta], sw_writes := 1\<rparr>) \<and> \<not> sw_closed w0"
  by (auto simp: new_sse_def new_sse_writer_def sse_meta_def io_ok_def)

lemma handle_auth_log:
  assumes "\<not> sw_closed w" "sw_log w = map wire [PMeta]"
  shows "sw_log (handle_auth io_ok res w) = map wire (auth_events res) \<and> sw_closed (handle_auth io_ok res w)"
proof (cases res)
  case (Inr oc)
  with assms show ?thesis
    by (cases oc) (simp_all add: handle_auth_def auth_events_def sse_done_def sse_text_def io_ok_def)
qed (use assms in \<open>simp add: handle_auth_def auth_events_def sse_done_def sse_error_def io_ok_def\<close>)

text \<open>The answer of a prompt that was handed to the router.\<close>

definition prompt_answered :: "sink_ref \<Rightarrow> gostring \<Rightarrow> server \<Rightarrow> server \<Rightarrow> nat fallible \<Rightarrow> bool" where
  "prompt_answered k conv s s' res \<longleftrightarrow>
     (case res of
        Inl e \<Rightarrow> \<exists>t. ro_events (sv_router s') = ro_events (sv_router s) @ [(k, EvError t ''user_caused_error''), (k, EvDone)]
      | Inr i \<Rightarrow> ro_events (sv_router s') = ro_events (sv_router s) \<and>
          (\<exists>p. map_of (ro_sessions (sv_router s')) (conv_key conv) = Some p \<and>
            sq_q (ss_queue (ro_objs (sv_router s') p)) \<noteq> [] \<and>
            rq_id (last (sq_q (ss_queue (ro_objs (sv_router s') p)))) = i \<and>
            rq_sink (last (sq_q (ss_queue (ro_objs (sv_router s') p)))) = k))"

lemma handle_query_cases:
  assumes "router_ok (sv_router s)" "disk_ok (he_att E)" "he_flusher E" "he_io E = io_ok"
  obtains (auth) w s' res where "handle_query E hc k req s = Inr (ReplyStream w, s')"
      "sv_router s' = sv_router s" "sw_closed w" "sw_log w = map wire (auth_events res)"
      "intercepts hc (pq_conversation_id req)
        (latest_user_turn (map (to_turn (sr_allow_attachments (hc_settings hc))) (pq_query req))) (sv_broker s)"
      "fst (handle_auth_turn (he_unicode E) (he_auth E) (pq_conversation_id req)
        (latest_user_turn (map (to_turn (sr_allow_attachments (hc_settings hc))) (pq_query req))) (sv_broker s)) = res"
  | (prompt) sk res s' where "handle_query E hc k req s = Inr (ReplyPrompt sk res, s')"
      "sink_log sk = map wire [PMeta]" "router_ok (sv_router s')"
      "prompt_answered k (pq_conversation_id req) s s' res" "sv_broker s' = sv_broker s"
      "\<not> intercepts hc (pq_conversation_id req)
        (latest_user_turn (map (to_turn (sr_allow_attachments (hc_settings hc))) (pq_query req))) (sv_broker s)"
proof -
  let ?turns = "map (to_turn (sr_allow_attachments (hc_settings hc))) (pq_query req)"
  let ?latest = "latest_user_turn ?turns" and ?conv = "pq_conversation_id req"
  obtain w0 h where w0: "new_sse True = Inr (w0, h)" by (auto simp: new_sse_def)
  have fl: "new_sse (he_flusher E) = Inr (w0, h)" using w0 assms(3) by simp
  define w where "w = w0\<lparr>sw_log := map wire [PMeta], sw_writes := 1\<rparr>"
  from new_sse_meta [OF w0] have meta: "sse_meta io_ok w0 = (None, w)" and w: "\<not> sw_closed w" "sw_log w = map wire [PMeta]"
    by (simp_all add: w_def)
  show thesis
  proof (cases "intercepts hc ?conv ?latest (sv_broker s)")
    case True
    obtain res b where hb: "handle_auth_turn (he_unicode E) (he_auth E) ?conv ?latest (sv_broker s) = (res, b)"
      by fastforce
    have "handle_query E hc k req s = Inr (ReplyStream (handle_auth io_ok res w), s\<lparr>sv_broker := b\<rparr>)"
      unfolding handle_query_def assms(4) fl using True hb meta by (simp add: Let_def)
    with handle_auth_log [OF w, of res] True hb show thesis
      by (intro auth [of "handle_auth io_ok res w" "s\<lparr>sv_broker := b\<rparr>" res]) simp_all
  next
    case False
    let ?p = "prompt_submit (he_router_cfg E) (he_agent E) (he_mkdir E) (he_att E) (he_now E) (he_now' E) (he_ctx E)
      ?conv (pq_user_id req) ?turns (parse_options (request_params req) (cfg_defaults (he_router_cfg E))) k (sv_router s)"
    have q: "handle_query E hc k req s =
        Inr (ReplyPrompt (new_sink w (hc_heartbeat hc)) res, s\<lparr>sv_router := r\<rparr>)" if "?p = Inr (res, r)" for res r
      unfolding handle_query_def assms(4) fl using False meta that by (simp add: Let_def)
    have log: "sink_log (new_sink w (hc_heartbeat hc)) = map wire [PMeta]"
      using w by (simp add: new_sink_def new_ordered_writer_def)
    from assms(1,2) show thesis
    proof (cases rule: prompt_submit_cases [where cfg = "he_router_cfg E" and ag = "he_agent E" and mkdir = "he_mkdir E"
          and now = "he_now E" and now' = "he_now' E" and ctx = "he_ctx E" and conv = ?conv and user = "pq_user_id req"
          and query = ?turns and opts = "parse_options (request_params req) (cfg_defaults (he_router_cfg E))" and k = k])
      case (refused e t r')
      with q [OF refused(1)] log False show thesis
        by (intro prompt [of "new_sink w (hc_heartbeat hc)" "Inl e" "s\<lparr>sv_router := r'\<rparr>"])
          (auto simp: prompt_answered_def)
    next
      case (queued p i r')
      with q [OF queued(1)] log False show thesis
        by (intro prompt [of "new_sink w (hc_heartbeat hc)" "Inr i" "s\<lparr>sv_router := r'\<rparr>"])
          (auto simp: prompt_answered_def)
    qed
  qed
qed





section \<open>A client that goes away\<close>

lemma prompt_submit_other_sessions:
  assumes "router_ok r" "c \<noteq> conv_key conv"
    and "prompt_submit cfg ag mkdir env now now' ctx conv user query opts k r = Inr (res, r')"
  shows "map_of (ro_sessions r') c = map_of (ro_sessions r) c"
proof -
  have blocks: "ro_sessions r2 = ro_sessions r1" if "prompt_blocks cfg ag env q f cwd r1 = Inr (bs, r2)" for q f cwd r1 bs r2
    using that by (auto simp: prompt_blocks_def Let_def split: option.splits sum.splits prod.splits)
  have subm: "ro_sessions r2 = ro_sessions r1" if "submit p mk r1 = Inr (x, r2)" for p mk r1 x r2
    using that by (auto simp: submit_def Let_def upd_session_def split: sum.splits prod.splits)
  from assms(1) show ?thesis
  proof (cases rule: get_or_create_ok [where cfg = cfg and ag = ag and mkdir = mkdir and now = now
        and c = "conv_key conv" and user = user and query = query])
    case (failed e r1)
    with assms(3) show ?thesis by (auto simp: prompt_submit_def emit_def split: if_splits)
  next
    case (found p fresh r1)
    have "map_of (ro_sessions r1) c = map_of (ro_sessions r) c" using found(7) assms(2) by simp
    moreover have "ro_sessions r' = ro_sessions r1" if "latest_user_text query \<noteq> []"
      using that assms(3) found(1) blocks subm
      by (fastforce simp: prompt_submit_def emit_def split: sum.splits option.splits prod.splits)
    ultimately show ?thesis using assms(3) by (cases "latest_user_text query = []") (auto simp: prompt_submit_def emit_def)
  qed
qed

text \<open>A query without a conversation id is served under the id \<open>default\<close>, but its client going away
  cancels the conversation with the empty id, which no query creates: the agent is not asked to
  cancel anything and the prompt runs on.\<close>

theorem anonymous_query_is_not_cancelled:
  assumes "router_ok (sv_router s)" "disk_ok (he_att E)" "he_flusher E" "he_io E = io_ok"
    and "pq_conversation_id req = []" "map_of (ro_sessions (sv_router s)) [] = None"
    and "handle_query E hc k req s = Inr (ReplyPrompt sk (Inr i), s')"
  shows "map_of (ro_sessions (sv_router s')) ''default'' \<noteq> None \<and> client_gone E req s' = s'"
  using assms(1-4)
proof (cases rule: handle_query_cases [where hc = hc and k = k and req = req])
  case (auth w s1 res)
  with assms(7) show ?thesis by simp
next
  case (prompt sk1 res1 s1)
  then have "res1 = Inr i" "s1 = s'" using assms(7) by simp_all
  with prompt assms(5) have def: "map_of (ro_sessions (sv_router s')) ''default'' \<noteq> None"
    by (auto simp: prompt_answered_def conv_key_def)
  have "map_of (ro_sessions (sv_router s')) [] = None"
  proof -
    let ?turns = "map (to_turn (sr_allow_attachments (hc_settings hc))) (pq_query req)"
    have "\<exists>res r'. prompt_submit (he_router_cfg E) (he_agent E) (he_mkdir E) (he_att E) (he_now E)
        (he_now' E) (he_ctx E) [] (pq_user_id req) ?turns
        (parse_options (request_params req) (cfg_defaults (he_router_cfg E))) k (sv_router s) = Inr (res, r') \<and>
      sv_router s' = r'"
      using assms(5,7) by (auto simp: handle_query_def Let_def http_error_def split: sum.splits prod.splits option.splits if_splits)
    then show ?thesis
      using prompt_submit_other_sessions [OF assms(1), of "[]" "[]"] assms(6) by (auto simp: conv_key_def)
  qed
  then show ?thesis using def assms(5) by (simp add: client_gone_def cancel_def)
qed

theorem anonymous_query_is_not_cancelled_witness:
  "\<exists>sk i s'. handle_query demo_http demo_handler (HttpSink 0) (demo_query [] ''hi'') demo_server =
      Inr (ReplyPrompt sk (Inr i), s') \<and> client_gone demo_http (demo_query [] ''hi'') s' = s'"
proof -
  have "trim_space ''hi'' = ''hi''"
    by (rule trim_space_trimmed; simp add: leading_space_def trailing_space_def space_runes_def go_eval)
  then have "\<not> intercepts demo_handler [] ''hi'' new_broker"
    by (simp add: intercepts_def demo_handler_def has_pending_def new_broker_def is_login_command_def Let_def go_eval)
  then have "\<exists>sk i s'. handle_query demo_http demo_handler (HttpSink 0) (demo_query [] ''hi'') demo_server =
      Inr (ReplyPrompt sk (Inr i), s')"
    by (simp add: handle_query_def demo_http_def demo_handler_def demo_query_def demo_server_def new_sse_def
        new_sse_writer_def sse_meta_def io_ok_def Let_def zero_request_def zero_message_def to_turn_def
        latest_user_turn_def prompt_submit_def latest_user_text_def latest_user_turn_ref_def get_or_create_def
        empty_router_def open_session_def try_resume_def quiet_agent_def quiet_caps_def create_finish_def
        install_def prompt_blocks_def submit_def push_def upd_session_def log_calls_def new_session_state_def
        new_session_queue_def session_queue_cap_def conv_key_def)
  then obtain sk i s' where q: "handle_query demo_http demo_handler (HttpSink 0) (demo_query [] ''hi'') demo_server =
      Inr (ReplyPrompt sk (Inr i), s')" by blast
  from anonymous_query_is_not_cancelled [OF demo_server_ok _ _ q] q show ?thesis
    by (auto simp: demo_query_def demo_server_def empty_router_def zero_request_def)
qed

end
