(* ===== verification/Acp_Properties.thy ===== *)
theory Acp_Properties
  imports Acp_Client
begin

text \<open>
  What the agent client promises (internal/acpclient/agent.go): which session a notification
  reaches, what the agent's calls can do, which lines a file read returns, and that the login
  arguments survive the wire.
\<close>

section \<open>Routing notifications\<close>

text \<open>The interface the router relies on: an operation can change the sink of one session, and
  every other session's notifications go where they went.\<close>

locale update_routing =
  fixes route :: "'s \<Rightarrow> gostring \<Rightarrow> update_sink option"
    and run :: "'c \<Rightarrow> 's \<Rightarrow> 's"
    and registers :: "'c \<Rightarrow> 's \<Rightarrow> (gostring \<times> update_sink option) option"
  assumes registered: "registers c s = Some (sid, k) \<Longrightarrow> route (run c s) sid = k"
    and unchanged: "\<forall>k. registers c s \<noteq> Some (sid, k) \<Longrightarrow> route (run c s) sid = route s sid"
begin

text \<open>The registrations of a sequence of operations, in order.\<close>

fun history :: "'c list \<Rightarrow> 's \<Rightarrow> (gostring \<times> update_sink option) list" where
  "history [] s = []"
| "history (c # cs) s = (case registers c s of None \<Rightarrow> [] | Some r \<Rightarrow> [r]) @ history cs (run c s)"

text \<open>The last registration of a session decides.\<close>

lemma route_run:
  "route (run c s) sid = (case registers c s of Some (sid', k) \<Rightarrow> if sid' = sid then k else route s sid | None \<Rightarrow> route s sid)"
  using registered [of c s] unchanged [of c s sid] by (cases "registers c s") auto

lemma route_fold:
  "route (fold run cs s) sid =
     (case map_of (rev (history cs s)) sid of None \<Rightarrow> route s sid | Some k \<Rightarrow> k)"
proof (induction cs arbitrary: s)
  case (Cons c cs)
  show ?case
    by (simp add: Cons.IH route_run map_add_def split: option.splits prod.splits)
qed simp

lemma route_isolated: "sid \<notin> fst ` set (history cs s) \<Longrightarrow> route (fold run cs s) sid = route s sid"
  by (simp add: route_fold map_of_eq_None_iff [THEN iffD2] image_iff)

end

text \<open>The client's operations.\<close>

datatype client_op =
    OpNew gostring update_sink "content_block list option"
  | OpResume gostring gostring update_sink
  | OpProbe gostring
  | OpInbound gostring gostring
  | OpPrompt gostring "content_block list"

definition probe_sid :: "acp_peer \<Rightarrow> gostring \<Rightarrow> agent_proc \<Rightarrow> gostring option" where
  "probe_sid px dir a =
     (if ap_models a \<noteq> None then None
      else (case new_session px dir NoopSink None a of (Inr sid, _) \<Rightarrow> Some sid | _ \<Rightarrow> None))"

definition client_run :: "unicode \<Rightarrow> acp_peer \<Rightarrow> disk_env \<Rightarrow> client_op \<Rightarrow> agent_proc \<Rightarrow> agent_proc" where
  "client_run U px dk c a =
     (case c of
        OpNew cwd k bs \<Rightarrow> snd (new_session px cwd k bs a)
      | OpResume cwd sid k \<Rightarrow> snd (resume_session px cwd sid k a)
      | OpProbe dir \<Rightarrow> (case probe_models px (Inr dir) a of Inl _ \<Rightarrow> a | Inr (_, a') \<Rightarrow> a')
      | OpInbound m ps \<Rightarrow> (case dispatch U px dk m ps a of Inl _ \<Rightarrow> a | Inr (_, a') \<Rightarrow> a')
      | OpPrompt sid bs \<Rightarrow> snd (agent_prompt px sid bs a))"

definition client_registers :: "acp_peer \<Rightarrow> client_op \<Rightarrow> agent_proc \<Rightarrow> (gostring \<times> update_sink option) option" where
  "client_registers px c a =
     (case c of
        OpNew cwd k bs \<Rightarrow> (case fst (new_session px cwd k bs a) of Inr sid \<Rightarrow> Some (sid, Some k) | Inl _ \<Rightarrow> None)
      | OpResume cwd sid k \<Rightarrow> (if fst (resume_session px cwd sid k a) = None then Some (sid, Some k) else None)
      | OpProbe dir \<Rightarrow> map_option (\<lambda>sid. (sid, None)) (probe_sid px dir a)
      | _ \<Rightarrow> None)"

lemma on_update_frame:
  "ap_sinks (snd (on_update k u a)) = ap_sinks a" "ap_disk (snd (on_update k u a)) = ap_disk a"
  "ap_sent (snd (on_update k u a)) = ap_sent a" "fst (on_update k u a) = None"
  by (cases k; simp)+

lemma session_update_in_frame:
  "ap_sinks (snd (session_update_in sid u a)) = ap_sinks a"
  "ap_disk (snd (session_update_in sid u a)) = ap_disk a"
  "ap_sent (snd (session_update_in sid u a)) = ap_sent a"
  "fst (session_update_in sid u a) = None"
  "ap_delivered (snd (session_update_in sid u a)) = ap_delivered a @
     (case ap_sinks a sid of Some (SessionSink p) \<Rightarrow> [(p, u)] | _ \<Rightarrow> [])"
  by (auto simp: session_update_in_def sink_for_def on_update_frame split: option.splits update_sink.splits)

lemma read_text_file_frame:
  "read_text_file dk req a = Inr (res, a') \<Longrightarrow>
     a' = a \<and> \<not> is_abs (rd_path req) \<or> a' = log_disk [DiskRead (rd_path req)] a \<and> is_abs (rd_path req)"
  by (auto simp: read_text_file_def Let_def map_sum_def split: if_splits sum.splits)

lemma write_text_file_frame:
  "\<exists>ops. snd (write_text_file dk path content a) = log_disk ops a \<and>
     set ops \<subseteq> {DiskMkdir (path_dir path), DiskWrite path content} \<and> (ops \<noteq> [] \<longrightarrow> is_abs path)"
  by (cases "dk_mkdir_all dk (path_dir path)"; cases "is_abs path")
    (auto simp: write_text_file_def log_disk_def)

lemma new_session_sinks:
  "ap_sinks (snd (new_session px cwd k bs a)) =
     (case fst (new_session px cwd k bs a) of Inr sid \<Rightarrow> (ap_sinks a)(sid \<mapsto> k) | Inl _ \<Rightarrow> ap_sinks a)"
  by (auto simp: new_session_def Let_def relay_defs split: sum.splits)

lemma dispatch_cases:
  assumes "dispatch U px dk m ps a = Inr (rep, a')"
  obtains (update) sid u where "m = ''session/update''" "px_update px ps = Inr (sid, u)" "rep = RpcNull"
      "a' = snd (session_update_in sid u a)"
  | (permission) req where "m = ''session/request_permission''" "px_permission px ps = Inr req"
      "rep = RpcSelected (decide U (ap_policy a) req)" "a' = a"
  | (reading) req res where "m = ''fs/read_text_file''" "px_read px ps = Inr req" "read_text_file dk req a = Inr (res, a')"
      "rep = (case res of Inl e \<Rightarrow> RpcInternal e | Inr c \<Rightarrow> RpcContent c)"
  | (writing) path content where "m = ''fs/write_text_file''" "px_write px ps = Inr (path, content)"
      "a' = snd (write_text_file dk path content a)"
      "rep = (case fst (write_text_file dk path content a) of Some e \<Rightarrow> RpcInternal e | None \<Rightarrow> RpcWritten)"
  | (invalid) e where "rep = RpcInvalidParams e" "a' = a"
      "m \<in> {''session/update'', ''session/request_permission'', ''fs/read_text_file'', ''fs/write_text_file''}"
  | (unknown) "rep = RpcMethodNotFound m" "a' = a"
      "m \<notin> {''session/update'', ''session/request_permission'', ''fs/read_text_file'', ''fs/write_text_file''}"
proof -
  consider "m = ''session/update''" | "m = ''session/request_permission''" | "m = ''fs/read_text_file''"
    | "m = ''fs/write_text_file''"
    | "m \<notin> {''session/update'', ''session/request_permission'', ''fs/read_text_file'', ''fs/write_text_file''}"
    by blast
  then show ?thesis
  proof cases
    case 1
    with assms show ?thesis
    proof (cases "px_update px ps")
      case (Inr su)
      obtain sid u where su: "su = (sid, u)" by (cases su)
      have "session_update_in sid u a = (None, snd (session_update_in sid u a))"
        by (metis prod.collapse session_update_in_frame(4))
      with assms 1 Inr su show ?thesis
        by (intro update [of sid u]) (simp_all add: dispatch_def split: prod.splits option.splits)
    qed (auto simp: dispatch_def intro: invalid)
  next
    case 2
    with assms show ?thesis by (cases "px_permission px ps") (auto simp: dispatch_def intro: permission invalid)
  next
    case 3
    with assms show ?thesis
      by (cases "px_read px ps") (auto simp: dispatch_def intro: invalid reading split: sum.splits)
  next
    case 4
    show ?thesis
    proof (cases "px_write px ps")
      case (Inr pc)
      obtain path content where pc: "pc = (path, content)" by (cases pc)
      with assms 4 Inr show ?thesis
        by (intro writing [of path content]) (auto simp: dispatch_def split: prod.splits option.splits)
    qed (use assms 4 in \<open>auto simp: dispatch_def intro: invalid\<close>)
  next
    case 5
    with assms show ?thesis by (intro unknown) (auto simp: dispatch_def)
  qed
qed

lemma log_disk_simps [simp]:
  "ap_sinks (log_disk ops a) = ap_sinks a" "ap_disk (log_disk ops a) = ap_disk a @ ops"
  "ap_sent (log_disk ops a) = ap_sent a"
  by (simp_all add: log_disk_def)

lemma dispatch_routing:
  assumes "dispatch U px dk m ps a = Inr (rep, a')"
  shows "ap_sinks a' = ap_sinks a \<and> ap_sent a' = ap_sent a"
  using assms
proof (cases rule: dispatch_cases)
  case (reading req res)
  from read_text_file_frame [OF this(3)] show ?thesis by auto
next
  case (writing path content)
  with write_text_file_frame [of dk path content a] show ?thesis by auto
qed (simp_all add: session_update_in_frame)

lemma client_run_sinks:
  "ap_sinks (client_run U px dk c a) =
     (case client_registers px c a of Some (sid, k) \<Rightarrow> (ap_sinks a)(sid := k) | None \<Rightarrow> ap_sinks a)"
proof (cases c)
  case (OpNew cwd k bs)
  then show ?thesis by (auto simp: client_run_def client_registers_def new_session_sinks split: sum.splits)
next
  case (OpResume cwd sid k)
  then show ?thesis
    by (auto simp: client_run_def client_registers_def resume_session_def relay_defs split: sum.splits)
next
  case (OpProbe dir)
  obtain r a' where n: "new_session px dir NoopSink None a = (r, a')" by (cases "new_session px dir NoopSink None a")
  have "ap_sinks a' = (case r of Inr sid \<Rightarrow> (ap_sinks a)(sid \<mapsto> NoopSink) | Inl _ \<Rightarrow> ap_sinks a)"
    using new_session_sinks [of px dir NoopSink None a] by (simp add: n)
  with OpProbe n show ?thesis
    by (cases r) (simp_all add: client_run_def client_registers_def probe_models_def probe_sid_def)
next
  case (OpInbound m ps)
  then show ?thesis
    by (cases "dispatch U px dk m ps a") (auto simp: client_run_def client_registers_def dest: dispatch_routing)
next
  case (OpPrompt sid bs)
  then show ?thesis by (simp add: client_run_def client_registers_def agent_prompt_def relay_defs)
qed

interpretation client: update_routing ap_sinks "client_run U px dk" "client_registers px" for U px dk
  by unfold_locales (auto simp: client_run_sinks split: option.splits)

text \<open>C31: A notification reaches exactly one session: after any operations of the client, a
  \<open>session/update\<close> for an id is put on the channel of the session that last registered the id, and
  nowhere else; without a registration it is dropped. Operations that register other ids do not
  matter.\<close>

theorem updates_reach_their_session:
  assumes "px_update px ps = Inr (sid, u)" and a': "a' = fold (client_run U px dk) ops a"
  shows "\<exists>a''. dispatch U px dk ''session/update'' ps a' = Inr (RpcNull, a'') \<and>
     ap_delivered a'' = ap_delivered a' @
       (case (case map_of (rev (client.history U px dk ops a)) sid of None \<Rightarrow> ap_sinks a sid | Some k \<Rightarrow> k) of
          Some (SessionSink p) \<Rightarrow> [(p, u)] | _ \<Rightarrow> [])"
proof -
  obtain a'' where su: "session_update_in sid u a' = (None, a'')"
    by (metis prod.collapse session_update_in_frame(4))
  have "ap_delivered a'' = ap_delivered a' @ (case ap_sinks a' sid of Some (SessionSink p) \<Rightarrow> [(p, u)] | _ \<Rightarrow> [])"
    using session_update_in_frame(5) [of sid u a'] by (simp add: su)
  with assms(1) su show ?thesis
    by (simp add: dispatch_def a' client.route_fold)
qed

text \<open>An agent that answers every request with an empty result, for the concrete witnesses.\<close>

definition demo_peer :: acp_peer where
  "demo_peer = \<lparr>px_json = \<lparr>jl_parse = (\<lambda>_. Inr (JObject [])), jl_mismatch = (\<lambda>_. [])\<rparr>,
     px_call = (\<lambda>_. Inr []), px_new_session = (\<lambda>_. Inr (''s1'', None)), px_set_model = (\<lambda>_. None),
     px_prompt = (\<lambda>_. Inr EndTurn),
     px_update = (\<lambda>_. Inr (''s1'', \<lparr>upd_message = Some (Some ''hi''), upd_thought = None\<rparr>)),
     px_permission = (\<lambda>_. Inr demo_request),
     px_read = (\<lambda>_. Inr \<lparr>rd_path = ''/f'', rd_line = Some 2, rd_limit = Some (2 ^ 63 - 1)\<rparr>),
     px_write = (\<lambda>_. Inr (''f'', []))\<rparr>"

definition demo_proc :: agent_proc where
  "demo_proc = \<lparr>ap_policy = DenyAll, ap_caps = quiet_caps, ap_sinks = (\<lambda>_. None), ap_models = None,
     ap_auth_methods = [], ap_sent = [], ap_delivered = [], ap_disk = []\<rparr>"

definition demo_disk :: disk_env where
  "demo_disk = \<lparr>dk_read = (\<lambda>_. Inr [CHR ''a'', nl, CHR ''b'']), dk_mkdir_all = (\<lambda>_. None), dk_write = (\<lambda>_ _. None)\<rparr>"

theorem updates_reach_their_session_witness:
  "\<exists>a u. dispatch ascii_tables demo_peer demo_disk ''session/update'' []
     (client_run ascii_tables demo_peer demo_disk (OpNew ''/c'' (SessionSink 3) None) demo_proc) = Inr (RpcNull, a) \<and>
     ap_delivered a = [(3, u)]"
proof -
  let ?u = "\<lparr>upd_message = Some (Some ''hi''), upd_thought = None\<rparr>"
  let ?op = "OpNew ''/c'' (SessionSink 3) None"
  have u: "px_update demo_peer [] = Inr (''s1'', ?u)" by (simp add: demo_peer_def)
  have f: "client_run ascii_tables demo_peer demo_disk ?op demo_proc =
      fold (client_run ascii_tables demo_peer demo_disk) [?op] demo_proc" by simp
  have r: "client_registers demo_peer ?op demo_proc = Some (''s1'', Some (SessionSink 3))"
    by (simp add: client_registers_def new_session_def demo_peer_def Let_def)
  have d: "ap_delivered (client_run ascii_tables demo_peer demo_disk ?op demo_proc) = []"
    by (simp add: client_run_def new_session_def demo_peer_def relay_defs demo_proc_def)
  from updates_reach_their_session [OF u f]
  show ?thesis by (auto simp: r d)
qed

section \<open>The client implements the router's agent\<close>

text \<open>Each call of the router's interface, on the client in any state and with any sink: the same
  answer, and exactly one request, which carries the call's arguments.\<close>

fun request_of :: "agent_call \<Rightarrow> acp_request" where
  "request_of (CallNewSession cwd bs) = ReqNewSession cwd (if bs = [] then None else Some bs)"
| "request_of (CallListSessions cwd) = ReqListSessions cwd"
| "request_of (CallResumeSession cwd sid) = ReqResume sid cwd"
| "request_of (CallPrompt sid bs) = ReqPrompt sid bs"
| "request_of (CallCancel sid) = NoteCancel sid"
| "request_of (CallSetModel sid m) = ReqSetModel sid m"
| "request_of (CallSetConfig sid c v) = ReqSetConfig sid c v"

lemma new_session_answer:
  "fst (new_session px cwd k bs a) = fst (new_session px cwd k' bs a')"
  "ap_sent (snd (new_session px cwd k bs a)) = ap_sent a @ [ReqNewSession cwd bs]"
  by (auto simp: new_session_def Let_def relay_defs split: sum.splits)

lemma resume_session_answer:
  "fst (resume_session px cwd sid k a) = fst (resume_session px cwd sid k' a')"
  "ap_sent (snd (resume_session px cwd sid k a)) = ap_sent a @ [ReqResume sid cwd]"
  by (auto simp: resume_session_def relay_defs split: sum.splits)

lemma list_sessions_answer:
  "fst (list_sessions U px cwd a) = fst (list_sessions U px cwd a')"
  "ap_sent (snd (list_sessions U px cwd a)) = ap_sent a @ [ReqListSessions cwd]"
  by (auto simp: list_sessions_def relay_defs split: sum.splits prod.splits option.splits)

text \<open>The client refines the agent the router works with: performed on a client in any state, with
  any sink, each of the router's calls gives the answer the router's model uses and sends exactly
  the request that carries its arguments, and creating or resuming a session makes its sink the
  receiver of that session's updates.\<close>

theorem client_refines_agent:
  "let ag = client_agent U px notes a in
   (\<forall>b cwd bs k. case new_session px cwd k (if bs = [] then None else Some bs) b of (res, b') \<Rightarrow>
      res = ag_new_session ag cwd bs \<and> ap_sent b' = ap_sent b @ [request_of (CallNewSession cwd bs)] \<and>
      (\<forall>sid. res = Inr sid \<longrightarrow> ap_sinks b' sid = Some k)) \<and>
   (\<forall>b cwd sid k. case resume_session px cwd sid k b of (e, b') \<Rightarrow>
      e = ag_resume_session ag cwd sid \<and> ap_sent b' = ap_sent b @ [request_of (CallResumeSession cwd sid)] \<and>
      (e = None \<longrightarrow> ap_sinks b' sid = Some k)) \<and>
   (\<forall>b cwd. case list_sessions U px cwd b of (res, b') \<Rightarrow>
      map_sum id (map si_session_id) res = ag_list_sessions ag cwd \<and>
      ap_sent b' = ap_sent b @ [request_of (CallListSessions cwd)]) \<and>
   (\<forall>b sid bs. case agent_prompt px sid bs b of (res, b') \<Rightarrow>
      res = snd (ag_prompt ag sid bs) \<and> ap_sent b' = ap_sent b @ [request_of (CallPrompt sid bs)]) \<and>
   (\<forall>b sid m. case set_model px sid m b of (e, b') \<Rightarrow>
      e = ag_set_model ag sid m \<and> ap_sent b' = ap_sent b @ [request_of (CallSetModel sid m)]) \<and>
   (\<forall>b sid c v. case set_config_option px sid c v b of (e, b') \<Rightarrow>
      e = ag_set_config ag sid c v \<and> ap_sent b' = ap_sent b @ [request_of (CallSetConfig sid c v)]) \<and>
   (\<forall>b sid. case agent_cancel px sid b of (e, b') \<Rightarrow>
      e = ag_cancel ag sid \<and> ap_sent b' = ap_sent b @ [request_of (CallCancel sid)])"
  unfolding Let_def
proof (intro conjI allI)
  fix b cwd bs k
  show "case new_session px cwd k (if bs = [] then None else Some bs) b of (res, b') \<Rightarrow>
      res = ag_new_session (client_agent U px notes a) cwd bs \<and>
      ap_sent b' = ap_sent b @ [request_of (CallNewSession cwd bs)] \<and>
      (\<forall>sid. res = Inr sid \<longrightarrow> ap_sinks b' sid = Some k)"
    using new_session_answer(1) [of px cwd k "if bs = [] then None else Some bs" b NoopSink a]
      new_session_answer(2) [of px cwd k "if bs = [] then None else Some bs" b]
      new_session_sinks [of px cwd k "if bs = [] then None else Some bs" b]
    by (auto simp: client_agent_def split: prod.splits sum.splits)
next
  fix b cwd sid k
  show "case resume_session px cwd sid k b of (e, b') \<Rightarrow>
      e = ag_resume_session (client_agent U px notes a) cwd sid \<and>
      ap_sent b' = ap_sent b @ [request_of (CallResumeSession cwd sid)] \<and> (e = None \<longrightarrow> ap_sinks b' sid = Some k)"
    by (auto simp: client_agent_def resume_session_def relay_defs split: sum.splits)
next
  fix b cwd
  show "case list_sessions U px cwd b of (res, b') \<Rightarrow>
      map_sum id (map si_session_id) res = ag_list_sessions (client_agent U px notes a) cwd \<and>
      ap_sent b' = ap_sent b @ [request_of (CallListSessions cwd)]"
    using list_sessions_answer(1) [of U px cwd b a] list_sessions_answer(2) [of U px cwd b] by (auto simp: client_agent_def split: prod.splits)
qed (simp_all add: client_agent_def agent_prompt_def set_model_def set_config_option_def agent_cancel_def relay_defs)

theorem client_refines_agent_witness:
  "\<exists>sid b. new_session demo_peer ''/c'' (SessionSink 2) None demo_proc = (Inr sid, b) \<and>
     ag_new_session (client_agent ascii_tables demo_peer (\<lambda>_ _. []) demo_proc) ''/c'' [] = Inr sid \<and>
     ap_sent b = [ReqNewSession ''/c'' None] \<and> ap_sinks b sid = Some (SessionSink 2)"
proof -
  have "\<exists>b. new_session demo_peer ''/c'' (SessionSink 2) None demo_proc = (Inr ''s1'', b)"
    by (simp add: new_session_def demo_peer_def Let_def)
  then obtain b where b: "new_session demo_peer ''/c'' (SessionSink 2) None demo_proc = (Inr ''s1'', b)" ..
  have "case new_session demo_peer ''/c'' (SessionSink 2) (if ([] :: content_block list) = [] then None else Some []) demo_proc of
      (res, b') \<Rightarrow> res = ag_new_session (client_agent ascii_tables demo_peer (\<lambda>_ _. []) demo_proc) ''/c'' [] \<and>
      ap_sent b' = ap_sent demo_proc @ [request_of (CallNewSession ''/c'' [])] \<and>
      (\<forall>sid. res = Inr sid \<longrightarrow> ap_sinks b' sid = Some (SessionSink 2))"
    using client_refines_agent [of ascii_tables demo_peer "\<lambda>_ _. []" demo_proc, unfolded Let_def, THEN conjunct1,
        THEN spec, THEN spec, THEN spec, THEN spec, of "''/c''" "[]" demo_proc "SessionSink 2"] .
  moreover have "ap_sent demo_proc = []" by (simp add: demo_proc_def)
  ultimately show ?thesis
    using b by (intro exI [of _ "''s1''"] exI [of _ b]) simp
qed

section \<open>What the agent's calls can do\<close>

fun disk_path :: "disk_op \<Rightarrow> gostring" where
  "disk_path (DiskRead p) = p"
| "disk_path (DiskMkdir p) = p"
| "disk_path (DiskWrite p c) = p"

lemma path_dir_abs:
  assumes "is_abs p"
  shows "is_abs (path_dir p)"
proof -
  from assms obtain q where p: "p = slash # q" by (auto simp: is_abs_def has_prefix_iff)
  let ?b = "rev (takeWhile (\<lambda>c. c \<noteq> slash) (rev p))"
  have "length ?b \<le> length q"
    using length_takeWhile_le [of "\<lambda>c. c \<noteq> slash" "rev q"] by (auto simp: p takeWhile_append split: if_splits)
  then have "is_abs (fst (split_last p))"
    by (simp add: split_last_def Let_def p is_abs_def has_prefix_def Suc_diff_le)
  then show ?thesis by (simp add: path_dir_def path_clean_def)
qed



section \<open>The window of a file\<close>

definition first_line :: "int option \<Rightarrow> nat \<Rightarrow> nat" where
  "first_line line n = (case line of Some l \<Rightarrow> if 0 < l then min (nat (l - 1)) n else 0 | None \<Rightarrow> 0)"

text \<open>C33: \<open>fs/read_text_file\<close> returns exactly the lines from \<open>line\<close> on, at most \<open>limit\<close> of them, and
  the whole file without both; but when the first line's index plus a positive limit exceeds the
  largest \<open>int\<close>, the sum wraps around and slicing panics.\<close>

theorem text_windows_are_exact:
  assumes "ls = split_byte nl content" and "s = first_line line (length ls)"
    and "int (length ls) < 2 ^ 63" and "case limit of Some m \<Rightarrow> m < 2 ^ 63 | None \<Rightarrow> True"
  shows "read_window line limit content =
    (case limit of
       Some m \<Rightarrow>
         if m \<le> 0 then Inr (join_with [nl] (drop s ls))
         else if int s + m < 2 ^ 63 then Inr (join_with [nl] (take (nat m) (drop s ls)))
         else Inl SliceOutOfRange
     | None \<Rightarrow> Inr (join_with [nl] (drop s ls)))"
proof -
  have st: "window_start line (length ls) = int s"
    by (auto simp: window_start_def assms(2) first_line_def split: option.splits)
  have sl: "s \<le> length ls" by (simp add: assms(2) first_line_def split: option.splits)
  have all: "s = 0 \<Longrightarrow> join_with [nl] (drop s ls) = content" by (simp add: assms(1))
  show ?thesis
  proof (cases limit)
    case None
    show ?thesis
    proof (cases line)
      case None
      with \<open>limit = None\<close> all show ?thesis by (simp add: read_window_def assms(2) first_line_def)
    next
      case (Some l)
      with None sl st show ?thesis
        by (simp add: read_window_def assms(1) [symmetric] window_end_def slice_def)
    qed
  next
    case (Some m)
    show ?thesis
    proof (cases "0 < m \<and> 2 ^ 63 \<le> int s + m")
      case True
      with Some assms(3,4) sl have "int64 (int s + m) = int s + m - 2 ^ 64" by (intro int64_over) auto
      with True Some assms(3,4) sl show ?thesis
        by (simp add: read_window_def st assms(1) [symmetric] window_end_def slice_def)
    next
      case False
      then have "0 < m \<Longrightarrow> int64 (int s + m) = int s + m" by (intro int64_small) auto
      with False Some sl show ?thesis
        by (cases "m \<le> 0"; cases "int s + m < int (length ls)")
          (simp_all add: read_window_def Let_def st assms(1) [symmetric] window_end_def slice_def nat_add_distrib)
    qed
  qed
qed

text \<open>The second of two lines; and the call that crashes the relay.\<close>

theorem text_windows_are_exact_witness:
  "read_window (Some 2) (Some 1) [CHR ''a'', nl, CHR ''b''] = Inr ''b'' \<and>
   dispatch ascii_tables demo_peer demo_disk ''fs/read_text_file'' [] demo_proc = Inl SliceOutOfRange"
proof -
  have ls: "split_byte nl [CHR ''a'', nl, CHR ''b''] = [''a'', ''b'']" by simp
  have "read_window (Some 2) (Some (2 ^ 63 - 1)) [CHR ''a'', nl, CHR ''b''] = Inl SliceOutOfRange"
    using text_windows_are_exact [OF ls [symmetric] refl, of "Some (2 ^ 63 - 1)" "Some 2"]
    by (simp add: first_line_def)
  moreover have "read_window (Some 2) (Some 1) [CHR ''a'', nl, CHR ''b''] = Inr ''b''"
    using text_windows_are_exact [OF ls [symmetric] refl, of "Some 1" "Some 2"]
    by (simp add: first_line_def)
  ultimately show ?thesis
    by (simp add: dispatch_def demo_peer_def read_text_file_def demo_disk_def is_abs_def has_prefix_def)
qed

section \<open>The login on the wire\<close>

text \<open>What an agent reads out of the parameters: absent keys are empty.\<close>

definition json_key :: "gostring \<Rightarrow> json \<Rightarrow> json option" where
  "json_key k j = (case j of JObject kvs \<Rightarrow> map_of kvs k | _ \<Rightarrow> None)"

definition json_text :: "json option \<Rightarrow> gostring" where
  "json_text j = (case j of Some (JString s) \<Rightarrow> s | _ \<Rightarrow> [])"

definition read_auth_params :: "json \<Rightarrow> auth_call" where
  "read_auth_params j =
     (let au = Option.bind (json_key ''_meta'' j) (json_key ''auth'') in
      (json_text (json_key ''methodId'' j), json_text (Option.bind au (json_key ''id'')),
       json_text (Option.bind au (json_key ''redirect'')), Option.bind au (json_key ''cancel'') = Some (JBool True)))"

definition auth_result_json :: "auth_result \<Rightarrow> json" where
  "auth_result_json r = JObject [(''_meta'', JObject [(''auth'', JObject
     [(''state'', JString (ar_state r)), (''id'', JString (ar_id r)), (''url'', JString (ar_url r)),
      (''instructions'', JString (ar_instructions r))])])]"

text \<open>A login call survives the wire in both directions: the agent reads the method, id, pasted URL
  and cancellation that the broker passed, and the broker gets the state, id, URL and instructions
  of the agent's document.\<close>

theorem login_survives_the_wire:
  assumes "jl_parse L raw = Inr (auth_result_json r)"
  shows "read_auth_params (auth_params c) = c \<and> parse_auth_result L U raw = r"
proof
  show "read_auth_params (auth_params c) = c"
    by (cases c) (auto simp: auth_params_def read_auth_params_def json_key_def json_text_def)
  have km: "\<not> key_matches U ''state'' ''id''" "\<not> key_matches U ''state'' ''url''" "\<not> key_matches U ''state'' ''instructions''"
    "\<not> key_matches U ''id'' ''state''" "\<not> key_matches U ''id'' ''url''" "\<not> key_matches U ''id'' ''instructions''"
    "\<not> key_matches U ''url'' ''state''" "\<not> key_matches U ''url'' ''id''" "\<not> key_matches U ''url'' ''instructions''"
    "\<not> key_matches U ''instructions'' ''state''" "\<not> key_matches U ''instructions'' ''id''" "\<not> key_matches U ''instructions'' ''url''"
    by (simp_all add: go_eval)
  show "parse_auth_result L U raw = r"
    using assms by (simp add: parse_auth_result_def unmarshal_def auth_result_json_def dec_auth_result_def km)
qed

definition demo_auth_lib :: json_lib where
  "demo_auth_lib = \<lparr>jl_parse = (\<lambda>_. Inr (auth_result_json
     \<lparr>ar_state = ''needs_redirect'', ar_id = ''7'', ar_url = ''u'', ar_instructions = []\<rparr>)), jl_mismatch = (\<lambda>_. [])\<rparr>"

theorem login_survives_the_wire_witness:
  "read_auth_params (auth_params (''m'', ''7'', [], True)) = (''m'', ''7'', [], True) \<and>
   ar_id (parse_auth_result demo_auth_lib ascii_tables []) = ''7''"
proof -
  have "jl_parse demo_auth_lib [] = Inr (auth_result_json
      \<lparr>ar_state = ''needs_redirect'', ar_id = ''7'', ar_url = ''u'', ar_instructions = []\<rparr>)"
    by (simp add: demo_auth_lib_def)
  from login_survives_the_wire [OF this, of "(''m'', ''7'', [], True)" ascii_tables] show ?thesis by simp
qed

end
