(* ===== verification/Relay_Main.thy ===== *)
theory Relay_Main
  imports Param_Ctl Skills Http_Handler Acp_Properties
begin

text \<open>
  The program around the components (cmd/poe-acp/main.go and helpers.go, internal/debuglog): start-up,
  the HTTP routes, the push of a changed settings schema to Poe, and the small helpers. What the
  process reads from its surroundings (flags, environment, files, the agent process, Poe's HTTP
  answer) is an argument. A relay that started is a value; \<open>log.Fatalf\<close> is an error.
\<close>

section \<open>Helpers\<close>

text \<open>debuglog: is the value of \<open>POEACP_DEBUG\<close> true?\<close>

definition truthy :: "unicode \<Rightarrow> gostring \<Rightarrow> bool" where
  "truthy U s \<longleftrightarrow> to_lower U (trim_space s) \<in> set [''1'', ''true'', ''yes'', ''on'', ''y'', ''t'']"

definition truncate_text :: "gostring \<Rightarrow> int \<Rightarrow> gostring" where
  "truncate_text s n =
     (if n \<le> 0 then []
      else if int (length s) \<le> n then s
      else
        (let rs = runes s in
         if int (length rs) \<le> n then s else string_of_runes (take (nat n) rs) @ u_ellipsis))"

text \<open>On by the environment at start or by the flag.\<close>

definition debug_enabled :: "unicode \<Rightarrow> gostring \<Rightarrow> bool \<Rightarrow> bool" where
  "debug_enabled U var flag \<longleftrightarrow> truthy U var \<or> flag"

text \<open>Environment, home directory (or an error) and temporary directory.\<close>

record host_env =
  ho_getenv :: "gostring \<Rightarrow> gostring"
  ho_home :: "gostring fallible"
  ho_tmp :: gostring

definition default_state_dir :: "host_env \<Rightarrow> gostring" where
  "default_state_dir H =
     (if ho_getenv H ''XDG_STATE_HOME'' \<noteq> [] then path_join [ho_getenv H ''XDG_STATE_HOME'', ''poe-acp'']
      else
        (case ho_home H of
           Inr h \<Rightarrow> path_join [h, ''.local'', ''state'', ''poe-acp'']
         | Inl _ \<Rightarrow> path_join [ho_tmp H, ''poe-acp'']))"

definition default_config_path :: "host_env \<Rightarrow> gostring" where
  "default_config_path H =
     (if ho_getenv H ''XDG_CONFIG_HOME'' \<noteq> []
      then path_join [ho_getenv H ''XDG_CONFIG_HOME'', ''poe-acp'', ''config.json'']
      else
        (case ho_home H of
           Inr h \<Rightarrow> path_join [h, ''.config'', ''poe-acp'', ''config.json'']
         | Inl _ \<Rightarrow> path_join [ho_tmp H, ''poe-acp'', ''config.json'']))"

text \<open>The part of \<open>kv\<close> before its first \<open>=\<close>, or all of it.\<close>

definition env_key :: "gostring \<Rightarrow> gostring" where
  "env_key kv = (case cut_byte (CHR ''='') kv of Some (k, _) \<Rightarrow> k | None \<Rightarrow> kv)"

definition append_env :: "gostring list \<Rightarrow> gostring \<Rightarrow> gostring list" where
  "append_env env kv = filter (\<lambda>e. \<not> has_prefix e (env_key kv @ ''='')) env @ [kv]"

text \<open>\<open>strings.Fields\<close>.\<close>

fun field_word :: "gostring \<Rightarrow> gostring" where
  "field_word [] = []"
| "field_word (c # s) = (if leading_space (c # s) = 0 then c # field_word s else [])"

function go_fields :: "gostring \<Rightarrow> gostring list" where
  "go_fields s =
     (let t = trim_left_space s in
      if t = [] then [] else field_word t # go_fields (drop (length (field_word t)) t))"
  by auto
termination
proof (relation "measure length", simp)
  fix s t :: gostring
  assume t: "t = trim_left_space s" "t \<noteq> []"
  then have "leading_space t = 0" using trim_left_space_done by simp
  with t(2) have "field_word t \<noteq> []" by (cases t) simp_all
  moreover have "length t \<le> length s" unfolding t(1)
  proof (induction s rule: trim_left_space.induct)
    case (1 s)
    then show ?case by (subst trim_left_space.simps) (auto split: if_splits)
  qed
  ultimately show "(drop (length (field_word t)) t, s) \<in> measure length"
    using t(2) by (simp add: less_le_trans [OF diff_less])
qed

declare go_fields.simps [simp del]

text \<open>Failing layers of skills count as empty.\<close>

definition build_skills_catalog :: "skill list fallible \<Rightarrow> skill list fallible \<Rightarrow> gostring" where
  "build_skills_catalog builtin host =
     (let or_none = (\<lambda>r. case r of Inr ss \<Rightarrow> ss | Inl _ \<Rightarrow> []);
          merged = merge_skills [or_none builtin, or_none host] [] in
      if merged = [] then [] else format_catalog merged)"

section \<open>Telling Poe about a changed schema\<close>

definition schema_hash :: "parameter_controls option \<Rightarrow> gostring" where
  "schema_hash pc =
     (case pc of None \<Rightarrow> ''nil'' | Some p \<Rightarrow> hex_encode (sha256 (json_encode (parameter_controls_json p))))"

text \<open>\<open>url.PathEscape\<close>.\<close>

definition segment_safe :: "char \<Rightarrow> bool" where
  "segment_safe c \<longleftrightarrow> url_path_safe c \<and> c \<notin> set ''/;,''"

definition path_escape :: "gostring \<Rightarrow> gostring" where
  "path_escape s = concat (map (\<lambda>c. if segment_safe c then [c]
     else [CHR ''%'', upper_hex (byte_of c div 16), upper_hex (byte_of c mod 16)]) s)"

definition refetch_url :: "gostring \<Rightarrow> gostring \<Rightarrow> gostring \<Rightarrow> gostring" where
  "refetch_url base botname key =
     (if base = [] then ''https://api.poe.com'' else base) @ ''/bot/fetch_settings/'' @
       path_escape botname @ ''/'' @ path_escape key @ ''/1.1''"

text \<open>The file \<open>last_schema_hash\<close> (empty when unreadable) and the requests made.\<close>

record refetch_state =
  rf_hash :: gostring
  rf_posts :: "gostring list"

text \<open>\<open>bad_url\<close> is \<open>NewRequest\<close>'s error, \<open>answer\<close> Poe's status and body, \<open>wr\<close> the error of writing
  the hash file. The log lines take the first twelve bytes of the hash.\<close>

definition short_hash :: "gostring \<Rightarrow> go_panic + gostring" where
  "short_hash h = (if length h < 12 then Inl SliceOutOfRange else Inr (take 12 h))"

definition echo_controls :: "json_lib \<Rightarrow> unicode \<Rightarrow> gostring \<Rightarrow> json option \<times> gostring option" where
  "echo_controls L U body =
     unmarshal L (dec_struct (\<lambda>kvs v. dec_field U ''parameter_controls'' dec_raw kvs v)) body None"

definition maybe_refetch ::
  "json_lib \<Rightarrow> unicode \<Rightarrow> (gostring \<Rightarrow> error) \<Rightarrow> (gostring \<Rightarrow> (int \<times> gostring) fallible) \<Rightarrow> error \<Rightarrow>
   gostring \<Rightarrow> gostring \<Rightarrow> gostring \<Rightarrow> parameter_controls option \<Rightarrow> refetch_state \<Rightarrow> go_panic + refetch_state" where
  "maybe_refetch L U bad_url answer wr base botname key pc st =
     (let h = schema_hash pc; url = refetch_url base botname key in
      if rf_hash st = h then map_sum id (\<lambda>_. st) (short_hash h)
      else if bad_url url \<noteq> None then Inr st
      else
        (let st1 = st\<lparr>rf_posts := rf_posts st @ [url]\<rparr> in
         case answer url of
           Inl e \<Rightarrow> Inr st1
         | Inr (status, body) \<Rightarrow>
             if status \<noteq> 200 then Inr st1
             else if echo_controls L U body = (None, None) then Inr st1
             else if wr \<noteq> None then Inr st1
             else map_sum id (\<lambda>_. st1\<lparr>rf_hash := h\<rparr>) (short_hash h)))"

lemma short_hash_schema: "\<exists>s. short_hash (schema_hash (Some p)) = Inr s"
  by (simp add: short_hash_def schema_hash_def)

text \<open>A schema is pushed to Poe once: one run makes at most one request, none when the schema is
  the one pushed last, and never panics; the hash is only remembered after Poe answered 200 and did
  not drop the controls; and once it is, running again makes no request.\<close>

theorem schema_is_pushed_once:
  "\<exists>st'. maybe_refetch L U bad answer wr base botname key (Some p) st = Inr st' \<and>
    (rf_posts st' = rf_posts st \<or>
       rf_hash st \<noteq> schema_hash (Some p) \<and> rf_posts st' = rf_posts st @ [refetch_url base botname key]) \<and>
    (rf_hash st' = rf_hash st \<or> rf_hash st' = schema_hash (Some p) \<and>
       (\<exists>body. answer (refetch_url base botname key) = Inr (200, body) \<and> echo_controls L U body \<noteq> (None, None))) \<and>
    (rf_hash st' = schema_hash (Some p) \<longrightarrow>
       maybe_refetch L U bad answer wr base botname key (Some p) st' = Inr st')"
proof -
  obtain s where s: "short_hash (schema_hash (Some p)) = Inr s" using short_hash_schema by blast
  show ?thesis
    by (auto simp: maybe_refetch_def Let_def s split: sum.splits)
qed

text \<open>Poe accepts the schema: the second run makes no request.\<close>

theorem schema_is_pushed_once_witness:
  "\<exists>st. maybe_refetch demo_json_lib ascii_tables (\<lambda>_. None) (\<lambda>_. Inr (200, [])) None [] ''b'' ''k''
       (Some (build_controls [] no_options)) \<lparr>rf_hash = [], rf_posts = []\<rparr> = Inr st \<and> length (rf_posts st) \<le> 1"
  using schema_is_pushed_once [of demo_json_lib ascii_tables "\<lambda>_. None" "\<lambda>_. Inr (200, [])" None "[]" "''b''" "''k''"
      "build_controls [] no_options" "\<lparr>rf_hash = [], rf_posts = []\<rparr>"]
  by auto

text \<open>Without controls the digest is the three bytes \<open>nil\<close>, and the log line's slice panics once the
  hash is written or found unchanged. No caller passes that.\<close>

lemma nil_controls_panic:
  "maybe_refetch L U bad answer wr base botname key None (st\<lparr>rf_hash := ''nil''\<rparr>) = Inl SliceOutOfRange"
  by (simp add: maybe_refetch_def schema_hash_def short_hash_def)

section \<open>Start-up\<close>

record main_flags =
  mf_agent_cmd :: gostring
  mf_agent_dir :: gostring
  mf_state_dir :: gostring
  mf_config :: gostring
  mf_permission :: gostring
  mf_access_key_env :: gostring
  mf_poe_path :: gostring
  mf_introduction :: gostring
  mf_session_ttl :: int
  mf_heartbeat :: int
  mf_allow_attachments :: bool

record main_env =
  me_json :: json_lib
  me_unicode :: unicode
  me_host :: host_env
  me_environ :: "gostring list"
  me_config :: "gostring \<Rightarrow> config_file"
  me_mkdir :: "gostring \<Rightarrow> error"
  me_spawn :: "gostring list \<Rightarrow> gostring \<Rightarrow> gostring list option \<Rightarrow> acp_peer fallible"
  me_probe_dir :: "gostring fallible"
  me_bundle :: "walk_entry list"
  me_disk :: host_disk
  me_abs :: "gostring \<Rightarrow> gostring fallible"
  me_entries :: "gostring \<Rightarrow> (gostring \<times> bool) list option fallible"
  me_read :: "gostring \<Rightarrow> read_result"

text \<open>A relay that is ready to serve.\<close>

record relay =
  rl_secret :: gostring
  rl_bot_name :: gostring
  rl_peer :: acp_peer
  rl_agent :: agent_proc
  rl_defaults :: options
  rl_router_cfg :: router_config
  rl_settings :: settings_response
  rl_heartbeat :: int

definition config_path :: "main_flags \<Rightarrow> main_env \<Rightarrow> gostring" where
  "config_path F E = (if mf_config F = [] then default_config_path (me_host E) else mf_config F)"

definition state_dir :: "main_flags \<Rightarrow> main_env \<Rightarrow> gostring" where
  "state_dir F E =
     (if mf_state_dir F \<noteq> [] then mf_state_dir F
      else if mf_config F \<noteq> [] then path_join [path_dir (config_path F E), ''state'']
      else default_state_dir (me_host E))"

definition skills_catalog :: "main_flags \<Rightarrow> main_env \<Rightarrow> gostring" where
  "skills_catalog F E =
     build_skills_catalog (fst (load_builtin (ho_tmp (me_host E)) (me_bundle E) (me_disk E)))
       (load_dir (me_abs E) (me_entries E) (me_read E) (path_join [path_dir (config_path F E), ''skills'']))"

definition child_env :: "main_flags \<Rightarrow> main_env \<Rightarrow> gostring list" where
  "child_env F E =
     (if mf_agent_dir F \<noteq> [] then append_env (me_environ E) (''FIR_AGENT_DIR='' @ mf_agent_dir F) else me_environ E)"

text \<open>With the agent running: probe, defaults, catalogue, router, handler.\<close>

definition wire_relay ::
  "main_flags \<Rightarrow> main_env \<Rightarrow> gostring \<Rightarrow> relay_config \<Rightarrow> acp_peer \<Rightarrow> agent_proc \<Rightarrow> go_panic + relay fallible" where
  "wire_relay F E secret cfg px a =
     (case probe_models px (me_probe_dir E) a of
        Inl p \<Rightarrow> Inl p
      | Inr (_, a') \<Rightarrow>
          (let d = resolve_defaults (rc_defaults cfg) (fst (models a')) (snd (models a')) in
           case new_config (me_mkdir E)
               \<lparr>cfg_state_dir = state_dir F E, cfg_session_ttl = mf_session_ttl F, cfg_defaults = d,
                cfg_system_prompt = skills_catalog F E, cfg_max_inline_image_bytes = 0,
                cfg_max_attachment_bytes = 0, cfg_attachment_ttl = 0\<rparr> of
             Inl e \<Rightarrow> Inr (Inl (''router: '' @ e))
           | Inr rc \<Rightarrow>
               Inr (Inr \<lparr>rl_secret = secret, rl_bot_name = rc_bot_name cfg, rl_peer = px, rl_agent = a', rl_defaults = d,
                 rl_router_cfg = rc,
                 rl_settings = \<lparr>sr_version = settings_response_version, sr_allow_attachments = mf_allow_attachments F,
                   sr_expand_text = mf_allow_attachments F, sr_introduction = mf_introduction F, sr_controls = None\<rparr>,
                 rl_heartbeat = mf_heartbeat F\<rparr>)))"

text \<open>The checks that come first, and the rest of the way.\<close>

definition main_checks :: "main_flags \<Rightarrow> main_env \<Rightarrow> (policy \<times> gostring \<times> relay_config) fallible" where
  "main_checks F E =
     (case parse_policy (me_unicode E) (mf_permission F) of
        Inl e \<Rightarrow> Inl (''policy: '' @ e)
      | Inr pol \<Rightarrow>
     (let secret = ho_getenv (me_host E) (mf_access_key_env F) in
      if secret = [] then Inl (''missing $'' @ mf_access_key_env F @ '' (Poe bearer secret)'')
      else
     (case load_config (me_json E) (me_unicode E) (me_config E) (config_path F E) of
        Inl e \<Rightarrow> Inl (''config: '' @ e)
      | Inr (cfg, _) \<Rightarrow> Inr (pol, secret, cfg))))"

definition launch_relay ::
  "main_flags \<Rightarrow> main_env \<Rightarrow> policy \<Rightarrow> gostring \<Rightarrow> relay_config \<Rightarrow> go_panic + relay fallible" where
  "launch_relay F E pol secret cfg =
     (case me_mkdir E (state_dir F E) of
        Some e \<Rightarrow> Inr (Inl (''state dir: '' @ e))
      | None \<Rightarrow>
     (case start_agent (me_unicode E) (me_spawn E) (ho_tmp (me_host E)) (go_fields (mf_agent_cmd F))
         (state_dir F E) (Some (child_env F E)) (Some pol) of
        Inl e \<Rightarrow> Inr (Inl (''start agent: '' @ e))
      | Inr (px, a) \<Rightarrow> wire_relay F E secret cfg px a))"

definition start_relay :: "main_flags \<Rightarrow> main_env \<Rightarrow> go_panic + relay fallible" where
  "start_relay F E =
     (case main_checks F E of
        Inl e \<Rightarrow> Inr (Inl e)
      | Inr (pol, secret, cfg) \<Rightarrow> launch_relay F E pol secret cfg)"

text \<open>\<open>main\<close> with its two flags that end it early: what it prints, or how it goes on.\<close>

datatype main_outcome =
    PrintVersion gostring
  | PrintCatalog gostring
  | Fatal gostring
  | Serving relay

definition run_main ::
  "gostring \<Rightarrow> bool \<Rightarrow> bool \<Rightarrow> main_flags \<Rightarrow> main_env \<Rightarrow> go_panic + main_outcome" where
  "run_main version show_version print_catalog F E =
     (if show_version then Inr (PrintVersion (version @ [nl]))
      else
        (case main_checks F E of
           Inl e \<Rightarrow> Inr (Fatal e)
         | Inr (pol, secret, cfg) \<Rightarrow>
             if print_catalog then Inr (PrintCatalog (skills_catalog F E))
             else map_sum id (case_sum Fatal Serving) (launch_relay F E pol secret cfg)))"

text \<open>The handler while the client is in state \<open>a\<close>: the controls are built from its current models.\<close>

definition relay_controls :: "relay \<Rightarrow> agent_proc \<Rightarrow> parameter_controls" where
  "relay_controls rl a = build_controls (fst (models a)) (rl_defaults rl)"

definition relay_handler :: "relay \<Rightarrow> agent_proc \<Rightarrow> handler_config" where
  "relay_handler rl a = \<lparr>hc_settings = rl_settings rl, hc_heartbeat = rl_heartbeat rl,
     hc_controls = Some (Some (relay_controls rl a)), hc_auth = True\<rparr>"

text \<open>The routes, for a Poe path that is a plain path of its own; any other path is not found.\<close>

definition serve_path ::
  "http_env \<Rightarrow> relay \<Rightarrow> gostring \<Rightarrow> agent_proc \<Rightarrow> sink_ref \<Rightarrow> gostring \<Rightarrow> gostring \<Rightarrow> gostring \<Rightarrow>
   gostring fallible \<Rightarrow> server \<Rightarrow> go_panic + reply \<times> server" where
  "serve_path E rl poe_path a k path meth auth body s =
     (if path = poe_path \<or> path = ''/poe''
      then bearer_auth (rl_secret rl) auth (serve_http E (relay_handler rl a) k meth body) s
      else if path = ''/debug/sessions''
      then bearer_auth (rl_secret rl) auth (\<lambda>s. Inr (debug_reply E s, s)) s
      else if path = ''/healthz''
      then Inr (ReplyText (''ok sessions='' @ itoa (int (router_len (sv_router s))) @ [nl]), s)
      else Inr (http_error 404 ''404 page not found'', s))"

text \<open>The push of the schema at start, for a configured bot name.\<close>

definition boot_push ::
  "main_env \<Rightarrow> (gostring \<Rightarrow> error) \<Rightarrow> (gostring \<Rightarrow> (int \<times> gostring) fallible) \<Rightarrow> error \<Rightarrow> relay \<Rightarrow>
   refetch_state \<Rightarrow> go_panic + refetch_state" where
  "boot_push E bad answer wr rl st =
     (if rl_bot_name rl = [] then Inr st
      else maybe_refetch (me_json E) (me_unicode E) bad answer wr [] (rl_bot_name rl) (rl_secret rl)
             (Some (relay_controls rl (rl_agent rl))) st)"

section \<open>What a started relay guarantees\<close>

lemma start_relay_cases:
  assumes "start_relay F E = Inr (Inr rl)"
  obtains pol cfg found px a where
    "parse_policy (me_unicode E) (mf_permission F) = Inr pol"
    "rl_secret rl = ho_getenv (me_host E) (mf_access_key_env F)" "rl_secret rl \<noteq> []"
    "load_config (me_json E) (me_unicode E) (me_config E) (config_path F E) = Inr (cfg, found)"
    "start_agent (me_unicode E) (me_spawn E) (ho_tmp (me_host E)) (go_fields (mf_agent_cmd F))
       (state_dir F E) (Some (child_env F E)) (Some pol) = Inr (px, a)"
    "wire_relay F E (rl_secret rl) cfg px a = Inr (Inr rl)"
proof -
  from assms have sec: "rl_secret rl = ho_getenv (me_host E) (mf_access_key_env F)" "rl_secret rl \<noteq> []"
    by (auto simp: start_relay_def main_checks_def launch_relay_def wire_relay_def Let_def
        split: sum.splits if_splits option.splits prod.splits)
  with assms that show ?thesis
    by (auto simp: start_relay_def main_checks_def launch_relay_def Let_def split: sum.splits if_splits option.splits prod.splits)
qed

lemma wire_relay_parts:
  assumes "wire_relay F E secret cfg px a = Inr (Inr rl)"
  shows "rl_defaults rl = resolve_defaults (rc_defaults cfg) (fst (models (rl_agent rl))) (snd (models (rl_agent rl)))"
    "cfg_defaults (rl_router_cfg rl) = rl_defaults rl" "rl_peer rl = px"
  using assms
  by (auto simp: wire_relay_def new_config_def Let_def split: sum.splits if_splits option.splits prod.splits)


lemma serving_iff:
  "run_main v False False F E = Inr (Serving rl) \<longleftrightarrow> start_relay F E = Inr (Inr rl)"
  by (cases "main_checks F E")
    (auto simp: run_main_def start_relay_def split: sum.splits prod.splits elim!: map_sum_InrE)

lemma wire_relay_prompt:
  assumes "wire_relay F E secret cfg px a = Inr (Inr rl)"
  shows "cfg_system_prompt (rl_router_cfg rl) =
    (if skills_catalog F E = [] then [] else reaction_contract_clause @ [nl, nl] @ skills_catalog F E)"
  using assms
  by (auto simp: wire_relay_def new_config_def Let_def split: sum.splits if_splits option.splits prod.splits)

text \<open>\<open>-print-catalog\<close> shows what the sessions get: with flags and surroundings with which the
  relay starts, the catalogue it prints is the one in the system prompt of the started relay's
  sessions, after the contract for out-of-band turns; and it is printed without starting the agent or
  making a directory.\<close>

theorem printed_catalogue_is_installed:
  assumes "run_main v False False F E = Inr (Serving rl)"
  shows "\<exists>cat. run_main v False True F E = Inr (PrintCatalog cat) \<and>
    cfg_system_prompt (rl_router_cfg rl) = (if cat = [] then [] else reaction_contract_clause @ [nl, nl] @ cat) \<and>
    run_main v False True F (E\<lparr>me_spawn := spawn, me_mkdir := mkdir, me_probe_dir := probe\<rparr>) = Inr (PrintCatalog cat)"
proof -
  from assms have st: "start_relay F E = Inr (Inr rl)" by (simp add: serving_iff)
  then obtain pol secret cfg where ch: "main_checks F E = Inr (pol, secret, cfg)"
    by (auto simp: start_relay_def split: sum.splits)
  have "main_checks F (E\<lparr>me_spawn := spawn, me_mkdir := mkdir, me_probe_dir := probe\<rparr>) = main_checks F E"
    "skills_catalog F (E\<lparr>me_spawn := spawn, me_mkdir := mkdir, me_probe_dir := probe\<rparr>) = skills_catalog F E"
    by (simp_all add: main_checks_def skills_catalog_def config_path_def cong: sum.case_cong if_cong)
  moreover from st obtain s' c' px a where "wire_relay F E s' c' px a = Inr (Inr rl)"
    by (rule start_relay_cases)
  then have "cfg_system_prompt (rl_router_cfg rl) =
    (if skills_catalog F E = [] then [] else reaction_contract_clause @ [nl, nl] @ skills_catalog F E)"
    by (rule wire_relay_prompt)
  ultimately show ?thesis using ch by (simp add: run_main_def)
qed

end
