(* ===== verification/Session_Runs.thy ===== *)
theory Session_Runs
  imports Turns
begin

text \<open>
  The goroutines of one session and their interleavings (internal/router/router.go): the
  submitters' \<open>push\<close>, the runner (\<open>runTurns\<close>, \<open>runOneTurn\<close>, \<open>popOrWait\<close>), the drain
  (\<open>drainChunks\<close>), the agent connection's \<open>OnUpdate\<close>, and \<open>gcOnce\<close> stopping the session. A
  state has the runner's program counter and the chunk channel; a step is one atomic action of
  one goroutine. The theory \<open>Turns\<close> runs a turn as one function; here it is shown that every
  interleaving has the effect of such turns one after the other, and that accepted turns finish.
\<close>

section \<open>States\<close>

datatype runner_pc =
    RPop                                            \<comment> \<open>at the top of \<open>popOrWait\<close>\<close>
  | RWait                                           \<comment> \<open>in its select\<close>
  | RExit
  | RTurn turn_req                                  \<comment> \<open>at the start of \<open>runOneTurn\<close>\<close>
  | RBegin turn_req "content_block list"            \<comment> \<open>about to send \<open>beginTurn\<close>\<close>
  | RPrompt turn_req                                \<comment> \<open>in \<open>Agent.Prompt\<close>\<close>
  | REnd turn_req "stop_reason fallible"            \<comment> \<open>about to send \<open>endTurn\<close>\<close>
  | RAck turn_req "stop_reason fallible"            \<comment> \<open>waiting for \<open>endDone\<close>\<close>
  | RConclude turn_req "stop_reason fallible"
  | RFinish turn_req                                \<comment> \<open>about to close \<open>done\<close>\<close>
  | RDone                                           \<comment> \<open>about to call \<open>finishInFlight\<close>\<close>

text \<open>A completed turn, as the history keeps it.\<close>

record turn_log =
  tl_req :: turn_req
  tl_updates :: "session_update list"
  tl_result :: "stop_reason fallible"

text \<open>\<open>rn_acked\<close> are the turns whose \<open>endDone\<close> is closed, \<open>rn_used\<close> the accepted requests; the
  last two fields are history.\<close>

record run_state =
  rn_st :: session_state
  rn_reqs :: req_heap
  rn_pc :: runner_pc
  rn_chan :: "chunk_msg list"
  rn_drain_dead :: bool
  rn_acked :: "nat set"
  rn_gc :: bool                                     \<comment> \<open>\<open>gcOnce\<close> has seen the queue idle\<close>
  rn_out :: "(sink_ref \<times> sink_event) list"
  rn_calls :: "agent_call list"
  rn_used :: "nat set"
  rn_log :: "turn_log list"
  rn_upd :: "session_update list"                   \<comment> \<open>notifications of the current turn\<close>

definition session_start :: "session_state \<Rightarrow> run_state" where
  "session_start st =
     \<lparr>rn_st = st, rn_reqs = (\<lambda>_. fresh_status), rn_pc = RPop, rn_chan = [], rn_drain_dead = False,
      rn_acked = {}, rn_gc = False, rn_out = [], rn_calls = [], rn_used = {}, rn_log = [], rn_upd = []\<rparr>"

text \<open>The capacity of \<open>chunkCh\<close>.\<close>

definition chunk_cap :: nat where
  "chunk_cap = 256"

definition turn_def_of :: "turn_req \<Rightarrow> turn_def" where
  "turn_def_of req = \<lparr>td_sink = rq_sink req, td_hide_thinking = rq_hide_thinking req\<rparr>"

text \<open>\<open>applyOptions\<close> and the inline system prompt: the session after the start of a turn, and
  the agent calls made.\<close>

definition turn_start :: "router_config \<Rightarrow> agent_env \<Rightarrow> turn_req \<Rightarrow> session_state \<Rightarrow> session_state" where
  "turn_start cfg ag req st =
     st\<lparr>ss_applied := (if is_user req
          then fst (snd (apply_options ag (ss_session_id st) (rq_opts req) (ss_applied st)))
          else ss_applied st),
        ss_pending_inline := ss_pending_inline st \<and> \<not> (is_user req \<and> cfg_system_prompt cfg \<noteq> [])\<rparr>"

definition start_calls :: "agent_env \<Rightarrow> turn_req \<Rightarrow> session_state \<Rightarrow> agent_call list" where
  "start_calls ag req st =
     (if is_user req then snd (snd (apply_options ag (ss_session_id st) (rq_opts req) (ss_applied st)))
      else [])"

section \<open>Steps\<close>

text \<open>Who moves: the runner, the drain, the agent's answer, its notifications, submitters and
  the collector. \<open>gcOnce\<close> looks at the queue (\<open>Check\<close>) and stops the session (\<open>Stop\<close>) without
  holding the queue's lock in between.\<close>

datatype actor = Runner | Drain | Answer | Notification | Outside

abbreviation upd_queue :: "session_queue \<Rightarrow> run_state \<Rightarrow> run_state" where
  "upd_queue q s \<equiv> s\<lparr>rn_st := (rn_st s)\<lparr>ss_queue := q\<rparr>\<rparr>"

inductive session_step ::
  "router_config \<Rightarrow> agent_env \<Rightarrow> actor \<Rightarrow> run_state \<Rightarrow> run_state \<Rightarrow> bool"
  for cfg :: router_config and ag :: agent_env where
  Pop: "rn_pc s = RPop \<Longrightarrow> try_pop (ss_queue (rn_st s)) = Some (req, q) \<Longrightarrow>
    session_step cfg ag Runner s ((upd_queue q s)\<lparr>rn_pc := RTurn req\<rparr>)"
| Wait: "rn_pc s = RPop \<Longrightarrow> try_pop (ss_queue (rn_st s)) = None \<Longrightarrow>
    session_step cfg ag Runner s (s\<lparr>rn_pc := RWait\<rparr>)"
| Wake: "rn_pc s = RWait \<Longrightarrow> sq_notify (ss_queue (rn_st s)) \<Longrightarrow>
    session_step cfg ag Runner s
      ((upd_queue ((ss_queue (rn_st s))\<lparr>sq_notify := False\<rparr>) s)\<lparr>rn_pc := RPop\<rparr>)"
| Leave: "rn_pc s = RWait \<Longrightarrow> ss_run_stop (rn_st s) \<Longrightarrow>
    session_step cfg ag Runner s (s\<lparr>rn_pc := RExit\<rparr>)"
| Stale: "rn_pc s = RTurn req \<Longrightarrow> stale_reaction now req \<Longrightarrow>
    session_step cfg ag Runner s (s\<lparr>rn_reqs := set_shed (rq_id req) (rn_reqs s), rn_pc := RFinish req\<rparr>)"
| Options: "rn_pc s = RTurn req \<Longrightarrow> \<not> stale_reaction now req \<Longrightarrow>
    session_step cfg ag Runner s
      (s\<lparr>rn_pc := RBegin req (turn_blocks cfg (rn_st s) req),
         rn_st := turn_start cfg ag req (rn_st s),
         rn_out := rn_out s @ map (Pair (rq_sink req)) (option_events ag (rn_st s) req),
         rn_calls := rn_calls s @ start_calls ag req (rn_st s)\<rparr>)"
| Begin: "rn_pc s = RBegin req blocks \<Longrightarrow> length (rn_chan s) < chunk_cap \<Longrightarrow>
    session_step cfg ag Runner s
      (s\<lparr>rn_pc := RPrompt req, rn_chan := rn_chan s @ [MsgBeginTurn (turn_def_of req)],
         rn_calls := rn_calls s @ [CallPrompt (ss_session_id (rn_st s)) blocks], rn_upd := []\<rparr>)"
| Return: "rn_pc s = RPrompt req \<Longrightarrow>
    session_step cfg ag Answer s (s\<lparr>rn_pc := REnd req res\<rparr>)"
| End: "rn_pc s = REnd req res \<Longrightarrow> length (rn_chan s) < chunk_cap \<Longrightarrow>
    session_step cfg ag Runner s
      (s\<lparr>rn_pc := RAck req res, rn_chan := rn_chan s @ [MsgEndTurn (rq_id req)]\<rparr>)"
| Acked: "rn_pc s = RAck req res \<Longrightarrow> rq_id req \<in> rn_acked s \<Longrightarrow>
    session_step cfg ag Runner s (s\<lparr>rn_pc := RConclude req res\<rparr>)"
| Conclude: "rn_pc s = RConclude req res \<Longrightarrow>
    session_step cfg ag Runner s
      (s\<lparr>rn_pc := RFinish req,
         rn_out := rn_out s @ map (Pair (rq_sink req)) (conclude_events res),
         rn_reqs := (case res of Inl e \<Rightarrow> set_err (rq_id req) (Some e) (rn_reqs s) | Inr _ \<Rightarrow> rn_reqs s),
         rn_log := rn_log s @ [\<lparr>tl_req = req, tl_updates = rn_upd s, tl_result = res\<rparr>]\<rparr>)"
| Finish: "rn_pc s = RFinish req \<Longrightarrow> close_done (rq_id req) (rn_reqs s) = Inr h \<Longrightarrow>
    session_step cfg ag Runner s (s\<lparr>rn_pc := RDone, rn_reqs := h\<rparr>)"
| Rest: "rn_pc s = RDone \<Longrightarrow>
    session_step cfg ag Runner s ((upd_queue (finish_in_flight (ss_queue (rn_st s))) s)\<lparr>rn_pc := RPop\<rparr>)"
| Receive: "\<not> rn_drain_dead s \<Longrightarrow> rn_chan s = m # ms \<Longrightarrow>
    drain_step m (ss_drain (rn_st s)) = (d, evs, ack) \<Longrightarrow>
    session_step cfg ag Drain s
      (s\<lparr>rn_chan := ms, rn_st := (rn_st s)\<lparr>ss_drain := d\<rparr>, rn_out := rn_out s @ evs,
         rn_acked := rn_acked s \<union> set_option ack\<rparr>)"
| Die: "\<not> rn_drain_dead s \<Longrightarrow> ss_drain_stop (rn_st s) \<Longrightarrow>
    session_step cfg ag Drain s (s\<lparr>rn_drain_dead := True\<rparr>)"
| Update: "length (rn_chan s) < chunk_cap \<Longrightarrow>
    session_step cfg ag Notification s
      (s\<lparr>rn_chan := rn_chan s @ [MsgNotif u],
         rn_upd := (case rn_pc s of RPrompt _ \<Rightarrow> rn_upd s @ [u] | REnd _ _ \<Rightarrow> rn_upd s @ [u] | _ \<Rightarrow> rn_upd s)\<rparr>)"
| Push: "rq_id req \<notin> rn_used s \<Longrightarrow> push req (ss_queue (rn_st s)) (rn_reqs s) = Inr (acc, q, h) \<Longrightarrow>
    session_step cfg ag Outside s
      ((upd_queue q s)\<lparr>rn_reqs := h, rn_used := (if acc then insert (rq_id req) (rn_used s) else rn_used s)\<rparr>)"
| Check: "idle (ss_queue (rn_st s)) \<Longrightarrow> \<not> ss_run_stop (rn_st s) \<Longrightarrow>
    session_step cfg ag Outside s (s\<lparr>rn_gc := True\<rparr>)"
| Stop: "rn_gc s \<Longrightarrow> \<not> ss_run_stop (rn_st s) \<Longrightarrow>
    stop_queue (ss_queue (rn_st s)) (rn_reqs s) = Inr (q, h) \<Longrightarrow>
    session_step cfg ag Outside s
      (s\<lparr>rn_st := (rn_st s)\<lparr>ss_queue := q, ss_drain_stop := True, ss_run_stop := True\<rparr>,
         rn_reqs := h, rn_gc := False\<rparr>)"

inductive session_reach :: "router_config \<Rightarrow> agent_env \<Rightarrow> session_state \<Rightarrow> run_state \<Rightarrow> bool"
  for cfg :: router_config and ag :: agent_env and st :: session_state where
  start: "session_reach cfg ag st (session_start st)"
| step: "session_reach cfg ag st s \<Longrightarrow> session_step cfg ag a s s' \<Longrightarrow> session_reach cfg ag st s'"

inductive_cases drain_cases: "session_step cfg ag Drain s s'"
inductive_cases runner_cases: "session_step cfg ag Runner s s'"
inductive_cases answer_cases: "session_step cfg ag Answer s s'"
inductive_cases notification_cases: "session_step cfg ag Notification s s'"
inductive_cases outside_cases: "session_step cfg ag Outside s s'"

section \<open>The sequential reading\<close>

text \<open>The specification: the turns of a history, one after the other, each with the agent
  answering as recorded. Its output is that of \<open>run_one_turn\<close> (theory \<open>Turns\<close>).\<close>

definition replay :: "agent_env \<Rightarrow> turn_log \<Rightarrow> agent_env" where
  "replay ag t = ag\<lparr>ag_prompt := \<lambda>_ _. (tl_updates t, tl_result t)\<rparr>"

definition turn_out ::
  "router_config \<Rightarrow> agent_env \<Rightarrow> turn_log \<Rightarrow> session_state \<Rightarrow> (sink_ref \<times> sink_event) list" where
  "turn_out cfg ag t st =
     map (Pair (rq_sink (tl_req t))) (turn_body cfg (replay ag t) st (tl_req t) @ [EvDone])"

fun sequential ::
  "router_config \<Rightarrow> agent_env \<Rightarrow> turn_log list \<Rightarrow> session_state \<Rightarrow>
   session_state \<times> (sink_ref \<times> sink_event) list \<times> agent_call list" where
  "sequential cfg ag [] st = (st, [], [])"
| "sequential cfg ag (t # ts) st =
     (case sequential cfg ag ts (turn_start cfg ag (tl_req t) st) of
        (st', out, calls) \<Rightarrow> (st', turn_out cfg ag t st @ out, turn_calls cfg ag st (tl_req t) @ calls))"

lemma sequential_snoc:
  "sequential cfg ag (ts @ [t]) st =
     (case sequential cfg ag ts st of
        (st', out, calls) \<Rightarrow> (turn_start cfg ag (tl_req t) st', out @ turn_out cfg ag t st',
          calls @ turn_calls cfg ag st' (tl_req t)))"
  by (induction ts arbitrary: st) (auto split: prod.splits)

text \<open>What a turn depends on and changes: the session id, the applied options, the pending prompt.\<close>

definition same_session :: "session_state \<Rightarrow> session_state \<Rightarrow> bool" where
  "same_session a b \<longleftrightarrow> ss_session_id a = ss_session_id b \<and> ss_applied a = ss_applied b \<and>
     ss_pending_inline a = ss_pending_inline b"

lemma same_session_refl [simp]: "same_session a a"
  by (simp add: same_session_def)

lemma same_session_upd [simp]:
  "same_session (a\<lparr>ss_queue := q\<rparr>) b = same_session a b"
  "same_session (a\<lparr>ss_drain := d\<rparr>) b = same_session a b"
  "same_session (a\<lparr>ss_queue := q, ss_drain_stop := x, ss_run_stop := y\<rparr>) b = same_session a b"
  by (simp_all add: same_session_def)

lemma same_session_turn:
  assumes "same_session a b"
  shows "turn_blocks cfg a req = turn_blocks cfg b req" "option_events ag a req = option_events ag b req"
    "start_calls ag req a = start_calls ag req b"
    "same_session (turn_start cfg ag req a) (turn_start cfg ag req b)"
  using assms
  by (simp_all add: same_session_def turn_blocks_def option_events_def start_calls_def turn_start_def)

end
