(* ===== verification/Session_Refinement.thy ===== *)
theory Session_Refinement
  imports Session_Runs
begin

text \<open>
  The interleavings of a session refine the sequential turns. The invariant predicts: what the
  sink has received, followed by what the drain will write for the messages now in the channel,
  is the output of the completed turns and the part of the current turn that has been produced.
  Draining a message moves it from the prediction to the output and changes nothing else.
\<close>

section \<open>The channel\<close>

fun is_notif :: "chunk_msg \<Rightarrow> bool" where
  "is_notif (MsgNotif u) \<longleftrightarrow> True" | "is_notif _ \<longleftrightarrow> False"

fun is_end :: "chunk_msg \<Rightarrow> bool" where
  "is_end (MsgEndTurn i) \<longleftrightarrow> True" | "is_end _ \<longleftrightarrow> False"

definition begun :: "turn_req \<Rightarrow> drain_state" where
  "begun req = \<lparr>dr_td = Some (turn_def_of req), dr_first = False, dr_mode = ChunkNone\<rparr>"

lemma drain_run_quiet: "list_all is_notif ms \<Longrightarrow> dr_td d = None \<Longrightarrow> drain_run ms d = (d, [])"
proof (induction ms arbitrary: d)
  case (Cons m ms)
  then show ?case by (cases m) auto
qed simp

lemma drain_begin: "drain_step (MsgBeginTurn (turn_def_of req)) d = (begun req, [], None)"
  by (cases d) (simp add: begun_def)

lemma notif_not_end: "list_all is_notif ms \<Longrightarrow> m \<in> set ms \<Longrightarrow> \<not> is_end m"
  by (cases m) (auto simp: list_all_iff)

text \<open>A notification within a turn keeps the turn.\<close>

lemma drain_run_updates:
  "snd (drain_run (map MsgNotif us) (begun req)) =
     map (Pair (rq_sink req)) (drain_updates (turn_def_of req) us False ChunkNone)"
  "dr_td (fst (drain_run (map MsgNotif us) (begun req))) = Some (turn_def_of req)"
  using drain_run_turn [of "begun req" "turn_def_of req" us] by (simp_all add: begun_def turn_def_of_def)

text \<open>After the end of the turn the rest of the channel is not written anywhere.\<close>

lemma drain_run_after_end:
  assumes "list_all is_notif suf" "list_all is_notif ms"
  shows "snd (drain_run (pre @ MsgEndTurn i # suf @ ms) d) = snd (drain_run (pre @ MsgEndTurn i # suf) d)"
  using assms by (simp add: drain_run_append drain_run_quiet split: prod.splits)

section \<open>The invariant\<close>

fun started :: "runner_pc \<Rightarrow> turn_req option" where
  "started (RBegin req _) = Some req"
| "started (RPrompt req) = Some req"
| "started (REnd req _) = Some req"
| "started (RAck req _) = Some req"
| "started (RConclude req _) = Some req"
| "started _ = None"

fun prompted :: "runner_pc \<Rightarrow> turn_req option" where
  "prompted (RPrompt req) = Some req"
| "prompted (REnd req _) = Some req"
| "prompted (RAck req _) = Some req"
| "prompted (RConclude req _) = Some req"
| "prompted _ = None"

fun current :: "runner_pc \<Rightarrow> turn_req list" where
  "current (RTurn req) = [req]"
| "current (RFinish req) = [req]"
| "current pc = (case started pc of None \<Rightarrow> [] | Some req \<Rightarrow> [req])"

text \<open>The current turn, as long as its \<open>endTurn\<close> has not been sent.\<close>

fun early :: "runner_pc \<Rightarrow> turn_req list" where
  "early (RTurn req) = [req]"
| "early (RBegin req _) = [req]"
| "early (RPrompt req) = [req]"
| "early (REnd req _) = [req]"
| "early _ = []"

text \<open>The expected session, output and calls.\<close>

definition expected ::
  "router_config \<Rightarrow> agent_env \<Rightarrow> session_state \<Rightarrow> run_state \<Rightarrow>
   session_state \<times> (sink_ref \<times> sink_event) list \<times> agent_call list" where
  "expected cfg ag st0 s =
     (case sequential cfg ag (rn_log s) st0 of
        (st, out, calls) \<Rightarrow>
          (case started (rn_pc s) of
             None \<Rightarrow> (st, out, calls)
           | Some req \<Rightarrow>
               (turn_start cfg ag req st,
                out @ map (Pair (rq_sink req)) (option_events ag st req) @
                  (if prompted (rn_pc s) = None then []
                   else snd (drain_run (map MsgNotif (rn_upd s)) (begun req))),
                calls @ start_calls ag req st @
                  (if prompted (rn_pc s) = None then []
                   else [CallPrompt (ss_session_id st) (turn_blocks cfg st req)]))))"

definition output_ok :: "router_config \<Rightarrow> agent_env \<Rightarrow> session_state \<Rightarrow> run_state \<Rightarrow> bool" where
  "output_ok cfg ag st0 s \<longleftrightarrow>
     (case expected cfg ag st0 s of
        (st, out, calls) \<Rightarrow>
          same_session (rn_st s) st \<and>
          rn_out s @ snd (drain_run (rn_chan s) (ss_drain (rn_st s))) = out \<and> rn_calls s = calls) \<and>
     (case rn_pc s of
        RBegin req blocks \<Rightarrow>
          blocks = turn_blocks cfg (fst (sequential cfg ag (rn_log s) st0)) req
      | _ \<Rightarrow> True)"

text \<open>What is in the channel.\<close>

definition chan_ok :: "run_state \<Rightarrow> bool" where
  "chan_ok s \<longleftrightarrow>
     (case rn_pc s of
        RPrompt req \<Rightarrow> (\<forall>m \<in> set (rn_chan s). \<not> is_end m) \<and>
          fst (drain_run (rn_chan s) (ss_drain (rn_st s))) =
          fst (drain_run (map MsgNotif (rn_upd s)) (begun req))
      | REnd req _ \<Rightarrow> (\<forall>m \<in> set (rn_chan s). \<not> is_end m) \<and>
          fst (drain_run (rn_chan s) (ss_drain (rn_st s))) =
          fst (drain_run (map MsgNotif (rn_upd s)) (begun req))
      | RAck req _ \<Rightarrow>
          (if rq_id req \<in> rn_acked s
           then list_all is_notif (rn_chan s) \<and> dr_td (ss_drain (rn_st s)) = None
           else \<exists>pre suf. rn_chan s = pre @ MsgEndTurn (rq_id req) # suf \<and>
             list_all is_notif suf \<and> (\<forall>m \<in> set pre. \<not> is_end m))
      | _ \<Rightarrow> list_all is_notif (rn_chan s) \<and> dr_td (ss_drain (rn_st s)) = None)"

text \<open>Identities: the queued and the current requests are different, accepted and not done, and
  every accepted request is done or one of them.\<close>

definition pending_ok ::
  "turn_req list \<Rightarrow> turn_req list \<Rightarrow> nat set \<Rightarrow> nat set \<Rightarrow> req_heap \<Rightarrow> bool" where
  "pending_ok cur q acked used h \<longleftrightarrow>
     distinct (map rq_id (cur @ q)) \<and>
     (\<forall>r \<in> set (cur @ q). rq_id r \<in> used \<and> \<not> rs_done (h (rq_id r))) \<and>
     (\<forall>r \<in> set q. rq_id r \<notin> acked) \<and> acked \<subseteq> used \<and>
     (\<forall>i. rs_done (h i) \<longrightarrow> i \<in> used) \<and>
     (\<forall>i \<in> used. rs_done (h i) \<or> i \<in> rq_id ` set (cur @ q))"

definition reqs_ok :: "run_state \<Rightarrow> bool" where
  "reqs_ok s \<longleftrightarrow>
     pending_ok (current (rn_pc s)) (sq_q (ss_queue (rn_st s))) (rn_acked s) (rn_used s) (rn_reqs s) \<and>
     (\<forall>r \<in> set (early (rn_pc s)). rq_id r \<notin> rn_acked s)"

lemma rq_id_notin: "r \<in> S \<Longrightarrow> rq_id r = rq_id d \<Longrightarrow> rq_id d \<in> rq_id ` S"
  by (metis imageI)

lemma pending_push:
  "pending_ok cur q acked used h \<Longrightarrow> rq_id r \<notin> used \<Longrightarrow>
     pending_ok cur (q @ [r]) acked (insert (rq_id r) used) h"
  by (auto simp: pending_ok_def dest: rq_id_notin)

lemma pending_drop:
  "pending_ok cur (ys @ d # zs) acked used h \<Longrightarrow>
     pending_ok cur (ys @ zs) acked used (h(rq_id d := (h (rq_id d))\<lparr>rs_shed := True, rs_done := True\<rparr>))"
  by (auto simp: pending_ok_def dest: rq_id_notin)

lemma pending_pop: "pending_ok [] (r # q) acked used h \<Longrightarrow> pending_ok [r] q acked used h"
  by (auto simp: pending_ok_def dest: rq_id_notin)

lemma pending_done:
  "pending_ok [r] q acked used h \<Longrightarrow>
     pending_ok [] q acked used (h(rq_id r := (h (rq_id r))\<lparr>rs_done := True\<rparr>))"
  by (auto simp: pending_ok_def dest: rq_id_notin)

lemma pending_heap:
  "pending_ok cur q acked used h \<Longrightarrow> (\<And>i. rs_done (h' i) = rs_done (h i)) \<Longrightarrow> pending_ok cur q acked used h'"
  by (simp add: pending_ok_def)

lemma pending_ack:
  "pending_ok [r] q acked used h \<Longrightarrow> pending_ok [r] q (insert (rq_id r) acked) used h"
  by (auto simp: pending_ok_def dest: rq_id_notin)

lemma pending_stop:
  assumes "pending_ok cur q acked used h" "shed_all q h = Inr h'"
  shows "pending_ok cur [] acked used h'"
proof -
  from assms(1) have "distinct (map rq_id q)" "\<forall>r \<in> set q. \<not> rs_done (h (rq_id r))"
    by (auto simp: pending_ok_def)
  with assms(2) have "h' = (\<lambda>i. if i \<in> rq_id ` set q then (h i)\<lparr>rs_shed := True, rs_done := True\<rparr> else h i)"
    by (simp add: shed_all_Inr)
  with assms(1) show ?thesis by (auto simp: pending_ok_def)
qed

text \<open>A waiting runner with work to do has been notified.\<close>

definition wake_ok :: "run_state \<Rightarrow> bool" where
  "wake_ok s \<longleftrightarrow>
     (rn_pc s = RWait \<and> sq_q (ss_queue (rn_st s)) \<noteq> [] \<longrightarrow> sq_notify (ss_queue (rn_st s))) \<and>
     (rn_pc s = RExit \<longrightarrow> ss_run_stop (rn_st s)) \<and>
     (ss_drain_stop (rn_st s) = ss_run_stop (rn_st s)) \<and> (rn_drain_dead s \<longrightarrow> ss_drain_stop (rn_st s)) \<and>
     (ss_run_stop (rn_st s) = sq_stopped (ss_queue (rn_st s)))"

section \<open>Every step keeps it\<close>

lemma apply_options_replay [simp]:
  "apply_options (ag\<lparr>ag_prompt := f\<rparr>) sid opts applied = apply_options ag sid opts applied"
proof -
  have "apply_thinking (ag\<lparr>ag_prompt := f\<rparr>) sid opts a = apply_thinking ag sid opts a" for a
    by (simp add: apply_thinking_def)
  then show ?thesis by (simp add: apply_options_def split: option.split)
qed

text \<open>A step that leaves the turn, the channel and the output alone.\<close>

lemma output_frame:
  assumes "output_ok cfg ag st0 s" "rn_pc s' = rn_pc s" "rn_log s' = rn_log s" "rn_upd s' = rn_upd s"
    "rn_chan s' = rn_chan s" "rn_out s' = rn_out s" "rn_calls s' = rn_calls s"
    "ss_drain (rn_st s') = ss_drain (rn_st s)" "\<And>st. same_session (rn_st s') st = same_session (rn_st s) st"
  shows "output_ok cfg ag st0 s'"
  using assms(1) unfolding output_ok_def expected_def assms(2-9) .

text \<open>A notification behind the end of a turn is dropped.\<close>

lemma late_notification:
  assumes "chan_ok s" "rn_pc s = RAck req res"
  shows "snd (drain_run (rn_chan s @ [MsgNotif u]) (ss_drain (rn_st s))) = snd (drain_run (rn_chan s) (ss_drain (rn_st s)))"
proof (cases "rq_id req \<in> rn_acked s")
  case True
  with assms show ?thesis by (simp add: chan_ok_def drain_run_quiet)
next
  case False
  with assms obtain pre suf where ch: "rn_chan s = pre @ MsgEndTurn (rq_id req) # suf" "list_all is_notif suf"
    by (auto simp: chan_ok_def)
  from drain_run_after_end [OF ch(2), of "[MsgNotif u]" pre "rq_id req" "ss_drain (rn_st s)"] ch(1)
  show ?thesis by simp
qed

text \<open>The output and the calls of a turn, put together from its steps.\<close>

lemma turn_out_parts:
  "map (Pair (rq_sink req)) (option_events ag st req) @
     snd (drain_run (map MsgNotif us) (begun req)) @ map (Pair (rq_sink req)) (conclude_events res) =
   turn_out cfg ag \<lparr>tl_req = req, tl_updates = us, tl_result = res\<rparr> st"
  unfolding turn_out_def drain_run_updates conclude_events_map [of _ res]
  by (simp add: turn_body_def replay_def turn_def_of_def option_events_def)

lemma turn_calls_parts:
  "start_calls ag req st @ [CallPrompt (ss_session_id st) (turn_blocks cfg st req)] = turn_calls cfg ag st req"
  by (simp add: start_calls_def turn_calls_def)

lemma output_step:
  assumes "session_step cfg ag a s s'" "output_ok cfg ag st0 s" "chan_ok s"
  shows "output_ok cfg ag st0 s'"
proof -
  obtain st out calls where sq: "sequential cfg ag (rn_log s) st0 = (st, out, calls)"
    by (cases "sequential cfg ag (rn_log s) st0")
  show ?thesis
    using assms(1)
  proof cases
  case (Receive m ms d evs ack)
  then show ?thesis using assms(2)
    by (auto simp: output_ok_def expected_def split: prod.splits option.splits runner_pc.splits)
next
  case (Options req now)
  from Options assms(2) sq have same: "same_session (rn_st s) st" by (simp add: output_ok_def expected_def)
  have dr: "ss_drain (turn_start cfg ag req (rn_st s)) = ss_drain (rn_st s)" by (simp add: turn_start_def)
  have q: "drain_run (rn_chan s) (ss_drain (rn_st s)) = (ss_drain (rn_st s), [])"
    using Options assms(3) by (simp add: chan_ok_def drain_run_quiet)
  show ?thesis using Options assms(2) sq same_session_turn [OF same] q
    by (simp add: output_ok_def expected_def dr)
next
  case (Begin req blocks)
  from Begin assms(2) sq have "same_session (rn_st s) (turn_start cfg ag req st)"
    by (simp add: output_ok_def expected_def)
  then have sid: "ss_session_id (rn_st s) = ss_session_id st" by (simp add: same_session_def turn_start_def)
  have "drain_run (rn_chan s) (ss_drain (rn_st s)) = (ss_drain (rn_st s), [])"
    using Begin assms(3) by (simp add: chan_ok_def drain_run_quiet)
  with Begin assms(2) sq sid show ?thesis
    by (simp add: output_ok_def expected_def drain_run_append drain_begin)
next
  case (Update u)
  show ?thesis
  proof (cases "rn_pc s")
    case (RPrompt req)
    with Update assms(2,3) show ?thesis
      by (auto simp: output_ok_def expected_def chan_ok_def drain_run_append split: prod.splits)
  next
    case (REnd req res)
    with Update assms(2,3) show ?thesis
      by (auto simp: output_ok_def expected_def chan_ok_def drain_run_append split: prod.splits)
  next
    case (RAck req res)
    with Update late_notification [OF assms(3) this] assms(2) show ?thesis by (simp add: output_ok_def expected_def)
  qed (use Update assms(2,3) in \<open>simp_all add: output_ok_def expected_def chan_ok_def drain_run_quiet\<close>)
next
  case (End req res)
  with assms(2) show ?thesis
    by (auto simp: output_ok_def expected_def drain_run_append split: prod.splits)
next
  case (Conclude req res)
  have q: "drain_run (rn_chan s) (ss_drain (rn_st s)) = (ss_drain (rn_st s), [])"
    using Conclude assms(3) by (simp add: chan_ok_def drain_run_quiet)
  show ?thesis using Conclude assms(2) sq q turn_out_parts [of req ag st "rn_upd s" res cfg]
      turn_calls_parts [of ag req st cfg]
    by (auto simp: output_ok_def expected_def sequential_snoc)
next
  case (Push req acc q h)
  show ?thesis by (rule output_frame [OF assms(2)]) (simp_all add: Push(2))
next
  case (Stop q h)
  show ?thesis by (rule output_frame [OF assms(2)]) (simp_all add: Stop(2))
next
  case Check
  show ?thesis by (rule output_frame [OF assms(2)]) (simp_all add: Check(2))
next
  case Die
  show ?thesis by (rule output_frame [OF assms(2)]) (simp_all add: Die(2))
qed (use assms(2) sq in \<open>auto simp: output_ok_def expected_def\<close>)
qed

lemma chan_step:
  assumes "session_step cfg ag a s s'" "chan_ok s" "reqs_ok s"
  shows "chan_ok s'"
  using assms(1)
proof cases
  case (Receive m ms d evs ack)
  show ?thesis
  proof (cases "rn_pc s")
    case (RPrompt req)
    with Receive assms(2) show ?thesis by (simp add: chan_ok_def split: prod.splits)
  next
    case (REnd req res)
    with Receive assms(2) show ?thesis by (simp add: chan_ok_def split: prod.splits)
  next
    case (RAck req res)
    show ?thesis
    proof (cases "rq_id req \<in> rn_acked s")
      case True
      with Receive RAck assms(2) show ?thesis by (cases m) (auto simp: chan_ok_def)
    next
      case False
      with RAck assms(2) obtain pre suf where ch: "rn_chan s = pre @ MsgEndTurn (rq_id req) # suf"
        "list_all is_notif suf" "\<forall>m \<in> set pre. \<not> is_end m" by (auto simp: chan_ok_def)
      show ?thesis
      proof (cases pre)
        case Nil
        with ch Receive RAck show ?thesis by (auto simp: chan_ok_def)
      next
        case (Cons m' pre')
        with ch Receive have "\<not> is_end m" "m' = m" "ms = pre' @ MsgEndTurn (rq_id req) # suf" by auto
        moreover from this Receive have "ack = None" by (cases m) (auto split: option.splits prod.splits)
        ultimately show ?thesis using Receive RAck False ch Cons by (auto simp: chan_ok_def)
      qed
    qed
  qed (use Receive assms(2) in \<open>cases m; auto simp: chan_ok_def\<close>)+
next
  case (Begin req blocks)
  with assms(2) show ?thesis
    by (auto simp: chan_ok_def drain_run_append drain_run_quiet drain_begin [simplified] notif_not_end
        split: prod.splits)
next
  case (End req res)
  with assms(2,3) have "rq_id req \<notin> rn_acked s'" "rn_chan s' = rn_chan s @ MsgEndTurn (rq_id req) # []"
    "\<forall>m \<in> set (rn_chan s). \<not> is_end m" by (simp_all add: chan_ok_def reqs_ok_def)
  moreover from this(2) have "\<exists>pre suf. rn_chan s' = pre @ MsgEndTurn (rq_id req) # suf \<and>
      list_all is_notif suf \<and> (\<forall>m \<in> set pre. \<not> is_end m)"
    by (intro exI [of _ "rn_chan s"] exI [of _ "[]"]) (simp add: calculation(3))
  ultimately show ?thesis using End by (simp add: chan_ok_def)
next
  case (Update u)
  have snoc: "\<exists>pre suf'. (p @ MsgEndTurn i # suf @ [MsgNotif u]) = pre @ MsgEndTurn i # suf' \<and>
      list_all is_notif suf' \<and> (\<forall>m \<in> set pre. \<not> is_end m)"
    if "list_all is_notif suf" "\<forall>m \<in> set p. \<not> is_end m" for p i suf
    using that by (intro exI [of _ p] exI [of _ "suf @ [MsgNotif u]"]) simp
  show ?thesis using Update assms(2) snoc
    by (cases "rn_pc s") (auto simp: chan_ok_def drain_run_append split: prod.splits if_splits)
next
  case (Options req now)
  with assms(2) show ?thesis by (simp add: chan_ok_def turn_start_def)
qed (use assms(2) in \<open>auto simp: chan_ok_def split: runner_pc.splits\<close>)

lemma push_notifies: "push req sq h = Inr (acc, q, h') \<Longrightarrow> sq_q q \<noteq> [] \<Longrightarrow> sq_notify q \<or> q = sq"
  by (erule push_cases) auto

lemma push_flags: "push req sq h = Inr (acc, q, h') \<Longrightarrow> sq_stopped q = sq_stopped sq"
  by (erule push_cases) auto

lemma wake_step:
  assumes "session_step cfg ag a s s'" "wake_ok s"
  shows "wake_ok s'"
  using assms(1)
proof cases
  case (Push req acc q h)
  with push_notifies [OF Push(4)] push_flags [OF Push(4)] assms(2) show ?thesis
    by (auto simp: wake_ok_def)
next
  case (Stop q h)
  with assms(2) show ?thesis by (auto simp: wake_ok_def stop_queue_def split: sum.splits)
next
  case (Options req now)
  with assms(2) show ?thesis by (auto simp: wake_ok_def turn_start_def)
qed (use assms(2) in \<open>auto simp: wake_ok_def finish_in_flight_def\<close>)

lemma reqs_push:
  assumes "reqs_ok s" "rq_id req \<notin> rn_used s" "push req (ss_queue (rn_st s)) (rn_reqs s) = Inr (acc, q, h)"
  shows "reqs_ok ((upd_queue q s)\<lparr>rn_reqs := h,
    rn_used := (if acc then insert (rq_id req) (rn_used s) else rn_used s)\<rparr>)"
  using assms(3)
proof (cases rule: push_cases)
  case (shed ys d zs)
  from shed(2) have "sq_q (ss_queue (rn_st s)) = ys @ d # zs" by (simp add: push_sheds_def)
  with assms(1) have "pending_ok (current (rn_pc s)) (ys @ zs) (rn_acked s) (rn_used s) h"
    using pending_drop shed(5) by (simp add: reqs_ok_def)
  from pending_push [OF this assms(2)] shed assms(1) show ?thesis by (simp add: reqs_ok_def)
qed (use assms pending_push in \<open>simp_all add: reqs_ok_def\<close>)

lemma reqs_step:
  assumes "session_step cfg ag a s s'" "reqs_ok s" "chan_ok s"
  shows "reqs_ok s'"
  using assms(1)
proof cases
  case (Pop req q)
  with assms(2) pending_pop show ?thesis by (auto simp: reqs_ok_def pending_ok_def)
next
  case (Push req acc q h)
  with reqs_push [OF assms(2) Push(3,4)] show ?thesis by simp
next
  case (Stop q h)
  then obtain h' where "shed_all (sq_q (ss_queue (rn_st s))) (rn_reqs s) = Inr h'" "h = h'" "sq_q q = []"
    by (auto simp: stop_queue_def split: sum.splits)
  with Stop assms(2) pending_stop show ?thesis by (auto simp: reqs_ok_def)
next
  case (Finish req h)
  with assms(2) pending_done show ?thesis by (auto simp: reqs_ok_def)
next
  case (Stale req now)
  then have "\<And>i. rs_done (rn_reqs s' i) = rs_done (rn_reqs s i)" by (simp add: set_shed_def)
  from pending_heap [OF _ this] Stale assms(2) show ?thesis by (simp add: reqs_ok_def)
next
  case (Conclude req res)
  then have "\<And>i. rs_done (rn_reqs s' i) = rs_done (rn_reqs s i)" by (cases res) (simp_all add: set_err_def)
  from pending_heap [OF _ this] Conclude assms(2) show ?thesis by (simp add: reqs_ok_def)
next
  case (Options req now)
  with assms(2) show ?thesis by (simp add: reqs_ok_def turn_start_def)
next
  case (Receive m ms d evs ack)
  show ?thesis
  proof (cases ack)
    case None
    with Receive assms(2) show ?thesis by (simp add: reqs_ok_def)
  next
    case (Some i)
    with Receive have m: "m = MsgEndTurn i" by (cases m) (auto split: option.splits prod.splits)
    with Receive(4) assms(3) obtain req res where pc: "rn_pc s = RAck req res" "rq_id req \<notin> rn_acked s"
      by (cases "rn_pc s") (auto simp: chan_ok_def split: if_splits)
    with assms(3) obtain pre suf where ch: "rn_chan s = pre @ MsgEndTurn (rq_id req) # suf"
      "\<forall>m \<in> set pre. \<not> is_end m" by (auto simp: chan_ok_def)
    with m Receive have "i = rq_id req" by (cases pre) auto
    with Receive Some pc assms(2) pending_ack show ?thesis by (auto simp: reqs_ok_def)
  qed
qed (use assms(2) in \<open>auto simp: reqs_ok_def finish_in_flight_def\<close>)

section \<open>Reachable states\<close>

definition run_ok :: "router_config \<Rightarrow> agent_env \<Rightarrow> session_state \<Rightarrow> run_state \<Rightarrow> bool" where
  "run_ok cfg ag st0 s \<longleftrightarrow> output_ok cfg ag st0 s \<and> chan_ok s \<and> reqs_ok s \<and> wake_ok s"

text \<open>A session as \<open>getOrCreate\<close> makes it.\<close>

definition fresh_session :: "session_state \<Rightarrow> bool" where
  "fresh_session st \<longleftrightarrow> ss_queue st = new_session_queue \<and> ss_drain st = drain_init \<and>
     \<not> ss_run_stop st \<and> \<not> ss_drain_stop st"

lemma run_ok_start: "fresh_session st \<Longrightarrow> run_ok cfg ag st (session_start st)"
  by (simp add: run_ok_def fresh_session_def session_start_def output_ok_def expected_def chan_ok_def
      drain_init_def reqs_ok_def pending_ok_def wake_ok_def new_session_queue_def fresh_status_def)

lemma run_ok_step:
  assumes "session_step cfg ag a s s'" "run_ok cfg ag st0 s"
  shows "run_ok cfg ag st0 s'"
  using assms output_step [OF assms(1)] chan_step [OF assms(1)] reqs_step [OF assms(1)]
    wake_step [OF assms(1)] by (simp add: run_ok_def)

lemma reach_ok: "session_reach cfg ag st s \<Longrightarrow> fresh_session st \<Longrightarrow> run_ok cfg ag st s"
  by (induction rule: session_reach.induct) (blast intro: run_ok_start run_ok_step)+

text \<open>C7: Refinement: in every interleaving of submitters, runner, drain, agent and collector, whenever
  the runner is between two turns, what the sinks have received and what the agent was asked is
  exactly what the completed turns give when they run one after the other, each writing the
  rendering of its own notifications and then its conclusion, and the session's options and
  pending prompt are those of the sequential run.\<close>

theorem interleavings_refine_sequential_turns:
  assumes "session_reach cfg ag st s" "fresh_session st" "rn_pc s \<in> {RPop, RWait, RExit, RDone}"
  shows "\<exists>st'. sequential cfg ag (rn_log s) st = (st', rn_out s, rn_calls s) \<and> same_session (rn_st s) st'"
proof -
  have ok: "run_ok cfg ag st s" by (rule reach_ok [OF assms(1,2)])
  then have "drain_run (rn_chan s) (ss_drain (rn_st s)) = (ss_drain (rn_st s), [])"
    using assms(3) by (auto simp: run_ok_def chan_ok_def drain_run_quiet)
  with ok assms(3) show ?thesis
    by (auto simp: run_ok_def output_ok_def expected_def split: prod.splits)
qed

theorem interleavings_refine_sequential_turns_witness:
  "\<exists>st'. sequential demo_config quiet_agent [] quiet_session = (st', [], []) \<and> same_session quiet_session st'"
  using interleavings_refine_sequential_turns [OF session_reach.start, of quiet_session demo_config quiet_agent]
  by (simp add: session_start_def fresh_session_def quiet_session_def)

section \<open>Accepted turns finish\<close>

text \<open>What is left to do before the runner rests: a bound on the steps of the runner, the drain and
  the agent's answers.\<close>

fun pc_work :: "runner_pc \<Rightarrow> nat" where
  "pc_work RExit = 0"
| "pc_work RWait = 1"
| "pc_work RPop = 2"
| "pc_work RDone = 3"
| "pc_work (RFinish _) = 4"
| "pc_work (RConclude _ _) = 5"
| "pc_work (RAck _ _) = 6"
| "pc_work (REnd _ _) = 8"
| "pc_work (RPrompt _) = 9"
| "pc_work (RBegin _ _) = 11"
| "pc_work (RTurn _) = 12"

definition work :: "run_state \<Rightarrow> nat" where
  "work s = 13 * length (sq_q (ss_queue (rn_st s))) + pc_work (rn_pc s) + length (rn_chan s) +
     (if sq_notify (ss_queue (rn_st s)) then 2 else 0) + (if rn_drain_dead s then 0 else 1)"

definition internal_step :: "router_config \<Rightarrow> agent_env \<Rightarrow> run_state \<Rightarrow> run_state \<Rightarrow> bool" where
  "internal_step cfg ag s s' \<longleftrightarrow> (\<exists>a \<in> {Runner, Drain, Answer}. session_step cfg ag a s s')"

lemma internal_step_work: "internal_step cfg ag s s' \<Longrightarrow> work s' < work s"
  by (auto simp: internal_step_def work_def finish_in_flight_def turn_start_def
      elim!: runner_cases drain_cases answer_cases)

lemma internal_step_used: "internal_step cfg ag s s' \<Longrightarrow> rn_used s' = rn_used s"
  by (auto simp: internal_step_def elim!: runner_cases drain_cases answer_cases)

lemma internal_step_stop: "internal_step cfg ag s s' \<Longrightarrow> ss_run_stop (rn_st s') = ss_run_stop (rn_st s)"
  by (auto simp: internal_step_def turn_start_def elim!: runner_cases drain_cases answer_cases)

lemma internal_step_reach: "session_reach cfg ag st s \<Longrightarrow> internal_step cfg ag s s' \<Longrightarrow> session_reach cfg ag st s'"
  by (auto simp: internal_step_def intro: session_reach.step)

text \<open>Progress: only a resting runner has nothing to do.\<close>

lemma progress:
  assumes "run_ok cfg ag st s" "\<not> ss_run_stop (rn_st s)"
  shows "(\<exists>s'. internal_step cfg ag s s') \<or> rn_pc s = RWait \<and> sq_q (ss_queue (rn_st s)) = []"
proof -
  have dead: "\<not> rn_drain_dead s" and nx: "rn_pc s \<noteq> RExit" using assms by (auto simp: run_ok_def wake_ok_def)
  have drain: "\<exists>s'. internal_step cfg ag s s'" if "rn_chan s \<noteq> []"
  proof -
    from that obtain m ms where ch: "rn_chan s = m # ms" by (cases "rn_chan s") auto
    obtain d evs ack where "drain_step m (ss_drain (rn_st s)) = (d, evs, ack)"
      by (cases "drain_step m (ss_drain (rn_st s))")
    from Receive [OF dead ch this, of cfg ag] show ?thesis by (auto simp: internal_step_def)
  qed
  have go: "\<exists>s'. internal_step cfg ag s s'" if "session_step cfg ag Runner s s'" for s'
    using that by (auto simp: internal_step_def)
  have room: "length (rn_chan s) < chunk_cap" if "rn_chan s = []" using that by (simp add: chunk_cap_def)
  show ?thesis
  proof (cases "rn_pc s")
    case RPop
    show ?thesis
    proof (cases "try_pop (ss_queue (rn_st s))")
      case None
      from go [OF Wait [OF RPop None]] show ?thesis by blast
    next
      case (Some p)
      then obtain r q where "try_pop (ss_queue (rn_st s)) = Some (r, q)" by (cases p) auto
      from go [OF Pop [OF RPop this]] show ?thesis by blast
    qed
  next
    case RWait
    with assms(1) go [OF Wake [OF RWait]] show ?thesis by (auto simp: run_ok_def wake_ok_def)
  next
    case (RTurn req)
    then show ?thesis using go [OF Stale [OF RTurn]] go [OF Options [OF RTurn]] by blast
  next
    case (RBegin req blocks)
    from go [OF Begin [OF this]] drain room show ?thesis by blast
  next
    case (RPrompt req)
    from Return [OF this] show ?thesis by (fastforce simp: internal_step_def)
  next
    case (REnd req res)
    from go [OF End [OF this]] drain room show ?thesis by blast
  next
    case (RAck req res)
    show ?thesis
    proof (cases "rq_id req \<in> rn_acked s")
      case True
      from go [OF Acked [OF RAck this]] show ?thesis by blast
    next
      case False
      with RAck assms(1) have "rn_chan s \<noteq> []" by (auto simp: run_ok_def chan_ok_def)
      with drain show ?thesis by blast
    qed
  next
    case (RConclude req res)
    from go [OF Conclude [OF this]] show ?thesis by blast
  next
    case (RFinish req)
    with assms(1) have "\<not> rs_done (rn_reqs s (rq_id req))"
      by (auto simp: run_ok_def reqs_ok_def pending_ok_def)
    from go [OF Finish [OF RFinish]] this show ?thesis by simp
  next
    case RDone
    from go [OF Rest [OF this]] show ?thesis by blast
  qed (use nx in simp)
qed

text \<open>A session that is served, with the requests \<open>U\<close> accepted, and at rest.\<close>

definition served :: "router_config \<Rightarrow> agent_env \<Rightarrow> session_state \<Rightarrow> nat set \<Rightarrow> run_state \<Rightarrow> bool" where
  "served cfg ag st U s \<longleftrightarrow>
     session_reach cfg ag st s \<and> fresh_session st \<and> \<not> ss_run_stop (rn_st s) \<and> U \<subseteq> rn_used s"

definition at_rest :: "nat set \<Rightarrow> run_state \<Rightarrow> bool" where
  "at_rest U s \<longleftrightarrow>
     rn_pc s = RWait \<and> sq_q (ss_queue (rn_st s)) = [] \<and> (\<forall>i \<in> U. rs_done (rn_reqs s i))"

interpretation turn_bound: bounded_runs "internal_step cfg ag" "served cfg ag st U" work "at_rest U" for cfg ag st U
proof unfold_locales
  fix s s' assume live: "served cfg ag st U s" and step: "internal_step cfg ag s s'"
  from live internal_step_reach [OF _ step] internal_step_stop [OF step] internal_step_used [OF step]
  show "served cfg ag st U s'" by (simp add: served_def)
  show "work s' < work s" by (rule internal_step_work [OF step])
next
  fix s assume live: "served cfg ag st U s" and stuck: "\<nexists>s'. internal_step cfg ag s s'"
  then have ok: "run_ok cfg ag st s" "\<not> ss_run_stop (rn_st s)" "U \<subseteq> rn_used s" using reach_ok by (auto simp: served_def)
  from progress [OF ok(1,2)] stuck have rest: "rn_pc s = RWait" "sq_q (ss_queue (rn_st s)) = []" by auto
  with ok(1,3) show "at_rest U s" by (auto simp: at_rest_def run_ok_def reqs_ok_def pending_ok_def)
qed

text \<open>C8: Liveness: in a session that is not stopped, every accepted turn finishes. Without new
  requests and notifications, however runner, drain and the agent's answers are scheduled, at most
  \<open>work\<close> steps are possible, and when none is, every accepted request is done and the runner waits
  on an empty queue: no wake-up is lost and no acknowledgement is missed.\<close>

theorem accepted_turns_finish:
  assumes "session_reach cfg ag st s" "fresh_session st" "\<not> ss_run_stop (rn_st s)"
    and "(internal_step cfg ag ^^ n) s s'"
  shows "n \<le> work s \<and>
    ((\<nexists>s''. internal_step cfg ag s' s'') \<longrightarrow>
      rn_pc s' = RWait \<and> sq_q (ss_queue (rn_st s')) = [] \<and> (\<forall>i \<in> rn_used s. rs_done (rn_reqs s' i)))"
proof -
  have live: "served cfg ag st (rn_used s) s" using assms(1-3) by (simp add: served_def)
  from turn_bound.run_bounded [OF assms(4) live] turn_bound.run_settles [OF assms(4) live]
  show ?thesis by (auto simp: at_rest_def)
qed

theorem accepted_turns_finish_witness:
  "\<exists>s s'. rn_used s = {1} \<and> (internal_step demo_config quiet_agent ^^ 1) s s' \<and> 1 \<le> work s"
proof -
  let ?req = "demo_req 1 TurnUser"
  let ?q = "enqueue ?req new_session_queue"
  let ?s = "(upd_queue ?q (session_start quiet_session))\<lparr>rn_used := {1}\<rparr>"
  have "session_step demo_config quiet_agent Outside (session_start quiet_session)
    ((upd_queue ?q (session_start quiet_session))\<lparr>rn_reqs := \<lambda>_. fresh_status,
      rn_used := if True then insert (rq_id ?req) (rn_used (session_start quiet_session))
        else rn_used (session_start quiet_session)\<rparr>)"
    by (rule Push) (simp_all add: session_start_def quiet_session_def push_def new_session_queue_def
        session_queue_cap_def)
  then have reach: "session_reach demo_config quiet_agent quiet_session ?s"
    using session_reach.step [OF session_reach.start] by (simp add: session_start_def demo_req_def)
  have fresh: "fresh_session quiet_session" "\<not> ss_run_stop (rn_st ?s)"
    by (simp_all add: fresh_session_def quiet_session_def session_start_def)
  have run: "(internal_step demo_config quiet_agent ^^ 1) ?s
    ((upd_queue (?q\<lparr>sq_q := [], sq_in_flight := True\<rparr>) ?s)\<lparr>rn_pc := RTurn ?req\<rparr>)"
    unfolding relpowp_1 internal_step_def
    by (rule bexI [of _ Runner], rule Pop) (simp_all add: session_start_def enqueue_def new_session_queue_def)
  show ?thesis
  proof (intro exI conjI)
    show "rn_used ?s = {1}" by simp
    show "(internal_step demo_config quiet_agent ^^ 1) ?s
      ((upd_queue (?q\<lparr>sq_q := [], sq_in_flight := True\<rparr>) ?s)\<lparr>rn_pc := RTurn ?req\<rparr>)" by (rule run)
    show "1 \<le> work ?s" using accepted_turns_finish [OF reach fresh run] by blast
  qed
qed

section \<open>Stopping a session that has just got work\<close>

definition some_step :: "router_config \<Rightarrow> agent_env \<Rightarrow> run_state \<Rightarrow> run_state \<Rightarrow> bool" where
  "some_step cfg ag s s' \<longleftrightarrow> (\<exists>a. session_step cfg ag a s s')"

text \<open>A runner that waits for a drain that is gone.\<close>

definition hung :: "turn_req \<Rightarrow> run_state \<Rightarrow> bool" where
  "hung req s \<longleftrightarrow> (\<exists>res. rn_pc s = RAck req res) \<and> rq_id req \<notin> rn_acked s \<and> rn_drain_dead s \<and>
     \<not> rs_done (rn_reqs s (rq_id req)) \<and> ss_run_stop (rn_st s) \<and> sq_stopped (ss_queue (rn_st s))"

lemma hung_step:
  assumes "some_step cfg ag s s'" "hung req s"
  shows "hung req s' \<and> rn_out s' = rn_out s"
  using assms
  by (auto simp: some_step_def hung_def push_def elim!: session_step.cases)

lemma hung_steps: "(some_step cfg ag)\<^sup>*\<^sup>* s s' \<Longrightarrow> hung req s \<Longrightarrow> hung req s' \<and> rn_out s' = rn_out s"
  by (induction rule: rtranclp_induct) (auto dest: hung_step)

lemma hung_forever:
  "hung req s \<Longrightarrow> (some_step cfg ag)\<^sup>*\<^sup>* s s' \<Longrightarrow> \<not> rs_done (rn_reqs s' (rq_id req)) \<and> rn_out s' = rn_out s"
  using hung_steps by (auto simp: hung_def)

text \<open>The state the race leads to: the turn is popped, the session stopped and the drain gone.\<close>

definition raced_state :: "session_state \<Rightarrow> turn_req \<Rightarrow> run_state" where
  "raced_state st req = (session_start st)
     \<lparr>rn_st := st\<lparr>ss_queue := (enqueue req new_session_queue)\<lparr>sq_q := [], sq_in_flight := True, sq_stopped := True\<rparr>,
        ss_drain_stop := True, ss_run_stop := True\<rparr>,
      rn_pc := RTurn req, rn_used := {rq_id req}, rn_drain_dead := True\<rparr>"

lemma raced_reach:
  assumes "fresh_session st"
  shows "session_reach cfg ag st (raced_state st req)"
proof -
  note st = assms [unfolded fresh_session_def]
  let ?q = "enqueue req new_session_queue"
  let ?s1 = "(session_start st)\<lparr>rn_gc := True\<rparr>"
  let ?s2 = "(upd_queue ?q ?s1)\<lparr>rn_reqs := \<lambda>_. fresh_status, rn_used := if True then insert (rq_id req) {} else {}\<rparr>"
  let ?s3 = "(upd_queue (?q\<lparr>sq_q := [], sq_in_flight := True\<rparr>) ?s2)\<lparr>rn_pc := RTurn req\<rparr>"
  let ?s4 = "?s3\<lparr>rn_st := (rn_st ?s3)\<lparr>ss_queue := ?q\<lparr>sq_q := [], sq_in_flight := True, sq_stopped := True\<rparr>,
      ss_drain_stop := True, ss_run_stop := True\<rparr>, rn_reqs := \<lambda>_. fresh_status, rn_gc := False\<rparr>"
  note defs = session_start_def enqueue_def new_session_queue_def
  have "session_step cfg ag Outside (session_start st) ?s1"
    by (rule Check) (use st in \<open>simp_all add: defs idle_def\<close>)
  note r1 = session_reach.step [OF session_reach.start this]
  have "session_step cfg ag Outside ?s1 ?s2"
    using Push [of req ?s1 True ?q "\<lambda>_. fresh_status" cfg ag] st
    by (simp add: session_start_def push_def session_queue_cap_def new_session_queue_def)
  note r2 = session_reach.step [OF r1 this]
  have "session_step cfg ag Runner ?s2 ?s3" by (rule Pop) (simp_all add: defs)
  note r3 = session_reach.step [OF r2 this]
  have "session_step cfg ag Outside ?s3 ?s4"
    by (rule Stop) (use st in \<open>simp_all add: defs stop_queue_def\<close>)
  note r4 = session_reach.step [OF r3 this]
  have "session_step cfg ag Drain ?s4 (?s4\<lparr>rn_drain_dead := True\<rparr>)" by (rule Die) (simp_all add: defs)
  from session_reach.step [OF r4 this] show ?thesis by (simp add: raced_state_def defs)
qed

text \<open>From there the turn runs up to the acknowledgement that never comes.\<close>

lemma raced_hangs:
  assumes "fresh_session st" "is_user req"
  obtains s where "session_reach cfg ag st s" "hung req s" "rq_id req \<in> rn_used s"
    "rn_out s = map (Pair (rq_sink req)) (option_events ag st req)"
proof -
  let ?s5 = "raced_state st req"
  let ?s6 = "?s5\<lparr>rn_pc := RBegin req (turn_blocks cfg (rn_st ?s5) req), rn_st := turn_start cfg ag req (rn_st ?s5),
      rn_out := rn_out ?s5 @ map (Pair (rq_sink req)) (option_events ag (rn_st ?s5) req),
      rn_calls := rn_calls ?s5 @ start_calls ag req (rn_st ?s5)\<rparr>"
  let ?s7 = "?s6\<lparr>rn_pc := RPrompt req, rn_chan := rn_chan ?s6 @ [MsgBeginTurn (turn_def_of req)],
      rn_calls := rn_calls ?s6 @ [CallPrompt (ss_session_id (rn_st ?s6)) (turn_blocks cfg (rn_st ?s5) req)], rn_upd := []\<rparr>"
  let ?s8 = "?s7\<lparr>rn_pc := REnd req (Inr EndTurn)\<rparr>"
  let ?s9 = "?s8\<lparr>rn_pc := RAck req (Inr EndTurn), rn_chan := rn_chan ?s8 @ [MsgEndTurn (rq_id req)]\<rparr>"
  note defs = raced_state_def session_start_def
  have "session_step cfg ag Runner ?s5 ?s6"
    by (rule Options [where now = 0]) (use assms(2) in \<open>simp_all add: stale_reaction_def defs\<close>)
  note r6 = session_reach.step [OF raced_reach [OF assms(1)] this]
  have "session_step cfg ag Runner ?s6 ?s7" by (rule Begin) (simp_all add: defs chunk_cap_def)
  note r7 = session_reach.step [OF r6 this]
  have "session_step cfg ag Answer ?s7 ?s8" by (rule Return) simp
  note r8 = session_reach.step [OF r7 this]
  have "session_step cfg ag Runner ?s8 ?s9" by (rule End) (simp_all add: defs chunk_cap_def)
  note r9 = session_reach.step [OF r8 this]
  show thesis
    by (rule that [OF r9])
      (simp_all add: hung_def defs fresh_status_def turn_start_def option_events_def)
qed

text \<open>C37: The same race can hang a prompt for good: the collector sees the queue idle, a user turn is
  accepted and popped, then the collector stops the session and the drain leaves before it has
  acknowledged the turn. The runner waits for \<open>endDone\<close> for ever: whatever happens next, the
  request is never done and its sink gets nothing more, in particular no \<open>Done\<close>.\<close>

theorem collection_can_hang_a_prompt:
  assumes "fresh_session st" "is_user req"
  shows "\<exists>s. session_reach cfg ag st s \<and> rq_id req \<in> rn_used s \<and>
    rn_out s = map (Pair (rq_sink req)) (option_events ag st req) \<and>
    (\<forall>s'. (some_step cfg ag)\<^sup>*\<^sup>* s s' \<longrightarrow>
      \<not> rs_done (rn_reqs s' (rq_id req)) \<and> rn_out s' = rn_out s)"
  using raced_hangs [OF assms] hung_forever by metis

theorem collection_can_hang_a_prompt_witness:
  "\<exists>s. session_reach demo_config quiet_agent quiet_session s \<and> 1 \<in> rn_used s \<and>
    \<not> rs_done (rn_reqs s 1) \<and> rn_out s = []"
proof -
  have "fresh_session quiet_session" by (simp add: fresh_session_def quiet_session_def)
  from collection_can_hang_a_prompt [OF this, of "demo_req 1 TurnUser" demo_config quiet_agent]
  obtain s where s: "session_reach demo_config quiet_agent quiet_session s" "rq_id (demo_req 1 TurnUser) \<in> rn_used s"
    "rn_out s = map (Pair (rq_sink (demo_req 1 TurnUser)))
      (option_events quiet_agent quiet_session (demo_req 1 TurnUser))"
    "\<not> rs_done (rn_reqs s (rq_id (demo_req 1 TurnUser)))"
    by auto
  have "option_events quiet_agent quiet_session (demo_req 1 TurnUser) = []"
    by (simp add: demo_req_def option_events_def apply_options_def apply_thinking_def no_options_def)
  with s show ?thesis by (auto simp: demo_req_def)
qed

end
