(* ===== verification/Session_History.thy ===== *)
theory Session_History
  imports Session_Refinement
begin

text \<open>
  What the history of a session says about each request: a request that is done either ran, and
  then the history has its turn and the request carries the turn's error, or it was shed; and what
  each sink has received. Built on the invariant of \<open>Session_Refinement\<close>.
\<close>

section \<open>Requests and the history\<close>

definition err_of :: "stop_reason fallible \<Rightarrow> gostring option" where
  "err_of res = (case res of Inl e \<Rightarrow> Some e | Inr _ \<Rightarrow> None)"

definition log_ids :: "run_state \<Rightarrow> nat set" where
  "log_ids s = (rq_id \<circ> tl_req) ` set (rn_log s)"

text \<open>The current turn until it is concluded, and the one that is over but not marked done.\<close>

fun running :: "runner_pc \<Rightarrow> turn_req list" where
  "running (RFinish req) = []"
| "running pc = current pc"

fun finishing :: "runner_pc \<Rightarrow> nat set" where
  "finishing (RFinish req) = {rq_id req}"
| "finishing pc = {}"

definition history_ok :: "run_state \<Rightarrow> bool" where
  "history_ok s \<longleftrightarrow>
     distinct (map (rq_id \<circ> tl_req) (rn_log s)) \<and>
     (\<forall>t \<in> set (rn_log s). rq_id (tl_req t) \<in> rn_used s \<and> \<not> rs_shed (rn_reqs s (rq_id (tl_req t))) \<and>
        rs_err (rn_reqs s (rq_id (tl_req t))) = err_of (tl_result t)) \<and>
     (\<forall>r \<in> set (running (rn_pc s) @ sq_q (ss_queue (rn_st s))).
        rq_id r \<notin> log_ids s \<and> \<not> rs_shed (rn_reqs s (rq_id r)) \<and> rs_err (rn_reqs s (rq_id r)) = None) \<and>
     (\<forall>i. i \<notin> rn_used s \<longrightarrow> rn_reqs s i = fresh_status) \<and>
     (\<forall>i \<in> rn_used s. rs_done (rn_reqs s i) \<or> i \<in> finishing (rn_pc s) \<longrightarrow>
        i \<in> log_ids s \<or> rs_shed (rn_reqs s i))"

lemma running_current: "set (running pc) \<subseteq> set (current pc)"
  by (cases pc) auto

lemma finishing_used: "reqs_ok s \<Longrightarrow> finishing (rn_pc s) \<subseteq> rn_used s"
  by (cases "rn_pc s") (auto simp: reqs_ok_def pending_ok_def)

lemma running_not_queued:
  assumes "reqs_ok s" "r \<in> set (running (rn_pc s))" "r' \<in> set (sq_q (ss_queue (rn_st s)))"
  shows "rq_id r \<noteq> rq_id r'"
proof -
  have "rq_id r \<in> rq_id ` set (current (rn_pc s))" using assms(2) running_current by blast
  with assms(1,3) show ?thesis by (force simp: reqs_ok_def pending_ok_def)
qed

lemma not_logged: "i \<notin> log_ids s \<Longrightarrow> t \<in> set (rn_log s) \<Longrightarrow> rq_id (tl_req t) \<noteq> i"
  by (auto simp: log_ids_def)

lemma history_start: "sq_q (ss_queue st) = [] \<Longrightarrow> history_ok (session_start st)"
  by (auto simp: history_ok_def session_start_def log_ids_def fresh_status_def)

text \<open>A step that leaves the history, the requests and the pending turns alone.\<close>

lemma history_frame:
  assumes "history_ok s" "rn_log s' = rn_log s" "rn_used s' = rn_used s" "rn_reqs s' = rn_reqs s"
    "set (running (rn_pc s') @ sq_q (ss_queue (rn_st s'))) \<subseteq> set (running (rn_pc s) @ sq_q (ss_queue (rn_st s)))"
    "finishing (rn_pc s') \<subseteq> finishing (rn_pc s)"
  shows "history_ok s'"
  using assms unfolding history_ok_def log_ids_def by (simp add: subset_iff) blast

lemma history_push:
  assumes "push req (ss_queue (rn_st s)) (rn_reqs s) = Inr (acc, q, h)" "rq_id req \<notin> rn_used s"
    "reqs_ok s" "history_ok s"
  shows "history_ok ((upd_queue q s)\<lparr>rn_reqs := h,
    rn_used := (if acc then insert (rq_id req) (rn_used s) else rn_used s)\<rparr>)"
  using assms(1)
proof (cases rule: push_cases)
  case rejected
  then show ?thesis using assms(4) by (intro history_frame [OF assms(4)]) auto
next
  case added
  with assms finishing_used [OF assms(3)] show ?thesis
    by (auto simp: history_ok_def log_ids_def fresh_status_def)
next
  case (shed ys d zs)
  have q: "sq_q (ss_queue (rn_st s)) = ys @ d # zs" using shed(2) by (simp add: push_sheds_def)
  have d: "rq_id d \<in> rn_used s" "rq_id d \<notin> log_ids s" "\<forall>r \<in> set (running (rn_pc s) @ ys @ zs). rq_id r \<noteq> rq_id d"
    using assms(3,4) q running_current [of "rn_pc s"]
    by (auto simp: reqs_ok_def pending_ok_def history_ok_def dest: rq_id_notin)
  with assms(2,4) shed q finishing_used [OF assms(3)] not_logged [OF d(2)] show ?thesis
    by (auto simp: history_ok_def log_ids_def fresh_status_def)
qed

lemma history_stop:
  assumes "reqs_ok s" "history_ok s" "stop_queue (ss_queue (rn_st s)) (rn_reqs s) = Inr (q, h)"
  shows "history_ok (s\<lparr>rn_st := (rn_st s)\<lparr>ss_queue := q, ss_drain_stop := True, ss_run_stop := True\<rparr>,
    rn_reqs := h, rn_gc := False\<rparr>)"
proof -
  let ?q = "sq_q (ss_queue (rn_st s))"
  have "distinct (map rq_id ?q)" "\<forall>r \<in> set ?q. \<not> rs_done (rn_reqs s (rq_id r))"
    using assms(1) by (auto simp: reqs_ok_def pending_ok_def)
  with assms(3) have q: "sq_q q = []" and h: "\<And>i. h i =
      (if i \<in> rq_id ` set ?q then (rn_reqs s i)\<lparr>rs_shed := True, rs_done := True\<rparr> else rn_reqs s i)"
    by (auto simp: stop_queue_def shed_all_Inr)
  have "rq_id ` set ?q \<subseteq> rn_used s" "rq_id ` set ?q \<inter> log_ids s = {}"
    using assms(1,2) by (auto simp: history_ok_def reqs_ok_def pending_ok_def)
  moreover have "rq_id ` set (running (rn_pc s)) \<inter> rq_id ` set ?q = {}"
    using running_not_queued [OF assms(1)] by auto
  ultimately show ?thesis using assms(2) not_logged [of _ s]
    unfolding history_ok_def by (auto simp: q h log_ids_def)
qed

lemma history_step:
  assumes "session_step cfg ag a s s'" "reqs_ok s" "history_ok s"
  shows "history_ok s'"
  using assms(1)
proof cases
  case (Push req acc q h)
  with history_push [OF Push(4,3) assms(2,3)] show ?thesis by simp
next
  case (Stale req now)
  then have n: "rq_id req \<notin> log_ids s" "\<forall>r \<in> set (sq_q (ss_queue (rn_st s))). rq_id r \<noteq> rq_id req"
    using assms(2,3) by (auto simp: history_ok_def reqs_ok_def pending_ok_def dest: rq_id_notin)
  with Stale assms(2,3) not_logged [OF n(1)] show ?thesis
    by (auto simp: history_ok_def log_ids_def set_shed_def reqs_ok_def pending_ok_def)
next
  case (Conclude req res)
  then have n: "rq_id req \<in> rn_used s" "rq_id req \<notin> log_ids s" "\<not> rs_shed (rn_reqs s (rq_id req))"
    "rs_err (rn_reqs s (rq_id req)) = None" "\<forall>r \<in> set (sq_q (ss_queue (rn_st s))). rq_id r \<noteq> rq_id req"
    using assms(2,3) by (auto simp: history_ok_def reqs_ok_def pending_ok_def dest: rq_id_notin)
  with Conclude assms(3) not_logged [OF n(2)] show ?thesis
    by (cases res) (auto simp: history_ok_def log_ids_def set_err_def err_of_def)
next
  case (Finish req h)
  with assms(2,3) show ?thesis
    by (auto simp: history_ok_def log_ids_def reqs_ok_def pending_ok_def)
next
  case (Stop q h)
  show ?thesis using history_stop [OF assms(2,3)] Stop by simp
next
  case (Options req now)
  with assms(3) show ?thesis by (intro history_frame [OF assms(3)]) (auto simp: turn_start_def)
qed (use history_frame [OF assms(3), of s'] in \<open>auto simp: subset_insertI finish_in_flight_def\<close>)

text \<open>Done means run or shed.\<close>

lemma history_done:
  "history_ok s \<Longrightarrow> i \<in> rn_used s \<Longrightarrow> rs_done (rn_reqs s i) \<Longrightarrow> i \<in> log_ids s \<or> rs_shed (rn_reqs s i) \<and> i \<notin> log_ids s"
  by (auto simp: history_ok_def)

lemma history_reach: "session_reach cfg ag st s \<Longrightarrow> fresh_session st \<Longrightarrow> history_ok s"
proof (induction rule: session_reach.induct)
  case start
  then show ?case by (simp add: history_start fresh_session_def new_session_queue_def)
next
  case (step s a s')
  from reach_ok [OF step.hyps(1) step.prems] have "reqs_ok s" by (simp add: run_ok_def)
  with step show ?case by (blast intro: history_step)
qed

text \<open>A request that was not shed is shed by a step only as a reaction, or because the session is
  stopped.\<close>

lemma shed_step:
  assumes "session_step cfg ag a s s'" "\<not> rs_shed (rn_reqs s i)" "rs_shed (rn_reqs s' i)"
  shows "(\<exists>r \<in> set (current (rn_pc s) @ sq_q (ss_queue (rn_st s))). rq_id r = i \<and> is_reaction r) \<or>
    ss_run_stop (rn_st s')"
  using assms(1)
proof cases
  case (Push req acc q h)
  from Push(4) show ?thesis
    by (cases rule: push_cases) (use assms Push in \<open>auto simp: push_sheds_def split: if_splits\<close>)
next
  case (Stale req now)
  then show ?thesis using assms by (auto simp: set_shed_def stale_reaction_def split: if_splits)
next
  case (Conclude req res)
  then show ?thesis using assms by (cases res) (auto simp: set_err_def split: if_splits)
qed (use assms in \<open>auto split: if_splits\<close>)

lemma stop_flag_step: "session_step cfg ag a s s' \<Longrightarrow> ss_run_stop (rn_st s) \<Longrightarrow> ss_run_stop (rn_st s')"
  by (erule session_step.cases) (auto simp: turn_start_def)

section \<open>What a sink has received\<close>

text \<open>The calls on one sink, in order.\<close>

definition sink_trace :: "sink_ref \<Rightarrow> (sink_ref \<times> sink_event) list \<Rightarrow> sink_event list" where
  "sink_trace k out = map snd (filter (\<lambda>x. fst x = k) out)"

lemma sink_trace_simps [simp]:
  "sink_trace k [] = []"
  "sink_trace k (xs @ ys) = sink_trace k xs @ sink_trace k ys"
  "sink_trace k (map (Pair k') es) = (if k = k' then es else [])"
  by (induction es) (auto simp: sink_trace_def)

definition log_out :: "router_config \<Rightarrow> agent_env \<Rightarrow> session_state \<Rightarrow> turn_log list \<Rightarrow> (sink_ref \<times> sink_event) list" where
  "log_out cfg ag st ts = fst (snd (sequential cfg ag ts st))"

lemma log_out_simps [simp]:
  "log_out cfg ag st [] = []"
  "log_out cfg ag st (t # ts) = turn_out cfg ag t st @ log_out cfg ag (turn_start cfg ag (tl_req t) st) ts"
  by (simp_all add: log_out_def split: prod.split)

lemma log_out_append:
  "log_out cfg ag st (ts @ us) = log_out cfg ag st ts @ log_out cfg ag (fst (sequential cfg ag ts st)) us"
  by (induction ts arbitrary: st) (auto split: prod.split)

lemma turn_out_trace:
  "sink_trace k (turn_out cfg ag t st) =
     (if k = rq_sink (tl_req t) then turn_body cfg (replay ag t) st (tl_req t) @ [EvDone] else [])"
  by (simp add: turn_out_def del: map_append)

lemma log_out_silent:
  "\<forall>t \<in> set ts. rq_sink (tl_req t) \<noteq> k \<Longrightarrow> sink_trace k (log_out cfg ag st ts) = []"
  by (induction ts arbitrary: st) (auto simp: turn_out_trace)

lemma log_out_one:
  assumes "\<forall>t' \<in> set (pre @ post). rq_sink (tl_req t') \<noteq> rq_sink (tl_req t)"
  shows "sink_trace (rq_sink (tl_req t)) (log_out cfg ag st (pre @ t # post)) =
    turn_body cfg (replay ag t) (fst (sequential cfg ag pre st)) (tl_req t) @ [EvDone]"
  using assms by (simp add: log_out_append log_out_silent turn_out_trace)

text \<open>The output of the completed turns is a prefix of what has been written.\<close>

lemma log_out_prefix:
  assumes "session_reach cfg ag st s" "fresh_session st"
  shows "\<exists>rest. rn_out s = log_out cfg ag st (rn_log s) @ rest"
  using assms
proof (induction rule: session_reach.induct)
  case start
  then show ?case by (simp add: session_start_def)
next
  case (step s a s')
  from step.IH step.prems obtain rest where rest: "rn_out s = log_out cfg ag st (rn_log s) @ rest" by blast
  from reach_ok [OF session_reach.step [OF step.hyps] step.prems]
  have ok: "output_ok cfg ag st s'" "chan_ok s'" by (simp_all add: run_ok_def)
  from step.hyps(2) show ?case
  proof cases
    case (Conclude req res)
    then have "drain_run (rn_chan s') (ss_drain (rn_st s')) = (ss_drain (rn_st s'), [])"
      using ok(2) by (simp add: chan_ok_def drain_run_quiet)
    with Conclude ok(1) show ?thesis
      by (intro exI [of _ "[]"]) (auto simp: output_ok_def expected_def log_out_def split: prod.splits)
  qed (use rest in auto)
qed

text \<open>What is written beyond the completed turns goes to the sink of the turn that runs.\<close>

lemma trace_of_others:
  assumes "session_reach cfg ag st s" "fresh_session st" "\<forall>r \<in> set (running (rn_pc s)). rq_sink r \<noteq> k"
  shows "sink_trace k (rn_out s) = sink_trace k (log_out cfg ag st (rn_log s))"
proof -
  obtain rest where rest: "rn_out s = log_out cfg ag st (rn_log s) @ rest"
    using log_out_prefix [OF assms(1,2)] by blast
  have ok: "output_ok cfg ag st s" using reach_ok [OF assms(1,2)] by (simp add: run_ok_def)
  have run: "sink_trace k (snd (drain_run (map MsgNotif us) (begun req))) = []" if "rq_sink req \<noteq> k" for us req
    using that by (simp add: drain_run_updates)
  have "sink_trace k (rest @ snd (drain_run (rn_chan s) (ss_drain (rn_st s)))) = []"
  proof (cases "started (rn_pc s)")
    case None
    with ok rest show ?thesis by (simp add: output_ok_def expected_def log_out_def split: prod.splits)
  next
    case (Some req)
    then have "req \<in> set (running (rn_pc s))" by (cases "rn_pc s") auto
    with assms(3) have "rq_sink req \<noteq> k" by blast
    obtain st' where e: "rest @ snd (drain_run (rn_chan s) (ss_drain (rn_st s))) =
        map (Pair (rq_sink req)) (option_events ag st' req) @
        (if prompted (rn_pc s) = None then [] else snd (drain_run (map MsgNotif (rn_upd s)) (begun req)))"
      using Some ok rest by (fastforce simp: output_ok_def expected_def log_out_def split: prod.splits)
    show ?thesis unfolding e using run \<open>rq_sink req \<noteq> k\<close> by simp
  qed
  then show ?thesis by (simp add: rest)
qed

end
