(* ===== verification/Relay_Runs.thy ===== *)
theory Relay_Runs
  imports Session_History Router
begin

text \<open>
  The whole router at work (internal/router/router.go): any number of sessions, each with its
  goroutines (theory \<open>Session_Runs\<close>), and any number of calls of \<open>Prompt\<close>, \<open>ReportReaction\<close> and
  \<open>Cancel\<close> in progress, each at its own point: before the lookup of \<open>getOrCreate\<close>, after a miss,
  between the agent's answer and \<open>install\<close>, building its blocks, about to push, waiting for
  \<open>done\<close>. A step is one critical section or one call on the outside of one of them. The operations are
  those of the theory \<open>Router\<close>, applied to the router as the caller sees it. \<open>gcOnce\<close> holds the
  router's lock between its look at a queue and the stop; what happens on other locks goes on. Its
  test of the time of last use is left open: it may take any idle session.
\<close>

section \<open>Calls\<close>

datatype api_call =
    PromptCall gostring gostring "turn list" options       \<comment> \<open>conversation, user, query, options\<close>
  | ReactionCall gostring gostring gostring gostring gostring \<comment> \<open>conversation, user, message, kind, action\<close>
  | CancelCall gostring

text \<open>How far a call is. The requests a call has pushed are kept for the statements.\<close>

datatype call_pc =
    CIdle                                       \<comment> \<open>not made yet\<close>
  | CStart
  | CMiss                                       \<comment> \<open>\<open>getOrCreate\<close> found no session\<close>
  | CMade nat bool                              \<comment> \<open>its session is open; whether it was resumed\<close>
  | CGot nat bool                               \<comment> \<open>\<open>getOrCreate\<close> is back; whether to seed\<close>
  | CReady nat "content_block list"             \<comment> \<open>about to push\<close>
  | CWait nat turn_req
  | CReturned "(nat \<times> turn_req) option" error

fun call_conv :: "api_call \<Rightarrow> gostring" where
  "call_conv (PromptCall conv _ _ _) = conv_key conv"
| "call_conv (ReactionCall conv _ _ _ _) = conv_key conv"
| "call_conv (CancelCall conv) = conv"

fun call_user :: "api_call \<Rightarrow> gostring" where
  "call_user (PromptCall _ user _ _) = user"
| "call_user (ReactionCall _ user _ _ _) = user"
| "call_user (CancelCall _) = []"

fun call_query :: "api_call \<Rightarrow> turn list" where
  "call_query (PromptCall _ _ query _) = query"
| "call_query _ = []"

text \<open>Calls that go on to \<open>getOrCreate\<close>.\<close>

fun wants_session :: "api_call \<Rightarrow> bool" where
  "wants_session (PromptCall _ _ query _) \<longleftrightarrow> latest_user_text query \<noteq> []"
| "wants_session (ReactionCall _ _ _ _ _) \<longleftrightarrow> True"
| "wants_session (CancelCall _) \<longleftrightarrow> False"

fun is_prompt :: "api_call \<Rightarrow> bool" where
  "is_prompt (PromptCall _ _ _ _) \<longleftrightarrow> True" | "is_prompt _ \<longleftrightarrow> False"

text \<open>The request a call pushes; the sink of a prompt is its own.\<close>

fun call_req :: "unicode \<Rightarrow> nat \<Rightarrow> api_call \<Rightarrow> content_block list \<Rightarrow> int \<Rightarrow> nat \<Rightarrow> turn_req" where
  "call_req U c (PromptCall _ _ _ opts) bs now i = user_req c (HttpSink c) opts bs now i"
| "call_req U c (ReactionCall conv _ msg kind action) bs now i =
     reaction_req U c (conv_key conv) msg kind action now i"
| "call_req U c (CancelCall _) bs now i = undefined"

section \<open>States\<close>

text \<open>What is fixed for a run. Opening a session and cancelling a turn find an agent that may answer
  anew each time (with the same capabilities), and a disk that may or may not make the directory.\<close>

record relay_world =
  rw_cfg :: router_config
  rw_agent :: agent_env
  rw_att :: att_env
  rw_unicode :: unicode

text \<open>\<open>ys_gc\<close> is the entry \<open>gcOnce\<close> is about to stop, while it holds the router's lock; \<open>ys_init\<close>
  is history: each session as it was opened.\<close>

record relay_state =
  ys_sessions :: "(gostring \<times> nat) list"
  ys_obj :: "nat \<Rightarrow> run_state"
  ys_init :: "nat \<Rightarrow> session_state"
  ys_next_obj :: nat
  ys_next_req :: nat
  ys_next_call :: nat
  ys_call :: "nat \<Rightarrow> api_call"
  ys_pc :: "nat \<Rightarrow> call_pc"
  ys_gc :: "(gostring \<times> nat) option"
  ys_out :: "(sink_ref \<times> sink_event) list"
  ys_calls :: "agent_call list"
  ys_files :: "gostring \<Rightarrow> gostring option"

definition relay_start :: relay_state where
  "relay_start = \<lparr>ys_sessions = [], ys_obj = (\<lambda>_. session_start quiet_session), ys_init = (\<lambda>_. quiet_session),
     ys_next_obj = 0, ys_next_req = 0, ys_next_call = 0, ys_call = (\<lambda>_. CancelCall []), ys_pc = (\<lambda>_. CIdle),
     ys_gc = None, ys_out = [], ys_calls = [], ys_files = (\<lambda>_. None)\<rparr>"

text \<open>The router as an operation on the session \<open>p\<close> sees it.\<close>

definition router_view :: "nat \<Rightarrow> relay_state \<Rightarrow> router" where
  "router_view p Y =
     \<lparr>ro_sessions = ys_sessions Y, ro_objs = (\<lambda>q. rn_st (ys_obj Y q)), ro_next_obj = ys_next_obj Y,
      ro_reqs = rn_reqs (ys_obj Y p), ro_next_req = ys_next_req Y, ro_calls = ys_calls Y,
      ro_events = ys_out Y, ro_files = ys_files Y\<rparr>"

lemma router_view_simps [simp]:
  "ro_sessions (router_view p Y) = ys_sessions Y" "ro_objs (router_view p Y) q = rn_st (ys_obj Y q)"
  "ro_next_obj (router_view p Y) = ys_next_obj Y" "ro_reqs (router_view p Y) = rn_reqs (ys_obj Y p)"
  "ro_next_req (router_view p Y) = ys_next_req Y" "ro_calls (router_view p Y) = ys_calls Y"
  "ro_events (router_view p Y) = ys_out Y" "ro_files (router_view p Y) = ys_files Y"
  by (simp_all add: router_view_def)

text \<open>The session objects made by \<open>open_session\<close>, their goroutines started.\<close>

definition adopt :: "router \<Rightarrow> relay_state \<Rightarrow> relay_state" where
  "adopt r Y = Y\<lparr>
     ys_obj := (\<lambda>q. if q < ys_next_obj Y then ys_obj Y q else session_start (ro_objs r q)),
     ys_init := (\<lambda>q. if q < ys_next_obj Y then ys_init Y q else ro_objs r q),
     ys_next_obj := ro_next_obj r, ys_calls := ro_calls r\<rparr>"

text \<open>A goroutine of the session \<open>p\<close> has moved: what it wrote and asked is appended.\<close>

definition put_run :: "nat \<Rightarrow> run_state \<Rightarrow> relay_state \<Rightarrow> relay_state" where
  "put_run p s Y = Y\<lparr>ys_obj := (ys_obj Y)(p := s),
     ys_out := ys_out Y @ drop (length (rn_out (ys_obj Y p))) (rn_out s),
     ys_calls := ys_calls Y @ drop (length (rn_calls (ys_obj Y p))) (rn_calls s)\<rparr>"

abbreviation set_pc :: "nat \<Rightarrow> call_pc \<Rightarrow> relay_state \<Rightarrow> relay_state" where
  "set_pc c pc Y \<equiv> Y\<lparr>ys_pc := (ys_pc Y)(c := pc)\<rparr>"

abbreviation tell :: "sink_ref \<Rightarrow> sink_event list \<Rightarrow> relay_state \<Rightarrow> relay_state" where
  "tell k es Y \<equiv> Y\<lparr>ys_out := ys_out Y @ map (Pair k) es\<rparr>"

text \<open>The call returns early: a prompt writes an error and \<open>Done\<close>, a reaction nothing.\<close>

definition give_up :: "nat \<Rightarrow> gostring \<Rightarrow> error \<Rightarrow> error \<Rightarrow> relay_state \<Rightarrow> relay_state" where
  "give_up c text e e' Y =
     (if is_prompt (ys_call Y c)
      then set_pc c (CReturned None e) (tell (HttpSink c) [EvError text ''user_caused_error'', EvDone] Y)
      else set_pc c (CReturned None e') Y)"

text \<open>The call after its \<open>push\<close>.\<close>

definition pushed :: "nat \<Rightarrow> nat \<Rightarrow> turn_req \<Rightarrow> bool \<Rightarrow> relay_state \<Rightarrow> relay_state" where
  "pushed c p req acc Y =
     (if \<not> acc then give_up c ''relay: session unavailable'' (Some ''session queue stopped'') None Y
      else if is_prompt (ys_call Y c) then set_pc c (CWait p req) Y
      else set_pc c (CReturned (Some (p, req)) None) Y)"

section \<open>Steps\<close>

datatype relay_actor = Client | Caller nat | Goroutine nat actor | Collector

inductive relay_step :: "relay_world \<Rightarrow> relay_actor \<Rightarrow> relay_state \<Rightarrow> relay_state \<Rightarrow> bool"
  for W :: relay_world where
  Arrive: "relay_step W Client Y
    (set_pc (ys_next_call Y) CStart (Y\<lparr>ys_call := (ys_call Y)(ys_next_call Y := call),
       ys_next_call := Suc (ys_next_call Y)\<rparr>))"
| Empty: "ys_pc Y c = CStart \<Longrightarrow> is_prompt (ys_call Y c) \<Longrightarrow> \<not> wants_session (ys_call Y c) \<Longrightarrow>
    relay_step W (Caller c) Y (give_up c ''empty user message'' (Some ''empty user message'') None Y)"
| Hit: "ys_pc Y c = CStart \<Longrightarrow> wants_session (ys_call Y c) \<Longrightarrow> ys_gc Y = None \<Longrightarrow>
    map_of (ys_sessions Y) (call_conv (ys_call Y c)) = Some p \<Longrightarrow>
    relay_step W (Caller c) Y (set_pc c (CGot p False) Y)"
| Miss: "ys_pc Y c = CStart \<Longrightarrow> wants_session (ys_call Y c) \<Longrightarrow> ys_gc Y = None \<Longrightarrow>
    map_of (ys_sessions Y) (call_conv (ys_call Y c)) = None \<Longrightarrow>
    relay_step W (Caller c) Y (set_pc c CMiss Y)"
| Refused: "ys_pc Y c = CMiss \<Longrightarrow>
    open_session (rw_cfg W) ag mkdir now (call_conv (ys_call Y c)) (call_user (ys_call Y c))
      (router_view 0 Y) = (Inl e, r) \<Longrightarrow> ag_caps ag = ag_caps (rw_agent W) \<Longrightarrow>
    relay_step W (Caller c) Y
      (give_up c (''relay: '' @ e) (Some e) (Some (''reaction: getOrCreate: '' @ e)) (adopt r Y))"
| Opened: "ys_pc Y c = CMiss \<Longrightarrow>
    open_session (rw_cfg W) ag mkdir now (call_conv (ys_call Y c)) (call_user (ys_call Y c))
      (router_view 0 Y) = (Inr (p, resumed), r) \<Longrightarrow> ag_caps ag = ag_caps (rw_agent W) \<Longrightarrow>
    relay_step W (Caller c) Y (set_pc c (CMade p resumed) (adopt r Y))"
| Install: "ys_pc Y c = CMade p resumed \<Longrightarrow> ys_gc Y = None \<Longrightarrow>
    create_finish (call_conv (ys_call Y c)) (call_query (ys_call Y c)) p resumed (router_view p Y) =
      Inr ((w, seed), r) \<Longrightarrow>
    relay_step W (Caller c) Y (set_pc c (CGot w seed)
      (Y\<lparr>ys_sessions := ro_sessions r,
         ys_obj := (ys_obj Y)(p := (ys_obj Y p)\<lparr>rn_st := ro_objs r p, rn_reqs := ro_reqs r\<rparr>)\<rparr>))"
| Blocks: "ys_pc Y c = CGot p seed \<Longrightarrow> is_prompt (ys_call Y c) \<Longrightarrow>
    prompt_blocks (rw_cfg W) (rw_agent W) (rw_att W) (call_query (ys_call Y c)) seed
      (ss_cwd (rn_st (ys_obj Y p))) (router_view p Y) = Inr (bs, r) \<Longrightarrow>
    relay_step W (Caller c) Y (set_pc c (CReady p bs) (Y\<lparr>ys_files := ro_files r\<rparr>))"
| Reaction: "ys_pc Y c = CGot p seed \<Longrightarrow> \<not> is_prompt (ys_call Y c) \<Longrightarrow>
    relay_step W (Caller c) Y (set_pc c (CReady p []) Y)"
| Submit: "ys_pc Y c = CReady p bs \<Longrightarrow>
    req = call_req (rw_unicode W) c (ys_call Y c) bs now (ys_next_req Y) \<Longrightarrow>
    push req (ss_queue (rn_st (ys_obj Y p))) (rn_reqs (ys_obj Y p)) = Inr (acc, q, h) \<Longrightarrow>
    relay_step W (Caller c) Y (pushed c p req acc
      (Y\<lparr>ys_next_req := Suc (ys_next_req Y),
         ys_obj := (ys_obj Y)(p := (upd_queue q (ys_obj Y p))\<lparr>rn_reqs := h,
           rn_used := (if acc then insert (rq_id req) (rn_used (ys_obj Y p)) else rn_used (ys_obj Y p))\<rparr>)\<rparr>))"
| Return: "ys_pc Y c = CWait p req \<Longrightarrow>
    prompt_result (rq_id req) ctx_err (router_view p Y) = Some res \<Longrightarrow>
    relay_step W (Caller c) Y (set_pc c (CReturned (Some (p, req)) res) Y)"
| Cancel: "ys_pc Y c = CStart \<Longrightarrow> ys_call Y c = CancelCall conv \<Longrightarrow> ys_gc Y = None \<Longrightarrow>
    cancel ag conv (router_view 0 Y) = (e, r) \<Longrightarrow>
    relay_step W (Caller c) Y (set_pc c (CReturned None e) (Y\<lparr>ys_calls := ro_calls r\<rparr>))"
| Move: "p < ys_next_obj Y \<Longrightarrow> a \<noteq> Outside \<Longrightarrow> session_step (rw_cfg W) (rw_agent W) a (ys_obj Y p) s \<Longrightarrow>
    relay_step W (Goroutine p a) Y (put_run p s Y)"
| Look: "ys_gc Y = None \<Longrightarrow> (conv, p) \<in> set (ys_sessions Y) \<Longrightarrow> idle (ss_queue (rn_st (ys_obj Y p))) \<Longrightarrow>
    relay_step W Collector Y (Y\<lparr>ys_gc := Some (conv, p),
      ys_obj := (ys_obj Y)(p := (ys_obj Y p)\<lparr>rn_gc := True\<rparr>)\<rparr>)"
| Evict: "ys_gc Y = Some (conv, p) \<Longrightarrow> stop_session p (router_view p Y) = Inr r \<Longrightarrow>
    relay_step W Collector Y (Y\<lparr>ys_gc := None,
      ys_sessions := filter (\<lambda>e. fst e \<noteq> conv) (ys_sessions Y),
      ys_obj := (ys_obj Y)(p := (ys_obj Y p)\<lparr>rn_st := ro_objs r p, rn_reqs := ro_reqs r, rn_gc := False\<rparr>)\<rparr>)"

inductive relay_reach :: "relay_world \<Rightarrow> relay_state \<Rightarrow> bool" for W :: relay_world where
  start: "relay_reach W relay_start"
| step: "relay_reach W Y \<Longrightarrow> relay_step W a Y Y' \<Longrightarrow> relay_reach W Y'"

inductive_cases client_cases: "relay_step W Client Y Y'"
inductive_cases caller_cases: "relay_step W (Caller c) Y Y'"
inductive_cases goroutine_cases: "relay_step W (Goroutine p a) Y Y'"
inductive_cases collector_cases: "relay_step W Collector Y Y'"

text \<open>The request a call has pushed, and the session it works with.\<close>

fun issued :: "call_pc \<Rightarrow> (nat \<times> turn_req) option" where
  "issued (CWait p req) = Some (p, req)"
| "issued (CReturned x e) = x"
| "issued _ = None"

fun target :: "call_pc \<Rightarrow> nat option" where
  "target (CGot p seed) = Some p"
| "target (CReady p bs) = Some p"
| "target (CWait p req) = Some p"
| "target _ = None"

end
