(* ===== verification/Relay_Invariant.thy ===== *)
theory Relay_Invariant
  imports Relay_Runs
begin

text \<open>
  The invariant of the running router (theory \<open>Relay_Runs\<close>): every session object is a reachable
  state of its own goroutines, so the theorems on one session apply to it; every request in a session
  was pushed by exactly one call, of the session's conversation; registered sessions are open; a
  session that is being created is known to its creator only; and what a prompt's sink has received
  comes from its session or from its own early return.
\<close>

section \<open>More on the goroutines of one session\<close>

definition known :: "run_state \<Rightarrow> turn_req set" where
  "known s = set (current (rn_pc s)) \<union> set (sq_q (ss_queue (rn_st s))) \<union> tl_req ` set (rn_log s)"

text \<open>What the session's own goroutines leave alone.\<close>

lemma move_frame:
  assumes "session_step cfg ag a s s'" "a \<noteq> Outside"
  shows "known s' \<subseteq> known s" "rn_used s' = rn_used s" "ss_run_stop (rn_st s') = ss_run_stop (rn_st s)"
    "rn_gc s' = rn_gc s" "ss_conv_id (rn_st s') = ss_conv_id (rn_st s)"
    "\<exists>evs. rn_out s' = rn_out s @ evs"
  using assms
  by (auto simp: known_def finish_in_flight_def turn_start_def elim!: session_step.cases)

lemma done_stable:
  assumes "session_step cfg ag a s s'" "reqs_ok s" "rs_done (rn_reqs s i)"
  shows "rn_reqs s' i = rn_reqs s i"
  using assms(1)
proof cases
  case (Push req acc q h)
  from Push(4) show ?thesis
    by (cases rule: push_cases) (use assms Push in auto)
next
  case (Stop q h)
  have "distinct (map rq_id (sq_q (ss_queue (rn_st s))))" "\<forall>r \<in> set (sq_q (ss_queue (rn_st s))). \<not> rs_done (rn_reqs s (rq_id r))"
    using assms(2) by (auto simp: reqs_ok_def pending_ok_def)
  with Stop assms(3) show ?thesis by (auto simp: stop_queue_def shed_all_Inr)
next
  case (Stale req now)
  then show ?thesis using assms by (auto simp: set_shed_def reqs_ok_def pending_ok_def)
next
  case (Conclude req res)
  then show ?thesis using assms by (cases res) (auto simp: set_err_def reqs_ok_def pending_ok_def)
qed (use assms in auto)

lemma unused_resting:
  assumes "session_reach cfg ag st s" "fresh_session st" "rn_used s = {}"
  shows "idle (ss_queue (rn_st s)) \<and> rn_pc s \<in> {RPop, RWait, RExit}"
  using assms
proof (induction rule: session_reach.induct)
  case start
  then show ?case by (simp add: session_start_def fresh_session_def new_session_queue_def idle_def)
next
  case (step s a s')
  have used: "rn_used s = {}" using step.hyps(2) step.prems(2) by cases (auto split: if_splits)
  with step.IH step.prems have ih: "idle (ss_queue (rn_st s))" "rn_pc s \<in> {RPop, RWait, RExit}" by auto
  from step.hyps(2) show ?case
  proof cases
    case (Push req acc q h)
    then have "\<not> acc" using step.prems(2) by (auto split: if_splits)
    with Push(4) have "q = ss_queue (rn_st s)" by (auto elim: push_cases)
    with Push ih show ?thesis by simp
  next
    case (Stop q h)
    with ih show ?thesis by (auto simp: idle_def stop_queue_def split: sum.splits)
  qed (use ih in \<open>auto simp: idle_def\<close>)
qed

section \<open>What the operations do to the state\<close>

lemma view_stop:
  assumes "stop_session p (router_view p Y) = Inr r"
  obtains q h where "stop_queue (ss_queue (rn_st (ys_obj Y p))) (rn_reqs (ys_obj Y p)) = Inr (q, h)"
    "\<not> ss_run_stop (rn_st (ys_obj Y p))" "ro_reqs r = h" "ro_sessions r = ys_sessions Y"
    "ro_objs r p = (rn_st (ys_obj Y p))\<lparr>ss_queue := q, ss_drain_stop := True, ss_run_stop := True\<rparr>"
proof -
  from assms obtain q h where "stop_queue (ss_queue (rn_st (ys_obj Y p))) (rn_reqs (ys_obj Y p)) = Inr (q, h)"
    by (auto simp: stop_session_def Let_def split: if_splits sum.splits)
  with assms show thesis
    by (intro that [of q h]) (auto simp: stop_session_def Let_def upd_session_def split: if_splits)
qed

lemma create_finish_cases:
  assumes "create_finish conv query p resumed (router_view p Y) = Inr ((w, seed), r)"
  obtains (won) "map_of (ys_sessions Y) conv = None" "w = p" "ro_sessions r = (conv, p) # ys_sessions Y"
      "ro_objs r p = rn_st (ys_obj Y p)" "ro_reqs r = rn_reqs (ys_obj Y p)"
      "seed \<longleftrightarrow> \<not> resumed \<and> 1 < length query"
  | (lost) "map_of (ys_sessions Y) conv = Some w" "\<not> seed" "stop_session p (router_view p Y) = Inr r"
proof (cases "map_of (ys_sessions Y) conv")
  case None
  with assms show ?thesis by (intro won) (auto simp: create_finish_def install_def)
next
  case (Some q)
  with assms show ?thesis by (intro lost) (auto simp: create_finish_def install_def split: sum.splits)
qed

text \<open>A session that \<open>open_session\<close> makes.\<close>

lemma open_session_new:
  assumes "open_session cfg ag mkdir now conv user r = (res, r')"
  shows "ro_next_obj r' = ro_next_obj r \<and> (\<exists>e. res = Inl e) \<or>
    ro_next_obj r' = Suc (ro_next_obj r) \<and> fresh_session (ro_objs r' (ro_next_obj r)) \<and>
      ss_conv_id (ro_objs r' (ro_next_obj r)) = conv \<and> (\<forall>p b. res = Inr (p, b) \<longrightarrow> p = ro_next_obj r)"
proof (cases "mkdir (conv_cwd cfg conv)")
  case (Some e)
  with assms show ?thesis by (auto simp: open_session_def Let_def)
next
  case None
  let ?n = "ro_next_obj r"
  let ?r1 = "(upd_session ?n (\<lambda>_. new_session_state now conv user (conv_cwd cfg conv)) r)\<lparr>ro_next_obj := Suc ?n\<rparr>"
  obtain sido r2 where t: "try_resume ag (conv_cwd cfg conv) ?r1 = (sido, r2)" by fastforce
  have "ro_next_obj (snd (try_resume ag cwd q)) = ro_next_obj q \<and> ro_objs (snd (try_resume ag cwd q)) = ro_objs q" for cwd q
    by (auto simp: try_resume_def Let_def log_calls_def split: sum.splits list.splits option.splits)
  from this [of "conv_cwd cfg conv" ?r1] have r2: "ro_next_obj r2 = Suc ?n" "ro_objs r2 = ro_objs ?r1"
    by (simp_all add: t)
  have fr: "fresh_session (new_session_state now conv user cwd)" "ss_conv_id (new_session_state now conv user cwd) = conv" for cwd
    by (simp_all add: fresh_session_def new_session_state_def)
  have up: "fresh_session (st\<lparr>ss_session_id := i, ss_pending_inline := b\<rparr>) = fresh_session st" for st i b
    by (simp add: fresh_session_def)
  from assms None t r2 fr up show ?thesis
    by (auto simp: open_session_def Let_def upd_session_def log_calls_def split: option.splits sum.splits)
qed

lemma give_up_simps [simp]:
  "ys_sessions (give_up c t e e' Y) = ys_sessions Y" "ys_obj (give_up c t e e' Y) = ys_obj Y"
  "ys_init (give_up c t e e' Y) = ys_init Y" "ys_next_obj (give_up c t e e' Y) = ys_next_obj Y"
  "ys_next_req (give_up c t e e' Y) = ys_next_req Y" "ys_next_call (give_up c t e e' Y) = ys_next_call Y"
  "ys_call (give_up c t e e' Y) = ys_call Y" "ys_gc (give_up c t e e' Y) = ys_gc Y"
  "ys_pc (give_up c t e e' Y) = (ys_pc Y)(c := CReturned None (if is_prompt (ys_call Y c) then e else e'))"
  by (simp_all add: give_up_def)

lemma pushed_simps [simp]:
  "ys_sessions (pushed c p req acc Y) = ys_sessions Y" "ys_obj (pushed c p req acc Y) = ys_obj Y"
  "ys_init (pushed c p req acc Y) = ys_init Y" "ys_next_obj (pushed c p req acc Y) = ys_next_obj Y"
  "ys_next_req (pushed c p req acc Y) = ys_next_req Y" "ys_next_call (pushed c p req acc Y) = ys_next_call Y"
  "ys_call (pushed c p req acc Y) = ys_call Y" "ys_gc (pushed c p req acc Y) = ys_gc Y"
  by (simp_all add: pushed_def)

text \<open>The place of the call after its push.\<close>

definition pushed_pc :: "api_call \<Rightarrow> nat \<Rightarrow> turn_req \<Rightarrow> bool \<Rightarrow> call_pc" where
  "pushed_pc call p req acc =
     (if \<not> acc then CReturned None (if is_prompt call then Some ''session queue stopped'' else None)
      else if is_prompt call then CWait p req else CReturned (Some (p, req)) None)"

lemma pushed_pc [simp]: "ys_pc (pushed c p req acc Y) = (ys_pc Y)(c := pushed_pc (ys_call Y c) p req acc)"
  by (simp add: pushed_def pushed_pc_def)

lemma issued_pushed_pc [simp]: "issued (pushed_pc call p req acc) = (if acc then Some (p, req) else None)"
  by (simp add: pushed_pc_def)

lemma put_run_simps [simp]:
  "ys_sessions (put_run p s Y) = ys_sessions Y" "ys_obj (put_run p s Y) = (ys_obj Y)(p := s)"
  "ys_init (put_run p s Y) = ys_init Y" "ys_next_obj (put_run p s Y) = ys_next_obj Y"
  "ys_next_req (put_run p s Y) = ys_next_req Y" "ys_next_call (put_run p s Y) = ys_next_call Y"
  "ys_call (put_run p s Y) = ys_call Y" "ys_gc (put_run p s Y) = ys_gc Y" "ys_pc (put_run p s Y) = ys_pc Y"
  "ys_files (put_run p s Y) = ys_files Y"
  by (simp_all add: put_run_def)

lemma adopt_simps [simp]:
  "ys_sessions (adopt r Y) = ys_sessions Y" "ys_next_obj (adopt r Y) = ro_next_obj r"
  "ys_next_req (adopt r Y) = ys_next_req Y" "ys_next_call (adopt r Y) = ys_next_call Y"
  "ys_call (adopt r Y) = ys_call Y" "ys_gc (adopt r Y) = ys_gc Y" "ys_pc (adopt r Y) = ys_pc Y"
  "ys_out (adopt r Y) = ys_out Y" "ys_files (adopt r Y) = ys_files Y"
  "q < ys_next_obj Y \<Longrightarrow> ys_obj (adopt r Y) q = ys_obj Y q"
  "q < ys_next_obj Y \<Longrightarrow> ys_init (adopt r Y) q = ys_init Y q"
  by (simp_all add: adopt_def)

section \<open>The invariant\<close>

text \<open>Calls that have got past the lookup.\<close>

definition engaged :: "call_pc \<Rightarrow> bool" where
  "engaged pc \<longleftrightarrow> (\<forall>e. pc \<notin> {CIdle, CStart, CReturned None e})"

definition sessions_ok :: "relay_world \<Rightarrow> relay_state \<Rightarrow> bool" where
  "sessions_ok W Y \<longleftrightarrow> (\<forall>p < ys_next_obj Y. fresh_session (ys_init Y p) \<and>
     session_reach (rw_cfg W) (rw_agent W) (ys_init Y p) (ys_obj Y p) \<and>
     rn_used (ys_obj Y p) \<subseteq> {..<ys_next_req Y} \<and>
     (\<forall>r \<in> known (ys_obj Y p). \<exists>c. issued (ys_pc Y c) = Some (p, r)))"

definition issued_ok :: "relay_world \<Rightarrow> relay_state \<Rightarrow> nat \<Rightarrow> nat \<Rightarrow> turn_req \<Rightarrow> bool" where
  "issued_ok W Y c p req \<longleftrightarrow> p < ys_next_obj Y \<and> ss_conv_id (rn_st (ys_obj Y p)) = call_conv (ys_call Y c) \<and>
     rq_id req \<in> rn_used (ys_obj Y p) \<and>
     (\<exists>bs now. req = call_req (rw_unicode W) c (ys_call Y c) bs now (rq_id req))"

definition calls_ok :: "relay_world \<Rightarrow> relay_state \<Rightarrow> bool" where
  "calls_ok W Y \<longleftrightarrow>
     (\<forall>c \<ge> ys_next_call Y. ys_pc Y c = CIdle) \<and>
     (\<forall>c. engaged (ys_pc Y c) \<longrightarrow> wants_session (ys_call Y c)) \<and>
     (\<forall>c p. target (ys_pc Y c) = Some p \<longrightarrow>
        p < ys_next_obj Y \<and> ss_conv_id (rn_st (ys_obj Y p)) = call_conv (ys_call Y c)) \<and>
     (\<forall>c p req. issued (ys_pc Y c) = Some (p, req) \<longrightarrow> issued_ok W Y c p req) \<and>
     (\<forall>c c' p p' r r'. issued (ys_pc Y c) = Some (p, r) \<and> issued (ys_pc Y c') = Some (p', r') \<and>
        rq_id r = rq_id r' \<longrightarrow> c = c')"

text \<open>A session its creator has not installed yet.\<close>

definition unborn :: "relay_state \<Rightarrow> nat \<Rightarrow> nat \<Rightarrow> bool" where
  "unborn Y c p \<longleftrightarrow> p < ys_next_obj Y \<and> ss_conv_id (rn_st (ys_obj Y p)) = call_conv (ys_call Y c) \<and>
     p \<notin> snd ` set (ys_sessions Y) \<and> rn_used (ys_obj Y p) = {} \<and> \<not> ss_run_stop (rn_st (ys_obj Y p)) \<and>
     \<not> rn_gc (ys_obj Y p) \<and> (\<forall>c'. target (ys_pc Y c') \<noteq> Some p) \<and> (\<forall>c' b. ys_pc Y c' = CMade p b \<longrightarrow> c' = c)"

definition map_ok :: "relay_state \<Rightarrow> bool" where
  "map_ok Y \<longleftrightarrow>
     distinct (map fst (ys_sessions Y)) \<and> distinct (map snd (ys_sessions Y)) \<and>
     (\<forall>(conv, p) \<in> set (ys_sessions Y). p < ys_next_obj Y \<and> ss_conv_id (rn_st (ys_obj Y p)) = conv \<and>
        \<not> ss_run_stop (rn_st (ys_obj Y p))) \<and>
     (\<forall>c p b. ys_pc Y c = CMade p b \<longrightarrow> unborn Y c p) \<and>
     (\<forall>conv p. ys_gc Y = Some (conv, p) \<longrightarrow> (conv, p) \<in> set (ys_sessions Y) \<and> rn_gc (ys_obj Y p))"

lemma calls_okD:
  assumes "calls_ok W Y"
  shows "ys_next_call Y \<le> c \<Longrightarrow> ys_pc Y c = CIdle"
    and "engaged (ys_pc Y c) \<Longrightarrow> wants_session (ys_call Y c)"
    and "target (ys_pc Y c) = Some p \<Longrightarrow> p < ys_next_obj Y"
    and "target (ys_pc Y c) = Some p \<Longrightarrow> ss_conv_id (rn_st (ys_obj Y p)) = call_conv (ys_call Y c)"
    and "issued (ys_pc Y c) = Some (p, req) \<Longrightarrow> issued_ok W Y c p req"
    and "issued (ys_pc Y c) = Some (p, r) \<Longrightarrow> issued (ys_pc Y c') = Some (p', r') \<Longrightarrow> rq_id r = rq_id r' \<Longrightarrow> c = c'"
  using assms unfolding calls_ok_def by blast+

lemma call_req_simps:
  "wants_session call \<Longrightarrow> rq_id (call_req U c call bs now i) = i"
  "is_prompt call \<Longrightarrow> is_user (call_req U c call bs now i) \<and> rq_sink (call_req U c call bs now i) = HttpSink c"
  "wants_session call \<Longrightarrow> \<not> is_prompt call \<Longrightarrow>
     is_reaction (call_req U c call bs now i) \<and> (\<exists>conv. rq_sink (call_req U c call bs now i) = DiscardSink conv)"
  by (cases call; simp add: user_req_def reaction_req_def)+

lemma run_ok_obj:
  assumes "sessions_ok W Y" "p < ys_next_obj Y"
  shows "run_ok (rw_cfg W) (rw_agent W) (ys_init Y p) (ys_obj Y p)" "history_ok (ys_obj Y p)"
  using assms reach_ok history_reach by (auto simp: sessions_ok_def)

text \<open>What a step does to the session objects: each existing one makes steps of its own, a new one
  is as \<open>open_session\<close> made it.\<close>

lemma one_step: "session_step cfg ag a s s' \<Longrightarrow> (some_step cfg ag)\<^sup>*\<^sup>* s s'"
  by (rule r_into_rtranclp) (auto simp: some_step_def)

lemma look_step:
  assumes "idle (ss_queue (rn_st s))" "\<not> ss_run_stop (rn_st s)"
  shows "some_step cfg ag s (s\<lparr>rn_gc := True\<rparr>)"
  using Check [OF assms] by (auto simp: some_step_def)

lemma evict_step:
  assumes "stop_session p (router_view p Y) = Inr r" "rn_gc (ys_obj Y p)"
  shows "some_step cfg ag (ys_obj Y p) ((ys_obj Y p)\<lparr>rn_st := ro_objs r p, rn_reqs := ro_reqs r, rn_gc := False\<rparr>)"
proof -
  from assms(1) obtain q h where "stop_queue (ss_queue (rn_st (ys_obj Y p))) (rn_reqs (ys_obj Y p)) = Inr (q, h)"
    "\<not> ss_run_stop (rn_st (ys_obj Y p))" "ro_reqs r = h"
    "ro_objs r p = (rn_st (ys_obj Y p))\<lparr>ss_queue := q, ss_drain_stop := True, ss_run_stop := True\<rparr>"
    by (rule view_stop)
  with Stop [OF assms(2) this(2,1), of cfg ag] show ?thesis by (auto simp: some_step_def)
qed

lemma lost_steps:
  assumes "stop_session p (router_view p Y) = Inr r" "idle (ss_queue (rn_st (ys_obj Y p)))" "\<not> rn_gc (ys_obj Y p)"
  shows "(some_step cfg ag)\<^sup>*\<^sup>* (ys_obj Y p) ((ys_obj Y p)\<lparr>rn_st := ro_objs r p, rn_reqs := ro_reqs r\<rparr>)"
proof -
  from assms(1) obtain q h where s: "stop_queue (ss_queue (rn_st (ys_obj Y p))) (rn_reqs (ys_obj Y p)) = Inr (q, h)"
    "\<not> ss_run_stop (rn_st (ys_obj Y p))" "ro_reqs r = h"
    "ro_objs r p = (rn_st (ys_obj Y p))\<lparr>ss_queue := q, ss_drain_stop := True, ss_run_stop := True\<rparr>"
    by (rule view_stop)
  let ?s = "(ys_obj Y p)\<lparr>rn_gc := True\<rparr>"
  have "some_step cfg ag (ys_obj Y p) ?s" by (rule look_step [OF assms(2) s(2)])
  moreover have "some_step cfg ag ?s (?s\<lparr>rn_st := ro_objs r p, rn_reqs := ro_reqs r, rn_gc := False\<rparr>)"
    using Stop [of ?s q h cfg ag] s by (auto simp: some_step_def)
  moreover have "?s\<lparr>rn_st := ro_objs r p, rn_reqs := ro_reqs r, rn_gc := False\<rparr> =
      (ys_obj Y p)\<lparr>rn_st := ro_objs r p, rn_reqs := ro_reqs r\<rparr>"
    using assms(3) by (cases "ys_obj Y p") simp
  ultimately show ?thesis by (metis rtranclp.simps)
qed

lemma objs_step:
  assumes "relay_step W a Y Y'" "sessions_ok W Y" "calls_ok W Y" "map_ok Y"
  shows "ys_next_obj Y \<le> ys_next_obj Y' \<and>
    (\<forall>p < ys_next_obj Y. (some_step (rw_cfg W) (rw_agent W))\<^sup>*\<^sup>* (ys_obj Y p) (ys_obj Y' p) \<and> ys_init Y' p = ys_init Y p) \<and>
    (\<forall>p. ys_next_obj Y \<le> p \<and> p < ys_next_obj Y' \<longrightarrow>
       ys_obj Y' p = session_start (ys_init Y' p) \<and> fresh_session (ys_init Y' p))"
  using assms(1)
proof cases
  case (Refused c ag mkdir now e r)
  from open_session_new [OF Refused(4)] Refused show ?thesis by (auto simp: adopt_def less_Suc_eq)
next
  case (Opened c ag mkdir now p resumed r)
  from open_session_new [OF Opened(4)] Opened show ?thesis by (auto simp: adopt_def less_Suc_eq)
next
  case (Install c p resumed w seed r)
  from Install(5) show ?thesis
  proof (cases rule: create_finish_cases)
    case won
    then have "(ys_obj Y p)\<lparr>rn_st := ro_objs r p, rn_reqs := ro_reqs r\<rparr> = ys_obj Y p" by simp
    with Install show ?thesis by auto
  next
    case lost
    have un: "unborn Y c p" using assms(4) Install(3) by (simp add: map_ok_def)
    then have "idle (ss_queue (rn_st (ys_obj Y p)))"
      using unused_resting assms(2) by (auto simp: sessions_ok_def unborn_def)
    with lost_steps [OF lost(3) this] un Install(2) show ?thesis by (auto simp: unborn_def)
  qed
next
  case (Submit c p bs req now acc q h)
  have "p < ys_next_obj Y" "wants_session (ys_call Y c)"
    using calls_okD(2,3) [OF assms(3), of c] Submit(3) by (auto simp: engaged_def)
  with assms(2) Submit(4) have "rq_id req \<notin> rn_used (ys_obj Y p)"
    by (auto simp: sessions_ok_def call_req_simps)
  from one_step [OF Push [OF this Submit(5), of "rw_cfg W" "rw_agent W"]] Submit(2) show ?thesis
    by auto
next
  case (Move p a s)
  with one_step [OF Move(5)] show ?thesis by auto
next
  case (Look conv p)
  have "\<not> ss_run_stop (rn_st (ys_obj Y p))" using assms(4) Look(4) by (auto simp: map_ok_def)
  with look_step [OF Look(5) this] Look(2) show ?thesis by auto
next
  case (Evict conv p r)
  have "rn_gc (ys_obj Y p)" using assms(4) Evict(3) by (auto simp: map_ok_def)
  with evict_step [OF Evict(4) this] Evict(2) show ?thesis by auto
qed (auto simp: give_up_def)

section \<open>Every step keeps it\<close>

lemma step_keeps:
  assumes "(some_step cfg ag)\<^sup>*\<^sup>* s s'"
  shows "ss_conv_id (rn_st s') = ss_conv_id (rn_st s) \<and> rn_used s \<subseteq> rn_used s' \<and>
    (ss_run_stop (rn_st s) \<longrightarrow> ss_run_stop (rn_st s'))"
  using assms
proof (induction rule: rtranclp_induct)
  case (step s1 s2)
  then obtain a where "session_step cfg ag a s1 s2" by (auto simp: some_step_def)
  then have "ss_conv_id (rn_st s2) = ss_conv_id (rn_st s1) \<and> rn_used s1 \<subseteq> rn_used s2 \<and>
      (ss_run_stop (rn_st s1) \<longrightarrow> ss_run_stop (rn_st s2))"
    by cases (auto simp: turn_start_def)
  with step.IH show ?case by auto
qed simp

lemma steps_reach:
  "(some_step cfg ag)\<^sup>*\<^sup>* s s' \<Longrightarrow> session_reach cfg ag st s \<Longrightarrow> session_reach cfg ag st s'"
  by (induction rule: rtranclp_induct) (auto simp: some_step_def intro: session_reach.step)

lemma steps_done:
  assumes "(some_step cfg ag)\<^sup>*\<^sup>* s s'" "session_reach cfg ag st s" "fresh_session st" "rs_done (rn_reqs s i)"
  shows "rn_reqs s' i = rn_reqs s i"
  using assms(1)
proof (induction rule: rtranclp_induct)
  case (step s1 s2)
  then obtain a where a: "session_step cfg ag a s1 s2" by (auto simp: some_step_def)
  have "reqs_ok s1" using reach_ok [OF steps_reach [OF step.hyps(1) assms(2)] assms(3)] by (simp add: run_ok_def)
  from done_stable [OF a this] step.IH assms(4) show ?case by simp
qed simp

text \<open>What changes between two states of the relay as far as the sessions are concerned.\<close>

definition evolves :: "relay_world \<Rightarrow> relay_state \<Rightarrow> relay_state \<Rightarrow> bool" where
  "evolves W Y Y' \<longleftrightarrow> ys_next_obj Y \<le> ys_next_obj Y' \<and>
    (\<forall>p < ys_next_obj Y. (some_step (rw_cfg W) (rw_agent W))\<^sup>*\<^sup>* (ys_obj Y p) (ys_obj Y' p) \<and> ys_init Y' p = ys_init Y p) \<and>
    (\<forall>p. ys_next_obj Y \<le> p \<and> p < ys_next_obj Y' \<longrightarrow>
       ys_obj Y' p = session_start (ys_init Y' p) \<and> fresh_session (ys_init Y' p))"

lemma evolvesD:
  assumes "evolves W Y Y'" "p < ys_next_obj Y"
  shows "p < ys_next_obj Y'" "ss_conv_id (rn_st (ys_obj Y' p)) = ss_conv_id (rn_st (ys_obj Y p))"
    "rn_used (ys_obj Y p) \<subseteq> rn_used (ys_obj Y' p)"
    "ss_run_stop (rn_st (ys_obj Y p)) \<Longrightarrow> ss_run_stop (rn_st (ys_obj Y' p))"
    "sessions_ok W Y \<Longrightarrow> rs_done (rn_reqs (ys_obj Y p) i) \<Longrightarrow> rn_reqs (ys_obj Y' p) i = rn_reqs (ys_obj Y p) i"
proof -
  have s: "(some_step (rw_cfg W) (rw_agent W))\<^sup>*\<^sup>* (ys_obj Y p) (ys_obj Y' p)"
    using assms by (simp add: evolves_def)
  show "p < ys_next_obj Y'" using assms by (simp add: evolves_def)
  from step_keeps [OF s]
  show "ss_conv_id (rn_st (ys_obj Y' p)) = ss_conv_id (rn_st (ys_obj Y p))"
    "rn_used (ys_obj Y p) \<subseteq> rn_used (ys_obj Y' p)"
    "ss_run_stop (rn_st (ys_obj Y p)) \<Longrightarrow> ss_run_stop (rn_st (ys_obj Y' p))" by blast+
  show "rn_reqs (ys_obj Y' p) i = rn_reqs (ys_obj Y p) i"
    if "sessions_ok W Y" "rs_done (rn_reqs (ys_obj Y p) i)"
    using steps_done [OF s] that assms(2) by (auto simp: sessions_ok_def)
qed

lemma issued_ok_step:
  "evolves W Y Y' \<Longrightarrow> ys_call Y' c = ys_call Y c \<Longrightarrow> issued_ok W Y c p req \<Longrightarrow> issued_ok W Y' c p req"
  by (auto simp: issued_ok_def evolvesD dest: evolvesD(3))

lemma calls_frame:
  assumes "calls_ok W Y" "evolves W Y Y'" "ys_next_call Y' = ys_next_call Y" "ys_call Y' = ys_call Y"
    "ys_pc Y' = (ys_pc Y)(c := pc')" "pc' \<noteq> ys_pc Y c \<Longrightarrow> ys_pc Y c \<noteq> CIdle"
    "engaged pc' \<Longrightarrow> wants_session (ys_call Y c)"
    "\<And>p. target pc' = Some p \<Longrightarrow> p < ys_next_obj Y \<and> ss_conv_id (rn_st (ys_obj Y p)) = call_conv (ys_call Y c)"
    "issued pc' = issued (ys_pc Y c)"
  shows "calls_ok W Y'"
proof -
  note D = calls_okD [OF assms(1)]
  have "issued (ys_pc Y' x) = issued (ys_pc Y x)" for x using assms(5,9) by simp
  moreover have "ys_pc Y' x = CIdle" if "ys_next_call Y' \<le> x" for x
    using that D(1) [of x] assms(3,5,6) by auto
  moreover have "p < ys_next_obj Y' \<and> ss_conv_id (rn_st (ys_obj Y' p)) = call_conv (ys_call Y x)"
    if "target (ys_pc Y' x) = Some p" for x p
    using that D(3,4) [of x p] assms(5,8) evolvesD(1,2) [OF assms(2)] by (auto split: if_splits)
  moreover have "wants_session (ys_call Y x)" if "engaged (ys_pc Y' x)" for x
    using that D(2) [of x] assms(5,7) by (auto split: if_splits)
  moreover have "issued_ok W Y' x p req" if "issued (ys_pc Y x) = Some (p, req)" for x p req
    using issued_ok_step [OF assms(2) _ D(5) [OF that]] assms(4) by simp
  ultimately show ?thesis using assms(1,4) unfolding calls_ok_def by auto
qed

lemma calls_same:
  assumes "calls_ok W Y" "evolves W Y Y'" "ys_next_call Y' = ys_next_call Y" "ys_call Y' = ys_call Y"
    "ys_pc Y' = ys_pc Y"
  shows "calls_ok W Y'"
  by (rule calls_frame [OF assms(1-4), where c = 0 and pc' = "ys_pc Y 0"])
    (use assms(5) calls_okD(2-4) [OF assms(1)] in auto)

lemma calls_submit:
  assumes "sessions_ok W Y" "calls_ok W Y" "evolves W Y Y'"
    and pc: "ys_pc Y c = CReady p bs"
    and req: "req = call_req (rw_unicode W) c (ys_call Y c) bs now (ys_next_req Y)"
    and Y': "Y' = pushed c p req acc (Y\<lparr>ys_next_req := Suc (ys_next_req Y),
         ys_obj := (ys_obj Y)(p := (upd_queue q (ys_obj Y p))\<lparr>rn_reqs := h,
           rn_used := (if acc then insert (rq_id req) (rn_used (ys_obj Y p)) else rn_used (ys_obj Y p))\<rparr>)\<rparr>)"
  shows "calls_ok W Y'"
proof -
  note D = calls_okD [OF assms(2)]
  have c: "p < ys_next_obj Y" "ss_conv_id (rn_st (ys_obj Y p)) = call_conv (ys_call Y c)"
    "wants_session (ys_call Y c)" using D(2-4) [of c] pc by (auto simp: engaged_def)
  have id: "rq_id req = ys_next_req Y" using c(3) by (simp add: req call_req_simps)
  have iss: "issued (ys_pc Y' x) = (if x = c then if acc then Some (p, req) else None else issued (ys_pc Y x))" for x
    by (simp add: Y' pc)
  have old: "rq_id r < ys_next_req Y" if "issued (ys_pc Y x) = Some (p', r)" for x p' r
    using D(5) [OF that] assms(1) by (auto simp: issued_ok_def sessions_ok_def)
  have "ys_pc Y' x = CIdle" if "ys_next_call Y' \<le> x" for x using that D(1) [of x] pc by (auto simp: Y')
  moreover have "wants_session (ys_call Y' x)" if "engaged (ys_pc Y' x)" for x
    using that D(2) [of x] c(3) by (auto simp: Y' split: if_splits)
  moreover have "p' < ys_next_obj Y' \<and> ss_conv_id (rn_st (ys_obj Y' p')) = call_conv (ys_call Y' x)"
    if "target (ys_pc Y' x) = Some p'" for x p'
    using that D(3,4) [of x p'] c by (auto simp: Y' pushed_pc_def split: if_splits)
  moreover have "issued_ok W Y' x p' r" if "issued (ys_pc Y' x) = Some (p', r)" for x p' r
  proof (cases "x = c")
    case True
    have "issued_ok W Y' c p req" if acc
      using c that id by (simp add: issued_ok_def Y') (use req in blast)
    with True that show ?thesis by (auto simp: iss split: if_splits)
  next
    case False
    with that D(5) [of x] issued_ok_step [OF assms(3)] show ?thesis by (simp add: iss) (simp add: Y')
  qed
  moreover have "x = x'" if "issued (ys_pc Y' x) = Some (p1, r)" "issued (ys_pc Y' x') = Some (p2, r')"
    "rq_id r = rq_id r'" for x x' p1 p2 r r'
    using that D(6) [of x p1 r x' p2 r'] old [of x p1 r] old [of x' p2 r'] id by (auto simp: iss split: if_splits)
  ultimately show ?thesis unfolding calls_ok_def by blast
qed

lemma calls_step:
  assumes "relay_step W a Y Y'" "sessions_ok W Y" "calls_ok W Y" "map_ok Y" "evolves W Y Y'"
  shows "calls_ok W Y'"
  using assms(1)
proof cases
  case (Arrive call)
  let ?n = "ys_next_call Y"
  note D = calls_okD [OF assms(3)]
  have n: "ys_pc Y ?n = CIdle" using D(1) by blast
  have "issued (ys_pc Y' x) = issued (ys_pc Y x)" "target (ys_pc Y' x) = target (ys_pc Y x)" for x
    using Arrive n by auto
  moreover have "ys_call Y' x = ys_call Y x" if "issued (ys_pc Y x) \<noteq> None \<or> target (ys_pc Y x) \<noteq> None" for x
    using Arrive n that by auto
  moreover have "wants_session (ys_call Y' x)" if "engaged (ys_pc Y' x)" for x
    using Arrive n that D(2) [of x] by (auto simp: engaged_def)
  moreover have "ys_pc Y' x = CIdle" if "ys_next_call Y' \<le> x" for x using Arrive that D(1) [of x] by auto
  ultimately show ?thesis using assms(3) issued_ok_step [OF assms(5)] Arrive(2)
    unfolding calls_ok_def by auto
next
  case (Empty c)
  show ?thesis
    by (rule calls_frame [OF assms(3,5), where c = c and pc' = "CReturned None (Some ''empty user message'')"])
      (simp_all add: Empty engaged_def)
next
  case (Hit c p)
  with assms(4) have "p < ys_next_obj Y \<and> ss_conv_id (rn_st (ys_obj Y p)) = call_conv (ys_call Y c)"
    by (auto simp: map_ok_def dest: map_of_SomeD)
  then show ?thesis
    by (intro calls_frame [OF assms(3,5), where c = c and pc' = "CGot p False"]) (simp_all add: Hit)
next
  case (Miss c)
  then show ?thesis
    by (intro calls_frame [OF assms(3,5), where c = c and pc' = CMiss]) simp_all
next
  case (Refused c ag mkdir now e r)
  show ?thesis
    by (rule calls_frame [OF assms(3,5), where c = c and pc' = "CReturned None
        (if is_prompt (ys_call Y c) then Some e else Some (''reaction: getOrCreate: '' @ e))"])
      (simp_all add: Refused engaged_def)
next
  case (Opened c ag mkdir now p resumed r)
  with calls_okD(2) [OF assms(3), of c] show ?thesis
    by (intro calls_frame [OF assms(3,5), where c = c and pc' = "CMade p resumed"]) (simp_all add: engaged_def)
next
  case (Install c p resumed w seed r)
  from Install(5) have w: "w < ys_next_obj Y \<and> ss_conv_id (rn_st (ys_obj Y w)) = call_conv (ys_call Y c)"
    by (cases rule: create_finish_cases)
      (use assms(4) Install(3) in \<open>auto simp: map_ok_def unborn_def dest: map_of_SomeD\<close>)
  show ?thesis
    by (rule calls_frame [OF assms(3,5), where c = c and pc' = "CGot w seed"])
      (use w calls_okD(2) [OF assms(3), of c] in \<open>simp_all add: Install(2,3) engaged_def\<close>)
next
  case (Blocks c p seed bs r)
  with calls_okD(2-4) [OF assms(3), of c] show ?thesis
    by (intro calls_frame [OF assms(3,5), where c = c and pc' = "CReady p bs"]) (simp_all add: engaged_def)
next
  case (Reaction c p seed)
  with calls_okD(2-4) [OF assms(3), of c] show ?thesis
    by (intro calls_frame [OF assms(3,5), where c = c and pc' = "CReady p []"]) (simp_all add: engaged_def)
next
  case (Submit c p bs req now acc q h)
  then show ?thesis using calls_submit [OF assms(2,3,5)] by blast
next
  case (Return c p req ctx_err res)
  with calls_okD(2) [OF assms(3), of c] show ?thesis
    by (intro calls_frame [OF assms(3,5), where c = c and pc' = "CReturned (Some (p, req)) res"])
      (simp_all add: engaged_def)
next
  case (Cancel c conv ag e r)
  show ?thesis
    by (rule calls_frame [OF assms(3,5), where c = c and pc' = "CReturned None e"])
      (simp_all add: Cancel engaged_def)
qed (rule calls_same [OF assms(3,5)]; simp)+

lemma issued_mono:
  assumes "relay_step W a Y Y'" "calls_ok W Y" "issued (ys_pc Y c) = Some x"
  shows "issued (ys_pc Y' c) = Some x"
  using assms(1)
proof cases
  case (Arrive call)
  with calls_okD(1) [OF assms(2), of "ys_next_call Y"] assms(3) show ?thesis by auto
qed (use assms(3) in auto)

lemma sessions_frame:
  assumes "sessions_ok W Y" "evolves W Y Y'" "ys_next_req Y \<le> ys_next_req Y'"
    "\<And>p. p < ys_next_obj Y \<Longrightarrow> rn_used (ys_obj Y' p) \<subseteq> {..<ys_next_req Y'}"
    "\<And>p r. p < ys_next_obj Y \<Longrightarrow> r \<in> known (ys_obj Y' p) \<Longrightarrow>
       r \<in> known (ys_obj Y p) \<or> (\<exists>c. issued (ys_pc Y' c) = Some (p, r))"
    "\<And>c x. issued (ys_pc Y c) = Some x \<Longrightarrow> issued (ys_pc Y' c) = Some x"
  shows "sessions_ok W Y'"
  unfolding sessions_ok_def
proof (intro allI impI)
  fix p assume p: "p < ys_next_obj Y'"
  show "fresh_session (ys_init Y' p) \<and> session_reach (rw_cfg W) (rw_agent W) (ys_init Y' p) (ys_obj Y' p) \<and>
      rn_used (ys_obj Y' p) \<subseteq> {..<ys_next_req Y'} \<and>
      (\<forall>r \<in> known (ys_obj Y' p). \<exists>c. issued (ys_pc Y' c) = Some (p, r))"
  proof (cases "p < ys_next_obj Y")
    case True
    with assms(1,2) have "fresh_session (ys_init Y' p)" "session_reach (rw_cfg W) (rw_agent W) (ys_init Y' p) (ys_obj Y' p)"
      by (auto simp: sessions_ok_def evolves_def intro: steps_reach)
    moreover have "\<exists>c. issued (ys_pc Y' c) = Some (p, r)" if "r \<in> known (ys_obj Y' p)" for r
      using assms(5) [OF True that] assms(1,6) True by (fastforce simp: sessions_ok_def)
    ultimately show ?thesis using assms(4) [OF True] by blast
  next
    case False
    with p assms(2) have "ys_obj Y' p = session_start (ys_init Y' p)" "fresh_session (ys_init Y' p)"
      by (auto simp: evolves_def)
    then show ?thesis
      by (auto simp: session_start_def known_def fresh_session_def new_session_queue_def
          intro: session_reach.start [unfolded session_start_def])
  qed
qed

lemma push_known:
  assumes "push req (ss_queue (rn_st s)) (rn_reqs s) = Inr (acc, q, h)"
  shows "known ((upd_queue q s)\<lparr>rn_reqs := h, rn_used := u\<rparr>) \<subseteq> (if acc then insert req (known s) else known s)"
  using assms by (cases rule: push_cases) (auto simp: known_def push_sheds_def)

lemma stop_known:
  assumes "stop_session p (router_view p Y) = Inr r"
  shows "known ((ys_obj Y p)\<lparr>rn_st := ro_objs r p, rn_reqs := h\<rparr>) \<subseteq> known (ys_obj Y p)"
    "known ((ys_obj Y p)\<lparr>rn_st := ro_objs r p, rn_reqs := h, rn_gc := g\<rparr>) \<subseteq> known (ys_obj Y p)"
  using assms by (auto simp: known_def stop_queue_def elim!: view_stop split: sum.splits)

lemma sessions_step:
  assumes "relay_step W a Y Y'" "sessions_ok W Y" "calls_ok W Y" "map_ok Y" "evolves W Y Y'"
  shows "sessions_ok W Y'"
proof -
  note mono = issued_mono [OF assms(1,3)]
  note frame = sessions_frame [OF assms(2,5) _ _ _ mono]
  have used: "x < ys_next_req Y" if "x \<in> rn_used (ys_obj Y p)" "p < ys_next_obj Y" for p x
    using assms(2) that by (auto simp: sessions_ok_def)
  from assms(1) show ?thesis
  proof cases
    case (Install c p resumed w seed r)
    from Install(5) show ?thesis
    proof (cases rule: create_finish_cases)
      case won
      then show ?thesis by (intro frame) (use used Install(2) in \<open>auto simp: known_def split: if_splits\<close>)
    next
      case lost
      with stop_known [OF lost(3)] show ?thesis
        by (intro frame) (use used Install(2) in \<open>auto split: if_splits\<close>)
    qed
  next
    case (Submit c p bs req now acc q h)
    have "wants_session (ys_call Y c)" using calls_okD(2) [OF assms(3), of c] Submit(3) by (auto simp: engaged_def)
    then have "rq_id req = ys_next_req Y" using Submit(4) by (simp add: call_req_simps)
    moreover have "known (ys_obj Y' p) \<subseteq> (if acc then insert req (known (ys_obj Y p)) else known (ys_obj Y p))"
      using push_known [OF Submit(5)] Submit(2) by simp
    moreover have "issued (ys_pc Y' c) = (if acc then Some (p, req) else None)" using Submit(2) by simp
    ultimately show ?thesis
      by (intro frame) (use used Submit(2) in \<open>auto simp: less_Suc_eq split: if_splits\<close>)
  next
    case (Move p a s)
    from move_frame(1,2) [OF Move(5,4)] show ?thesis
      by (intro frame) (use used Move(2) in \<open>auto split: if_splits\<close>)
  next
    case (Evict conv p r)
    with stop_known(2) [OF Evict(4), THEN subsetD] show ?thesis
      by (intro frame) (use used Evict(2) in \<open>auto split: if_splits\<close>)
  next
    case (Look conv p)
    then show ?thesis by (intro frame) (use used Look(2) in \<open>auto simp: known_def split: if_splits\<close>)
  qed (rule frame; use used in auto)+
qed

lemma map_okD:
  assumes "map_ok Y"
  shows "distinct (map fst (ys_sessions Y))" "distinct (map snd (ys_sessions Y))"
    and "(conv, p) \<in> set (ys_sessions Y) \<Longrightarrow> p < ys_next_obj Y"
    and "(conv, p) \<in> set (ys_sessions Y) \<Longrightarrow> ss_conv_id (rn_st (ys_obj Y p)) = conv"
    and "(conv, p) \<in> set (ys_sessions Y) \<Longrightarrow> \<not> ss_run_stop (rn_st (ys_obj Y p))"
    and "ys_pc Y c = CMade p b \<Longrightarrow> unborn Y c p"
    and "ys_gc Y = Some (conv, p) \<Longrightarrow> (conv, p) \<in> set (ys_sessions Y) \<and> rn_gc (ys_obj Y p)"
  using assms unfolding map_ok_def by blast+

lemma map_okI:
  assumes "distinct (map fst (ys_sessions Y))" "distinct (map snd (ys_sessions Y))"
    and "\<And>conv p. (conv, p) \<in> set (ys_sessions Y) \<Longrightarrow>
      p < ys_next_obj Y \<and> ss_conv_id (rn_st (ys_obj Y p)) = conv \<and> \<not> ss_run_stop (rn_st (ys_obj Y p))"
    and "\<And>c p b. ys_pc Y c = CMade p b \<Longrightarrow> unborn Y c p"
    and "\<And>conv p. ys_gc Y = Some (conv, p) \<Longrightarrow> (conv, p) \<in> set (ys_sessions Y) \<and> rn_gc (ys_obj Y p)"
  shows "map_ok Y"
  using assms unfolding map_ok_def by blast

text \<open>The parts of a session object the map's invariant is about.\<close>

definition same_flags :: "run_state \<Rightarrow> run_state \<Rightarrow> bool" where
  "same_flags s s' \<longleftrightarrow> ss_run_stop (rn_st s') = ss_run_stop (rn_st s) \<and> rn_gc s' = rn_gc s"

lemma unborn_frame:
  assumes "unborn Y c p" "evolves W Y Y'" "ys_call Y' c = ys_call Y c" "same_flags (ys_obj Y p) (ys_obj Y' p)"
    "rn_used (ys_obj Y' p) = rn_used (ys_obj Y p)" "p \<notin> snd ` set (ys_sessions Y')"
    "\<And>c'. target (ys_pc Y' c') = Some p \<Longrightarrow> target (ys_pc Y c') = Some p"
    "\<And>c' b. ys_pc Y' c' = CMade p b \<Longrightarrow> \<exists>b. ys_pc Y c' = CMade p b"
  shows "unborn Y' c p"
  using assms evolvesD(1,2) [OF assms(2), of p] unfolding unborn_def same_flags_def by (metis (no_types))

lemma map_frame:
  assumes "map_ok Y" "evolves W Y Y'" "ys_sessions Y' = ys_sessions Y" "ys_gc Y' = ys_gc Y"
    "\<And>p. p < ys_next_obj Y \<Longrightarrow> same_flags (ys_obj Y p) (ys_obj Y' p) \<and>
       (rn_used (ys_obj Y' p) = rn_used (ys_obj Y p) \<or> (\<exists>c. target (ys_pc Y c) = Some p))"
    "\<And>c p b. ys_pc Y' c = CMade p b \<Longrightarrow> ys_pc Y c = CMade p b \<and> ys_call Y' c = ys_call Y c"
    "\<And>c p. target (ys_pc Y' c) = Some p \<Longrightarrow> target (ys_pc Y c) = Some p \<or> p \<in> snd ` set (ys_sessions Y)"
  shows "map_ok Y'"
proof -
  note M = map_okD [OF assms(1)]
  have "p < ys_next_obj Y' \<and> ss_conv_id (rn_st (ys_obj Y' p)) = conv \<and> \<not> ss_run_stop (rn_st (ys_obj Y' p))"
    if "(conv, p) \<in> set (ys_sessions Y')" for conv p
    using that M(3-5) [of conv p] assms(3,5) evolvesD(1,2) [OF assms(2)] by (auto simp: same_flags_def)
  moreover have "unborn Y' c p" if "ys_pc Y' c = CMade p b" for c p b
  proof -
    from that assms(6) have c: "ys_pc Y c = CMade p b" "ys_call Y' c = ys_call Y c" by blast+
    have un: "unborn Y c p" by (rule M(6) [OF c(1)])
    with assms(5) [of p] have "same_flags (ys_obj Y p) (ys_obj Y' p)" "rn_used (ys_obj Y' p) = rn_used (ys_obj Y p)"
      by (auto simp: unborn_def)
    moreover have "p \<notin> snd ` set (ys_sessions Y')" using un assms(3) by (simp add: unborn_def)
    moreover have "target (ys_pc Y c') = Some p" if "target (ys_pc Y' c') = Some p" for c'
      using assms(7) [OF that] un by (auto simp: unborn_def)
    moreover have "\<exists>b. ys_pc Y c' = CMade p b" if "ys_pc Y' c' = CMade p b'" for c' b'
      using assms(6) [OF that] by blast
    ultimately show ?thesis by (rule unborn_frame [OF un assms(2) c(2)])
  qed
  moreover have "(conv, p) \<in> set (ys_sessions Y') \<and> rn_gc (ys_obj Y' p)" if "ys_gc Y' = Some (conv, p)" for conv p
    using that M(3,7) [of conv p] assms(3,4,5) by (auto simp: same_flags_def)
  ultimately show ?thesis using M(1,2) assms(3) unfolding map_ok_def by auto
qed

lemma distinct_map_filterI: "distinct (map f xs) \<Longrightarrow> distinct (map f (filter P xs))"
  by (induction xs) auto

text \<open>After an installation: the sessions still in the making, and the new map.\<close>

lemma install_unborn:
  assumes "map_ok Y" "evolves W Y Y'" "ys_pc Y c = CMade p resumed" "ys_gc Y = None"
    and fin: "create_finish (call_conv (ys_call Y c)) query p resumed (router_view p Y) = Inr ((w, seed), r)"
    and Y': "Y' = set_pc c (CGot w seed) (Y\<lparr>ys_sessions := ro_sessions r,
         ys_obj := (ys_obj Y)(p := (ys_obj Y p)\<lparr>rn_st := ro_objs r p, rn_reqs := ro_reqs r\<rparr>)\<rparr>)"
  shows "ys_pc Y' x = CMade q b \<Longrightarrow> ys_pc Y x = CMade q b \<and> x \<noteq> c \<and> unborn Y x q \<and> q \<noteq> p"
    and "ys_pc Y' x = CMade q b \<Longrightarrow> q \<notin> snd ` set (ys_sessions Y') \<Longrightarrow> unborn Y' x q"
proof -
  note M = map_okD [OF assms(1)]
  have un: "unborn Y c p" by (rule M(6) [OF assms(3)])
  have other: "unborn Y x q" "q \<noteq> p" if "ys_pc Y x = CMade q b" "x \<noteq> c" for x q b
    using M(6) [OF that(1)] M(6) [OF assms(3)] that assms(3) by (auto simp: unborn_def)
  from fin have w: "w = p \<or> w \<in> snd ` set (ys_sessions Y)"
    by (cases rule: create_finish_cases) (auto simp: image_iff dest!: map_of_SomeD intro: bexI [rotated])
  show old: "ys_pc Y x = CMade q b \<and> x \<noteq> c \<and> unborn Y x q \<and> q \<noteq> p" if "ys_pc Y' x = CMade q b" for x q b
    using that other by (auto simp: Y' split: if_splits)
  show "unborn Y' x q" if "ys_pc Y' x = CMade q b" "q \<notin> snd ` set (ys_sessions Y')" for x q b
  proof (rule unborn_frame [OF _ assms(2)])
    from that(1) have x: "ys_pc Y x = CMade q b" "x \<noteq> c" by (auto simp: Y' split: if_splits)
    show "unborn Y x q" using other [OF x] by simp
    then have nw: "q \<noteq> w" using w other [OF x] by (auto simp: unborn_def)
    show "target (ys_pc Y c') = Some q" if "target (ys_pc Y' c') = Some q" for c'
      using that nw by (auto simp: Y' split: if_splits)
    show "\<exists>b. ys_pc Y c' = CMade q b" if "ys_pc Y' c' = CMade q b'" for c' b'
      using that by (auto simp: Y' split: if_splits)
    show "same_flags (ys_obj Y q) (ys_obj Y' q)" "rn_used (ys_obj Y' q) = rn_used (ys_obj Y q)"
      using other(2) [OF x] by (simp_all add: Y' same_flags_def)
  qed (use that in \<open>simp_all add: Y'\<close>)
qed

lemma map_install:
  assumes "map_ok Y" "evolves W Y Y'" "ys_pc Y c = CMade p resumed" "ys_gc Y = None"
    and fin: "create_finish (call_conv (ys_call Y c)) query p resumed (router_view p Y) = Inr ((w, seed), r)"
    and Y': "Y' = set_pc c (CGot w seed) (Y\<lparr>ys_sessions := ro_sessions r,
         ys_obj := (ys_obj Y)(p := (ys_obj Y p)\<lparr>rn_st := ro_objs r p, rn_reqs := ro_reqs r\<rparr>)\<rparr>)"
  shows "map_ok Y'"
proof -
  note M = map_okD [OF assms(1)]
  have un: "unborn Y c p" by (rule M(6) [OF assms(3)])
  note ob = install_unborn [OF assms]
  from fin show ?thesis
  proof (cases rule: create_finish_cases)
    case won
    show ?thesis
    proof (rule map_okI)
      show "distinct (map fst (ys_sessions Y'))" using M(1) won(1,3) by (simp add: Y' map_of_eq_None_iff)
      show "distinct (map snd (ys_sessions Y'))" using M(2) un won(3) by (simp add: Y' unborn_def)
      show "q < ys_next_obj Y' \<and> ss_conv_id (rn_st (ys_obj Y' q)) = conv \<and> \<not> ss_run_stop (rn_st (ys_obj Y' q))"
        if "(conv, q) \<in> set (ys_sessions Y')" for conv q
        using that M(3-5) [of conv q] un won(3,4) by (auto simp: Y' unborn_def)
      show "unborn Y' x q" if x: "ys_pc Y' x = CMade q b" for x q b
      proof (rule ob(2) [OF x])
        from ob(1) [OF x] won(3) show "q \<notin> snd ` set (ys_sessions Y')" by (simp add: Y' unborn_def)
      qed
    qed (use assms(4) in \<open>simp add: Y'\<close>)
  next
    case lost
    from lost(3) have ss: "ro_sessions r = ys_sessions Y" by (rule view_stop)
    show ?thesis
    proof (rule map_okI)
      show "distinct (map fst (ys_sessions Y'))" "distinct (map snd (ys_sessions Y'))"
        using M(1,2) ss by (simp_all add: Y')
      show "q < ys_next_obj Y' \<and> ss_conv_id (rn_st (ys_obj Y' q)) = conv \<and> \<not> ss_run_stop (rn_st (ys_obj Y' q))"
        if q: "(conv, q) \<in> set (ys_sessions Y')" for conv q
      proof -
        have m: "(conv, q) \<in> set (ys_sessions Y)" using q ss by (simp add: Y')
        with un have "q \<noteq> p" by (force simp: unborn_def)
        with M(3-5) [OF m] show ?thesis by (simp add: Y')
      qed
      show "unborn Y' x q" if x: "ys_pc Y' x = CMade q b" for x q b
      proof (rule ob(2) [OF x])
        from ob(1) [OF x] ss show "q \<notin> snd ` set (ys_sessions Y')" by (simp add: Y' unborn_def)
      qed
    qed (use assms(4) in \<open>simp add: Y'\<close>)
  qed
qed

lemma map_evict:
  assumes "map_ok Y" "evolves W Y Y'" "ys_gc Y = Some (conv, p)" "stop_session p (router_view p Y) = Inr r"
    and Y': "Y' = Y\<lparr>ys_gc := None, ys_sessions := filter (\<lambda>e. fst e \<noteq> conv) (ys_sessions Y),
      ys_obj := (ys_obj Y)(p := (ys_obj Y p)\<lparr>rn_st := ro_objs r p, rn_reqs := ro_reqs r, rn_gc := False\<rparr>)\<rparr>"
  shows "map_ok Y'"
proof -
  note M = map_okD [OF assms(1)]
  have p: "(conv, p) \<in> set (ys_sessions Y)" using M(7) [OF assms(3)] by blast
  have neq: "q \<noteq> p" if "(conv', q) \<in> set (ys_sessions Y)" "conv' \<noteq> conv" for conv' q
    using M(4) [OF p] M(4) [OF that(1)] that(2) by auto
  show ?thesis
  proof (rule map_okI)
    show "distinct (map fst (ys_sessions Y'))" "distinct (map snd (ys_sessions Y'))"
      using M(1,2) by (simp_all add: Y' distinct_map_filterI)
    show "q < ys_next_obj Y' \<and> ss_conv_id (rn_st (ys_obj Y' q)) = conv' \<and> \<not> ss_run_stop (rn_st (ys_obj Y' q))"
      if "(conv', q) \<in> set (ys_sessions Y')" for conv' q
      using that M(3-5) [of conv' q] neq [of conv' q] by (auto simp: Y')
    show "unborn Y' c q" if "ys_pc Y' c = CMade q b" for c q b
    proof (rule unborn_frame [OF _ assms(2)])
      show un: "unborn Y c q" using that M(6) by (simp add: Y')
      then have "q \<noteq> p" using p by (force simp: unborn_def)
      then show "same_flags (ys_obj Y q) (ys_obj Y' q)" "rn_used (ys_obj Y' q) = rn_used (ys_obj Y q)"
        by (simp_all add: Y' same_flags_def)
      show "q \<notin> snd ` set (ys_sessions Y')" using un by (auto simp: unborn_def Y')
    qed (simp_all add: Y')
  qed (simp add: Y')
qed

lemma map_look:
  assumes "map_ok Y" "evolves W Y Y'" "(conv, p) \<in> set (ys_sessions Y)"
    and Y': "Y' = Y\<lparr>ys_gc := Some (conv, p), ys_obj := (ys_obj Y)(p := (ys_obj Y p)\<lparr>rn_gc := True\<rparr>)\<rparr>"
  shows "map_ok Y'"
proof -
  note M = map_okD [OF assms(1)]
  show ?thesis
  proof (rule map_okI)
    show "q < ys_next_obj Y' \<and> ss_conv_id (rn_st (ys_obj Y' q)) = conv' \<and> \<not> ss_run_stop (rn_st (ys_obj Y' q))"
      if "(conv', q) \<in> set (ys_sessions Y')" for conv' q
      using that M(3-5) [of conv' q] by (auto simp: Y')
    show "unborn Y' c q" if "ys_pc Y' c = CMade q b" for c q b
    proof (rule unborn_frame [OF _ assms(2)])
      show un: "unborn Y c q" using that M(6) by (simp add: Y')
      then have "q \<noteq> p" using assms(3) by (force simp: unborn_def)
      then show "same_flags (ys_obj Y q) (ys_obj Y' q)" "rn_used (ys_obj Y' q) = rn_used (ys_obj Y q)"
        by (simp_all add: Y' same_flags_def)
      show "q \<notin> snd ` set (ys_sessions Y')" using un by (auto simp: unborn_def Y')
    qed (simp_all add: Y')
  qed (use M(1,2) assms(3) in \<open>simp_all add: Y'\<close>)
qed

text \<open>The session \<open>getOrCreate\<close> has just opened is known to its creator only.\<close>

lemma map_opened:
  assumes "map_ok Y" "calls_ok W Y" "evolves W Y Y'" "ys_pc Y c = CMiss"
    and op: "open_session cfg ag mkdir now (call_conv (ys_call Y c)) user (router_view 0 Y) = (Inr (p, resumed), r)"
    and Y': "Y' = set_pc c (CMade p resumed) (adopt r Y)"
  shows "map_ok Y'"
proof -
  note M = map_okD [OF assms(1)]
  from open_session_new [OF op] have p: "p = ys_next_obj Y" "ro_next_obj r = Suc p"
    "fresh_session (ro_objs r p)" "ss_conv_id (ro_objs r p) = call_conv (ys_call Y c)" by auto
  have new: "ys_obj Y' p = session_start (ro_objs r p)" using p(1) by (simp add: Y' adopt_def)
  have nt: "target (ys_pc Y x) \<noteq> Some p" "ys_pc Y x \<noteq> CMade p b" for x b
    using calls_okD(3) [OF assms(2), of x p] M(6) [of x p b] p(1) by (auto simp: unborn_def)
  have old: "q \<noteq> p" "ys_obj Y' q = ys_obj Y q" if "q < ys_next_obj Y" for q using that p(1) by (simp_all add: Y')
  show ?thesis
  proof (rule map_okI)
    show "q < ys_next_obj Y' \<and> ss_conv_id (rn_st (ys_obj Y' q)) = conv \<and> \<not> ss_run_stop (rn_st (ys_obj Y' q))"
      if "(conv, q) \<in> set (ys_sessions Y')" for conv q
      using that M(3-5) [of conv q] p(1,2) old [of q] by (simp add: Y')
    show "unborn Y' x q" if x: "ys_pc Y' x = CMade q b" for x q b
    proof (cases "x = c")
      case True
      with x have q: "q = p" by (simp add: Y')
      have "p \<notin> snd ` set (ys_sessions Y')" using M(3) p(1) by (force simp: Y')
      with nt p(2-4) new show ?thesis
        by (auto simp: unborn_def q True Y' session_start_def fresh_session_def)
    next
      case False
      with x have un: "unborn Y x q" using M(6) by (simp add: Y')
      then have "q < ys_next_obj Y" by (simp add: unborn_def)
      from old [OF this] un False nt show ?thesis
        by (intro unborn_frame [OF un assms(3)])
          (auto simp: Y' same_flags_def unborn_def split: if_splits)
    qed
    show "(conv, q) \<in> set (ys_sessions Y') \<and> rn_gc (ys_obj Y' q)" if "ys_gc Y' = Some (conv, q)" for conv q
      using that M(3,7) [of conv q] old [of q] by (simp add: Y')
  qed (use M(1,2) in \<open>simp_all add: Y'\<close>)
qed

lemma map_step:
  assumes "relay_step W a Y Y'" "sessions_ok W Y" "calls_ok W Y" "map_ok Y" "evolves W Y Y'"
  shows "map_ok Y'"
proof -
  note frame = map_frame [OF assms(4,5)]
  from assms(1) show ?thesis
  proof cases
    case (Arrive call)
    with calls_okD(1) [OF assms(3), of "ys_next_call Y"] show ?thesis
      by (intro frame) (auto simp: same_flags_def split: if_splits)
  next
    case (Hit c p)
    then have "p \<in> snd ` set (ys_sessions Y)" by (force dest: map_of_SomeD)
    with Hit(2,3) show ?thesis by (intro frame) (auto simp: same_flags_def split: if_splits)
  next
    case (Opened c ag mkdir now p resumed r)
    from map_opened [OF assms(4,3,5) Opened(3,4,2)] show ?thesis .
  next
    case (Install c p resumed w seed r)
    from map_install [OF assms(4,5) Install(3,4,5,2)] show ?thesis .
  next
    case (Submit c p bs req now acc q h)
    have "\<exists>c. target (ys_pc Y c) = Some p" using Submit(3) by (intro exI [of _ c]) simp
    with Submit(2,3) show ?thesis
      by (intro frame) (auto simp: same_flags_def pushed_pc_def split: if_splits)
  next
    case (Move p a s)
    from move_frame(2-4) [OF Move(5,4)] Move(2) show ?thesis
      by (intro frame) (auto simp: same_flags_def split: if_splits)
  next
    case (Look conv p)
    from map_look [OF assms(4,5) Look(4,2)] show ?thesis .
  next
    case (Evict conv p r)
    from map_evict [OF assms(4,5) Evict(3,4,2)] show ?thesis .
  qed (rule frame; auto simp: same_flags_def split: if_splits)+
qed

definition relay_ok :: "relay_world \<Rightarrow> relay_state \<Rightarrow> bool" where
  "relay_ok W Y \<longleftrightarrow> sessions_ok W Y \<and> calls_ok W Y \<and> map_ok Y"

lemma relay_ok_start: "relay_ok W relay_start"
  by (simp add: relay_ok_def relay_start_def sessions_ok_def calls_ok_def map_ok_def engaged_def)

lemma relay_ok_step:
  assumes "relay_step W a Y Y'" "relay_ok W Y"
  shows "relay_ok W Y'" "evolves W Y Y'"
proof -
  from assms(2) have ok: "sessions_ok W Y" "calls_ok W Y" "map_ok Y" by (simp_all add: relay_ok_def)
  show ev: "evolves W Y Y'" using objs_step [OF assms(1) ok] by (simp add: evolves_def)
  from sessions_step [OF assms(1) ok ev] calls_step [OF assms(1) ok ev] map_step [OF assms(1) ok ev]
  show "relay_ok W Y'" by (simp add: relay_ok_def)
qed

lemma relay_reach_ok: "relay_reach W Y \<Longrightarrow> relay_ok W Y"
  by (induction rule: relay_reach.induct) (blast intro: relay_ok_start relay_ok_step)+

end
