(* ===== verification/Relay_Example.thy ===== *)
theory Relay_Example
  imports Relay_Runs
begin

text \<open>
  Concrete runs of the relay: a first query on a new conversation, from its arrival to the return
  of \<open>Prompt\<close>, with one notification of the agent; a second query that is queued behind it; a first
  reaction. The theorems on all runs are applied to them.
\<close>

section \<open>One turn of a session\<close>

definition own_step :: "router_config \<Rightarrow> agent_env \<Rightarrow> run_state \<Rightarrow> run_state \<Rightarrow> bool" where
  "own_step cfg ag s s' \<longleftrightarrow> (\<exists>a. a \<noteq> Outside \<and> session_step cfg ag a s s')"

lemma own_stepI: "session_step cfg ag a s s' \<Longrightarrow> a \<noteq> Outside \<Longrightarrow> own_step cfg ag s s'"
  by (auto simp: own_step_def)

text \<open>Where the session stands: the runner, the channel, the drain's turn, the acknowledgements, the
  notifications of the turn and the history.\<close>

definition stands ::
  "nat \<Rightarrow> runner_pc \<Rightarrow> chunk_msg list \<Rightarrow> turn_def option \<Rightarrow> nat set \<Rightarrow> session_update list \<Rightarrow> turn_log list \<Rightarrow> run_state \<Rightarrow> bool" where
  "stands i pc ch td ak us lg s \<longleftrightarrow> rn_pc s = pc \<and> rn_chan s = ch \<and> dr_td (ss_drain (rn_st s)) = td \<and>
     rn_acked s = ak \<and> rn_upd s = us \<and> rn_log s = lg \<and> \<not> rn_drain_dead s \<and> \<not> ss_run_stop (rn_st s) \<and>
     \<not> rs_done (rn_reqs s i)"

lemma begin_turn_run:
  assumes "stands (rq_id req) RPop [] td ak us lg s" "sq_q (ss_queue (rn_st s)) = [req]" "\<not> stale_reaction 0 req"
  shows "\<exists>s'. (own_step cfg ag)\<^sup>*\<^sup>* s s' \<and> ss_queue (rn_st s') = (ss_queue (rn_st s))\<lparr>sq_q := [], sq_in_flight := True\<rparr> \<and>
    stands (rq_id req) (RPrompt req) [] (Some (turn_def_of req)) ak [] lg s'"
proof -
  let ?q = "(ss_queue (rn_st s))\<lparr>sq_q := [], sq_in_flight := True\<rparr>"
  have a: "rn_pc s = RPop" "try_pop (ss_queue (rn_st s)) = Some (req, ?q)"
    using assms by (simp_all add: stands_def)
  from own_stepI [OF Pop [OF a, of cfg ag]] obtain s1 where s1: "own_step cfg ag s s1" "stands (rq_id req) (RTurn req) [] td ak us lg s1"
    "ss_queue (rn_st s1) = ?q"
    using assms by (auto simp: stands_def)
  have b: "rn_pc s1 = RTurn req" "\<not> stale_reaction 0 req" using s1(2) assms(3) by (simp_all add: stands_def)
  from own_stepI [OF Options [OF b, of cfg ag]] obtain s2 bs where s2: "own_step cfg ag s1 s2"
    "stands (rq_id req) (RBegin req bs) [] td ak us lg s2" "ss_queue (rn_st s2) = ?q"
    using s1(2,3) by (auto simp: stands_def turn_start_def)
  have c: "rn_pc s2 = RBegin req bs" "length (rn_chan s2) < chunk_cap" using s2(2) by (simp_all add: stands_def chunk_cap_def)
  from own_stepI [OF Begin [OF c, of cfg ag]] obtain s3 where s3: "own_step cfg ag s2 s3"
    "stands (rq_id req) (RPrompt req) [MsgBeginTurn (turn_def_of req)] td ak [] lg s3" "ss_queue (rn_st s3) = ?q"
    using s2(2,3) by (auto simp: stands_def)
  have d: "\<not> rn_drain_dead s3" "rn_chan s3 = MsgBeginTurn (turn_def_of req) # []" using s3(2) by (simp_all add: stands_def)
  obtain dr evs where e: "drain_step (MsgBeginTurn (turn_def_of req)) (ss_drain (rn_st s3)) = (dr, evs, None)"
    "dr_td dr = Some (turn_def_of req)" by simp
  from own_stepI [OF Receive [OF d e(1), of cfg ag]] obtain s4 where s4: "own_step cfg ag s3 s4"
    "stands (rq_id req) (RPrompt req) [] (Some (turn_def_of req)) ak [] lg s4" "ss_queue (rn_st s4) = ?q"
    using s3(2,3) e(2) by (auto simp: stands_def)
  from s1(1) s2(1) s3(1) s4 have "(own_step cfg ag)\<^sup>*\<^sup>* s s4"
    by (meson converse_rtranclp_into_rtranclp rtranclp.rtrancl_refl)
  with s4 show ?thesis by blast
qed

lemma answer_run:
  assumes "stands (rq_id req) (RPrompt req) [] (Some td) ak [] lg s"
  shows "\<exists>s'. (own_step cfg ag)\<^sup>*\<^sup>* s s' \<and> stands (rq_id req) (REnd req (Inr EndTurn)) [] (Some td) ak [u] lg s'"
proof -
  have a: "length (rn_chan s) < chunk_cap" using assms by (simp add: stands_def chunk_cap_def)
  from own_stepI [OF Update [OF a, of cfg ag u]] obtain s1 where s1: "own_step cfg ag s s1"
    "stands (rq_id req) (RPrompt req) [MsgNotif u] (Some td) ak [u] lg s1"
    using assms by (auto simp: stands_def)
  have b: "\<not> rn_drain_dead s1" "rn_chan s1 = MsgNotif u # []" using s1(2) by (simp_all add: stands_def)
  obtain dr evs where e: "drain_step (MsgNotif u) (ss_drain (rn_st s1)) = (dr, evs, None)" "dr_td dr = Some td"
    using s1(2) by (cases "drain_process_chunk u td (dr_first (ss_drain (rn_st s1))) (dr_mode (ss_drain (rn_st s1)))")
      (auto simp: stands_def)
  from own_stepI [OF Receive [OF b e(1), of cfg ag]] obtain s2 where s2: "own_step cfg ag s1 s2"
    "stands (rq_id req) (RPrompt req) [] (Some td) ak [u] lg s2"
    using s1(2) e(2) by (auto simp: stands_def)
  have c: "rn_pc s2 = RPrompt req" using s2(2) by (simp add: stands_def)
  from own_stepI [OF session_step.Return [OF c, of cfg ag "Inr EndTurn"]] obtain s3 where s3: "own_step cfg ag s2 s3"
    "stands (rq_id req) (REnd req (Inr EndTurn)) [] (Some td) ak [u] lg s3"
    using s2(2) by (auto simp: stands_def)
  from s1(1) s2(1) s3 show ?thesis by (meson converse_rtranclp_into_rtranclp rtranclp.rtrancl_refl)
qed

lemma conclude_run:
  assumes "stands (rq_id req) (REnd req res) [] (Some td) ak us lg s"
  shows "\<exists>s'. (own_step cfg ag)\<^sup>*\<^sup>* s s' \<and> rs_done (rn_reqs s' (rq_id req)) \<and> \<not> ss_run_stop (rn_st s') \<and>
    rn_log s' = lg @ [\<lparr>tl_req = req, tl_updates = us, tl_result = res\<rparr>]"
proof -
  let ?i = "rq_id req" and ?lg = "lg @ [\<lparr>tl_req = req, tl_updates = us, tl_result = res\<rparr>]"
  have a: "rn_pc s = REnd req res" "length (rn_chan s) < chunk_cap" using assms by (simp_all add: stands_def chunk_cap_def)
  from own_stepI [OF End [OF a, of cfg ag]] obtain s1 where s1: "own_step cfg ag s s1"
    "stands ?i (RAck req res) [MsgEndTurn ?i] (Some td) ak us lg s1"
    using assms by (auto simp: stands_def)
  have b: "\<not> rn_drain_dead s1" "rn_chan s1 = MsgEndTurn ?i # []" using s1(2) by (simp_all add: stands_def)
  obtain dr evs where e: "drain_step (MsgEndTurn ?i) (ss_drain (rn_st s1)) = (dr, evs, Some ?i)" by simp
  from own_stepI [OF Receive [OF b e(1), of cfg ag]] obtain s2 td' where s2: "own_step cfg ag s1 s2"
    "stands ?i (RAck req res) [] td' (insert ?i ak) us lg s2"
    using s1(2) by (auto simp: stands_def)
  have c: "rn_pc s2 = RAck req res" "?i \<in> rn_acked s2" using s2(2) by (simp_all add: stands_def)
  from own_stepI [OF Acked [OF c, of cfg ag]] obtain s3 where s3: "own_step cfg ag s2 s3"
    "stands ?i (RConclude req res) [] td' (insert ?i ak) us lg s3"
    using s2(2) by (auto simp: stands_def)
  have d: "rn_pc s3 = RConclude req res" using s3(2) by (simp add: stands_def)
  from own_stepI [OF Conclude [OF d, of cfg ag]] obtain s4 where s4: "own_step cfg ag s3 s4"
    "stands ?i (RFinish req) [] td' (insert ?i ak) us ?lg s4"
    using s3(2) by (auto simp: stands_def set_err_def split: sum.splits)
  have f: "rn_pc s4 = RFinish req" "close_done ?i (rn_reqs s4) = Inr ((rn_reqs s4)(?i := (rn_reqs s4 ?i)\<lparr>rs_done := True\<rparr>))"
    using s4(2) by (simp_all add: stands_def)
  from own_stepI [OF Finish [OF f, of cfg ag]] obtain s5 where s5: "own_step cfg ag s4 s5"
    "rs_done (rn_reqs s5 ?i)" "\<not> ss_run_stop (rn_st s5)" "rn_log s5 = ?lg"
    using s4(2) by (auto simp: stands_def)
  from s1(1) s2(1) s3(1) s4(1) s5 show ?thesis
    by (meson converse_rtranclp_into_rtranclp rtranclp.rtrancl_refl)
qed

lemma turn_runs:
  assumes "stands (rq_id req) RPop [] td ak us lg s" "sq_q (ss_queue (rn_st s)) = [req]" "is_user req"
  shows "\<exists>s'. (own_step cfg ag)\<^sup>*\<^sup>* s s' \<and> rs_done (rn_reqs s' (rq_id req)) \<and> \<not> ss_run_stop (rn_st s') \<and>
    rn_log s' = lg @ [\<lparr>tl_req = req, tl_updates = [u], tl_result = Inr EndTurn\<rparr>]"
proof -
  have "\<not> stale_reaction 0 req" using assms(3) by (simp add: stale_reaction_def)
  then obtain s1 where s1: "(own_step cfg ag)\<^sup>*\<^sup>* s s1" "stands (rq_id req) (RPrompt req) [] (Some (turn_def_of req)) ak [] lg s1"
    using begin_turn_run [OF assms(1,2)] by blast
  obtain s2 where s2: "(own_step cfg ag)\<^sup>*\<^sup>* s1 s2"
    "stands (rq_id req) (REnd req (Inr EndTurn)) [] (Some (turn_def_of req)) ak [u] lg s2"
    using answer_run [OF s1(2)] by blast
  from conclude_run [OF s2(2), of cfg ag] s1(1) s2(1) show ?thesis by (meson rtranclp_trans)
qed

section \<open>Runs from a state\<close>

text \<open>The relay on its own: no new call arrives.\<close>

inductive relay_from :: "relay_world \<Rightarrow> relay_state \<Rightarrow> relay_state \<Rightarrow> bool" for W :: relay_world and Y0 :: relay_state where
  here: "relay_from W Y0 Y0"
| on: "relay_from W Y0 Y \<Longrightarrow> relay_step W A Y Y' \<Longrightarrow> A \<noteq> Client \<Longrightarrow> relay_from W Y0 Y'"

lemma relay_from_reach: "relay_from W Y0 Y \<Longrightarrow> relay_reach W Y0 \<Longrightarrow> relay_reach W Y"
  by (induction rule: relay_from.induct) (auto intro: relay_reach.step)

lemma relay_from_trans: "relay_from W Y1 Y2 \<Longrightarrow> relay_from W Y0 Y1 \<Longrightarrow> relay_from W Y0 Y2"
  by (induction rule: relay_from.induct) (auto intro: relay_from.on)

lemma caller_on: "relay_from W Y0 Y \<Longrightarrow> relay_step W (Caller c) Y Y' \<Longrightarrow> relay_from W Y0 Y'"
  using relay_from.on [of W Y0 Y "Caller c" Y'] by simp

text \<open>All but the session objects.\<close>

definition same_calls :: "relay_state \<Rightarrow> relay_state \<Rightarrow> bool" where
  "same_calls Y Y' \<longleftrightarrow> ys_pc Y' = ys_pc Y \<and> ys_call Y' = ys_call Y \<and> ys_next_obj Y' = ys_next_obj Y \<and>
     ys_sessions Y' = ys_sessions Y \<and> ys_gc Y' = ys_gc Y \<and> ys_next_call Y' = ys_next_call Y \<and>
     ys_next_req Y' = ys_next_req Y"

lemma own_steps_relay:
  assumes "(own_step (rw_cfg W) (rw_agent W))\<^sup>*\<^sup>* (ys_obj Y p) s" "p < ys_next_obj Y"
  shows "\<exists>Y'. relay_from W Y Y' \<and> ys_obj Y' p = s \<and> same_calls Y Y'"
  using assms(1)
proof (induction rule: rtranclp_induct)
  case base
  then show ?case using relay_from.here by (auto simp: same_calls_def)
next
  case (step s1 s2)
  then obtain Y1 where Y1: "relay_from W Y Y1" "ys_obj Y1 p = s1" "same_calls Y Y1" by blast
  from step.hyps(2) obtain a where a: "a \<noteq> Outside" "session_step (rw_cfg W) (rw_agent W) a (ys_obj Y1 p) s2"
    by (auto simp: own_step_def Y1(2))
  have "relay_step W (Goroutine p a) Y1 (put_run p s2 Y1)"
    by (rule Move [OF _ a]) (use Y1(3) assms(2) in \<open>simp add: same_calls_def\<close>)
  from relay_from.on [OF Y1(1) this] Y1(3) show ?case
    by (intro exI [of _ "put_run p s2 Y1"]) (simp add: put_run_def same_calls_def)
qed

section \<open>The first call\<close>

definition demo_world :: relay_world where
  "demo_world = \<lparr>rw_cfg = demo_config, rw_agent = quiet_agent, rw_att = demo_env,
     rw_unicode = ascii_tables\<rparr>"

definition user_says :: "gostring \<Rightarrow> turn" where
  "user_says content = \<lparr>t_role = ''user'', t_content = content, t_message_id = ''m'', t_attachments = []\<rparr>"

definition demo_call :: api_call where
  "demo_call = PromptCall ''c'' ''u'' [user_says ''hi''] no_options"

lemma demo_call_simps [simp]:
  "is_prompt demo_call" "wants_session demo_call" "call_conv demo_call = ''c''" "call_user demo_call = ''u''"
  "call_query demo_call = [user_says ''hi'']"
  by (simp_all add: demo_call_def user_says_def latest_user_text_def latest_user_turn_ref_def conv_key_def)

text \<open>A call arrives.\<close>

definition arrive :: "api_call \<Rightarrow> relay_state \<Rightarrow> relay_state" where
  "arrive call Y = set_pc (ys_next_call Y) CStart (Y\<lparr>ys_call := (ys_call Y)(ys_next_call Y := call),
     ys_next_call := Suc (ys_next_call Y)\<rparr>)"

lemma arrive_simps [simp]:
  "ys_out (arrive call Y) = ys_out Y" "ys_obj (arrive call Y) = ys_obj Y" "ys_next_obj (arrive call Y) = ys_next_obj Y"
  "ys_pc (arrive call Y) = (ys_pc Y)(ys_next_call Y := CStart)" "ys_sessions (arrive call Y) = ys_sessions Y"
  "ys_call (arrive call Y) = (ys_call Y)(ys_next_call Y := call)" "ys_next_call (arrive call Y) = Suc (ys_next_call Y)"
  "ys_gc (arrive call Y) = ys_gc Y" "ys_next_req (arrive call Y) = ys_next_req Y" "ys_calls (arrive call Y) = ys_calls Y"
  "ys_files (arrive call Y) = ys_files Y" "ys_init (arrive call Y) = ys_init Y"
  by (simp_all add: arrive_def)

lemma arrive_step: "relay_step W Client Y (arrive call Y)"
  unfolding arrive_def by (rule Arrive)

definition demo_arrived :: relay_state where
  "demo_arrived = arrive demo_call relay_start"

lemma demo_arrived_reach: "relay_reach demo_world demo_arrived"
  unfolding demo_arrived_def by (rule relay_reach.step [OF relay_reach.start arrive_step])

text \<open>The first call of all finds no session, opens one and installs it.\<close>

lemma first_session:
  assumes "wants_session call" "call_conv call = ''c''" "length (call_query call) \<le> 1"
  obtains Y st where "relay_from demo_world (arrive call relay_start) Y" "ys_pc Y 0 = CGot 0 False" "ys_call Y 0 = call"
    "ys_next_obj Y = 1" "ys_sessions Y = [(''c'', 0)]" "ys_gc Y = None" "ys_next_req Y = 0" "ys_next_call Y = 1"
    "ys_obj Y 0 = session_start st" "fresh_session st"
proof -
  let ?W = demo_world and ?Y0 = "arrive call relay_start"
  have "relay_step ?W (Caller 0) ?Y0 (set_pc 0 CMiss ?Y0)"
    by (rule Miss) (simp_all add: relay_start_def assms(1))
  note r1 = caller_on [OF relay_from.here this]
  let ?Y1 = "set_pc 0 CMiss ?Y0"
  obtain r where op: "open_session demo_config quiet_agent (\<lambda>_. None) 0 ''c'' (call_user call) (router_view 0 ?Y1) = (Inr (0, False), r)"
    "fresh_session (ro_objs r 0)" "ro_next_obj r = 1"
    by (auto simp: open_session_def Let_def router_view_def relay_start_def try_resume_def
        quiet_agent_def quiet_caps_def upd_session_def log_calls_def new_session_state_def fresh_session_def)
  have "relay_step ?W (Caller 0) ?Y1 (set_pc 0 (CMade 0 False) (adopt r ?Y1))"
    by (rule Opened [where now = 0]) (use op assms(2) in \<open>simp_all add: demo_world_def relay_start_def\<close>)
  note r2 = caller_on [OF r1 this]
  define Y2 where "Y2 = set_pc 0 (CMade 0 False) (adopt r ?Y1)"
  define st where "st = ro_objs r 0"
  have Y2: "ys_pc Y2 0 = CMade 0 False" "ys_call Y2 0 = call" "ys_gc Y2 = None" "ys_sessions Y2 = []"
    "ys_next_obj Y2 = 1" "ys_next_req Y2 = 0" "ys_obj Y2 0 = session_start st" "ys_next_call Y2 = 1"
    using op(3) by (simp_all add: Y2_def st_def adopt_def relay_start_def)
  have f: "create_finish ''c'' (call_query call) 0 False (router_view 0 Y2) =
      Inr ((0, False), (router_view 0 Y2)\<lparr>ro_sessions := [(''c'', 0)]\<rparr>)"
    using assms(3) by (simp add: create_finish_def install_def Y2(4))
  have "relay_step ?W (Caller 0) Y2 (set_pc 0 (CGot 0 False) (Y2\<lparr>ys_sessions := [(''c'', 0)]\<rparr>))"
    using Install [OF Y2(1,3), of 0 False "(router_view 0 Y2)\<lparr>ro_sessions := [(''c'', 0)]\<rparr>" ?W] f Y2(2,7) assms(2)
    by (simp add: fun_upd_idem)
  note r3 = caller_on [OF r2 [folded Y2_def] this]
  show thesis by (rule that [OF r3]) (use Y2 op(2) in \<open>simp_all add: st_def\<close>)
qed

text \<open>A prompt with one user message puts its request into the queue of its session.\<close>

lemma prompt_queues:
  assumes "ys_pc Y c = CGot 0 False" "ys_call Y c = PromptCall conv user [user_says content] no_options" "content \<noteq> []"
    "\<not> sq_stopped (ss_queue (rn_st (ys_obj Y 0)))" "sq_q (ss_queue (rn_st (ys_obj Y 0))) = []"
    and req: "req = user_req c (HttpSink c) no_options [TextBlock content] 0 (ys_next_req Y)"
  obtains Y' where "relay_from demo_world Y Y'" "ys_pc Y' = (ys_pc Y)(c := CWait 0 req)" "ys_call Y' = ys_call Y"
    "ys_next_obj Y' = ys_next_obj Y" "ys_sessions Y' = ys_sessions Y" "ys_gc Y' = ys_gc Y" "ys_next_call Y' = ys_next_call Y"
    "ys_next_req Y' = Suc (ys_next_req Y)"
    "ys_obj Y' 0 = (upd_queue (enqueue req (ss_queue (rn_st (ys_obj Y 0)))) (ys_obj Y 0))
       \<lparr>rn_used := insert (rq_id req) (rn_used (ys_obj Y 0))\<rparr>"
proof -
  let ?Y1 = "set_pc c (CReady 0 [TextBlock content]) (Y\<lparr>ys_files := ys_files Y\<rparr>)"
  have "prompt_blocks demo_config quiet_agent demo_env (call_query (ys_call Y c)) False cwd (router_view 0 Y) =
      Inr ([TextBlock content], router_view 0 Y)" for cwd
    by (simp add: assms(2) prompt_blocks_def user_says_def latest_user_text_def latest_user_turn_ref_def)
  then have "relay_step demo_world (Caller c) Y ?Y1"
    using Blocks [OF assms(1), of demo_world "[TextBlock content]" "router_view 0 Y"] assms(2)
    by (simp add: demo_world_def)
  note r1 = caller_on [OF relay_from.here this]
  have psh: "push req (ss_queue (rn_st (ys_obj ?Y1 0))) (rn_reqs (ys_obj ?Y1 0)) =
      Inr (True, enqueue req (ss_queue (rn_st (ys_obj Y 0))), rn_reqs (ys_obj Y 0))"
    using assms(4,5) by (simp add: push_def session_queue_cap_def)
  have "req = call_req (rw_unicode demo_world) c (ys_call ?Y1 c) [TextBlock content] 0 (ys_next_req ?Y1)"
    by (simp add: req assms(2))
  note s = Submit [OF _ this psh]
  show thesis
    by (rule that [OF caller_on [OF r1 s]]) (use assms(2) in \<open>simp_all add: pushed_def\<close>)
qed

text \<open>The prompt has pushed its request onto the new session.\<close>

abbreviation demo_req :: turn_req where
  "demo_req \<equiv> user_req 0 (HttpSink 0) no_options [TextBlock ''hi''] 0 0"

lemma demo_submitted:
  obtains Y where "relay_from demo_world demo_arrived Y" "ys_pc Y 0 = CWait 0 demo_req"
    "ys_call Y 0 = demo_call" "ys_next_obj Y = 1" "stands 0 RPop [] None {} [] [] (ys_obj Y 0)"
    "ss_queue (rn_st (ys_obj Y 0)) = enqueue demo_req new_session_queue"
    "ys_sessions Y = [(''c'', 0)]" "ys_gc Y = None" "ys_next_call Y = 1" "ys_next_req Y = 1"
proof -
  obtain Y1 st where Y1: "relay_from demo_world demo_arrived Y1" "ys_pc Y1 0 = CGot 0 False" "ys_call Y1 0 = demo_call"
    "ys_next_obj Y1 = 1" "ys_sessions Y1 = [(''c'', 0)]" "ys_gc Y1 = None" "ys_next_req Y1 = 0" "ys_next_call Y1 = 1"
    "ys_obj Y1 0 = session_start st" "fresh_session st"
    unfolding demo_arrived_def by (rule first_session [of demo_call]) simp_all
  have q: "ss_queue (rn_st (ys_obj Y1 0)) = new_session_queue" using Y1(9,10) by (simp add: session_start_def fresh_session_def)
  obtain Y where Y: "relay_from demo_world Y1 Y" "ys_pc Y = (ys_pc Y1)(0 := CWait 0 demo_req)" "ys_call Y = ys_call Y1"
    "ys_next_obj Y = ys_next_obj Y1" "ys_sessions Y = ys_sessions Y1" "ys_gc Y = ys_gc Y1" "ys_next_call Y = ys_next_call Y1"
    "ys_next_req Y = Suc (ys_next_req Y1)"
    "ys_obj Y 0 = (upd_queue (enqueue demo_req (ss_queue (rn_st (ys_obj Y1 0)))) (ys_obj Y1 0))
       \<lparr>rn_used := insert (rq_id demo_req) (rn_used (ys_obj Y1 0))\<rparr>"
    by (rule prompt_queues [OF Y1(2) Y1(3) [unfolded demo_call_def], of demo_req])
      (simp_all add: q new_session_queue_def Y1(7))
  show thesis
    by (rule that [OF relay_from_trans [OF Y(1) Y1(1)]])
      (use Y(2-9) Y1(3-10) q in \<open>simp_all add: stands_def session_start_def fresh_session_def drain_init_def fresh_status_def\<close>)
qed

text \<open>And the call is back, its turn run to the end with the notification \<open>u\<close>.\<close>

lemma demo_returned:
  obtains Y e where "relay_reach demo_world Y" "ys_call Y 0 = demo_call"
    "ys_pc Y 0 = CReturned (Some (0, user_req 0 (HttpSink 0) no_options [TextBlock ''hi''] 0 0)) e"
    "\<not> ss_run_stop (rn_st (ys_obj Y 0))"
    "rn_log (ys_obj Y 0) = [\<lparr>tl_req = user_req 0 (HttpSink 0) no_options [TextBlock ''hi''] 0 0, tl_updates = [u],
       tl_result = Inr EndTurn\<rparr>]"
    "relay_from demo_world demo_arrived Y"
proof (rule demo_submitted)
  fix Y assume Y: "relay_from demo_world demo_arrived Y" "ys_pc Y 0 = CWait 0 demo_req" "ys_call Y 0 = demo_call"
    "ys_next_obj Y = 1" "stands 0 RPop [] None {} [] [] (ys_obj Y 0)"
    "ss_queue (rn_st (ys_obj Y 0)) = enqueue demo_req new_session_queue"
  have q: "sq_q (ss_queue (rn_st (ys_obj Y 0))) = [demo_req]" using Y(6) by (simp add: enqueue_def new_session_queue_def)
  have id: "rq_id demo_req = 0" "is_user demo_req" by (simp_all add: user_req_def)
  from turn_runs [OF _ q id(2)] Y(5) id(1)
  obtain s where s: "(own_step demo_config quiet_agent)\<^sup>*\<^sup>* (ys_obj Y 0) s" "rs_done (rn_reqs s 0)" "\<not> ss_run_stop (rn_st s)"
    "rn_log s = [\<lparr>tl_req = demo_req, tl_updates = [u], tl_result = Inr EndTurn\<rparr>]" by (metis append_Nil)
  from own_steps_relay [of demo_world Y 0 s] s(1) Y(4) obtain Y1 where Y1: "relay_from demo_world Y Y1" "ys_obj Y1 0 = s"
    "ys_pc Y1 = ys_pc Y" "ys_call Y1 = ys_call Y" by (auto simp: demo_world_def same_calls_def)
  obtain e where "prompt_result (rq_id demo_req) None (router_view 0 Y1) = Some e"
    using s(2) by (auto simp: prompt_result_def id(1) Y1(2))
  from relay_step.Return [OF _ this, of 0] Y(2) Y1(3)
  have "relay_step demo_world (Caller 0) Y1 (set_pc 0 (CReturned (Some (0, demo_req)) e) Y1)" by simp
  note r = caller_on [OF relay_from_trans [OF Y1(1) Y(1)] this]
  show thesis
    by (rule that [OF relay_from_reach [OF r demo_arrived_reach]]) (use r s(3,4) Y(3) Y1(2,4) in simp_all)
qed

end
