(* ===== verification/Relay_Prompts.thy ===== *)
theory Relay_Prompts
  imports Relay_Invariant Relay_Example
begin

text \<open>
  What a call of \<open>Prompt\<close> gets, whatever else the relay does at the same time: what its sink has
  received when it returns, and the error it returns. Every session and every call may move in
  between; the sessions' own theorems (\<open>Session_History\<close>) apply through the invariant.
\<close>

section \<open>Who writes to a sink\<close>

lemma known_issued:
  assumes "relay_ok W Y" "p < ys_next_obj Y" "r \<in> known (ys_obj Y p)"
  obtains c where "issued (ys_pc Y c) = Some (p, r)" "issued_ok W Y c p r"
  using assms calls_okD(5) by (fastforce simp: relay_ok_def sessions_ok_def)

lemma issued_wants:
  assumes "calls_ok W Y" "issued (ys_pc Y c) = Some (p, req)"
  shows "wants_session (ys_call Y c)"
  using calls_okD(2) [OF assms(1), of c] assms(2) by (cases "ys_pc Y c") (auto simp: engaged_def)

lemma issued_kind:
  assumes "calls_ok W Y" "issued (ys_pc Y c) = Some (p, req)"
  shows "is_user req \<longleftrightarrow> is_prompt (ys_call Y c)" "is_user req \<Longrightarrow> rq_sink req = HttpSink c"
    "rq_sink req = HttpSink c' \<Longrightarrow> c' = c"
proof -
  from calls_okD(5) [OF assms] obtain bs now where "req = call_req (rw_unicode W) c (ys_call Y c) bs now (rq_id req)"
    by (auto simp: issued_ok_def)
  with call_req_simps(2,3) [of "ys_call Y c" "rw_unicode W" c bs now "rq_id req"] issued_wants [OF assms]
  have "if is_prompt (ys_call Y c) then is_user req \<and> rq_sink req = HttpSink c
      else is_reaction req \<and> (\<exists>conv. rq_sink req = DiscardSink conv)" by auto
  then show "is_user req \<longleftrightarrow> is_prompt (ys_call Y c)" "is_user req \<Longrightarrow> rq_sink req = HttpSink c"
    "rq_sink req = HttpSink c' \<Longrightarrow> c' = c" by (auto split: if_splits)
qed

lemma known_sink:
  assumes "relay_ok W Y" "p < ys_next_obj Y" "r \<in> known (ys_obj Y p)" "rq_sink r = HttpSink c"
  shows "issued (ys_pc Y c) = Some (p, r)"
proof -
  from known_issued [OF assms(1-3)] obtain c' where c': "issued (ys_pc Y c') = Some (p, r)" by blast
  with assms(1,4) issued_kind(3) [of W Y c' p r c] show ?thesis by (auto simp: relay_ok_def)
qed

lemma running_known: "set (running (rn_pc s)) \<subseteq> known s" "tl_req ` set (rn_log s) \<subseteq> known s"
  using running_current by (auto simp: known_def)

text \<open>A session writes only to the sinks of the calls whose requests it holds.\<close>

lemma silent_session:
  assumes "relay_ok W Y" "p < ys_next_obj Y" "\<forall>r. issued (ys_pc Y c) \<noteq> Some (p, r)"
  shows "sink_trace (HttpSink c) (rn_out (ys_obj Y p)) = []"
proof -
  have ns: "rq_sink r \<noteq> HttpSink c" if "r \<in> known (ys_obj Y p)" for r
    using known_sink [OF assms(1,2) that, of c] assms(3) by blast
  have "fresh_session (ys_init Y p)" "session_reach (rw_cfg W) (rw_agent W) (ys_init Y p) (ys_obj Y p)"
    using assms(1,2) by (auto simp: relay_ok_def sessions_ok_def)
  note tr = trace_of_others [OF this(2,1), of "HttpSink c"]
  have "sink_trace (HttpSink c) (rn_out (ys_obj Y p)) =
      sink_trace (HttpSink c) (log_out (rw_cfg W) (rw_agent W) (ys_init Y p) (rn_log (ys_obj Y p)))"
    by (rule tr) (use ns running_known(1) in blast)
  also have "\<dots> = []" by (rule log_out_silent) (use ns running_known(2) in blast)
  finally show ?thesis .
qed

section \<open>The traces of the sinks\<close>

text \<open>A call that has pushed nothing has written nothing, or its own refusal.\<close>

definition own_trace :: "call_pc \<Rightarrow> api_call \<Rightarrow> sink_event list \<Rightarrow> bool" where
  "own_trace pc call es \<longleftrightarrow>
     (case pc of
        CReturned None e \<Rightarrow>
          if is_prompt call then e \<noteq> None \<and> (\<exists>t. es = [EvError t ''user_caused_error'', EvDone]) else es = []
      | _ \<Rightarrow> es = [])"

definition outs_ok :: "relay_state \<Rightarrow> bool" where
  "outs_ok Y \<longleftrightarrow>
     (\<forall>c p req. issued (ys_pc Y c) = Some (p, req) \<longrightarrow>
        sink_trace (HttpSink c) (ys_out Y) = sink_trace (HttpSink c) (rn_out (ys_obj Y p))) \<and>
     (\<forall>c. issued (ys_pc Y c) = None \<longrightarrow>
        own_trace (ys_pc Y c) (ys_call Y c) (sink_trace (HttpSink c) (ys_out Y)))"

lemma outs_okI:
  assumes "\<And>c p req. issued (ys_pc Y c) = Some (p, req) \<Longrightarrow>
      sink_trace (HttpSink c) (ys_out Y) = sink_trace (HttpSink c) (rn_out (ys_obj Y p))"
    and "\<And>c. issued (ys_pc Y c) = None \<Longrightarrow> own_trace (ys_pc Y c) (ys_call Y c) (sink_trace (HttpSink c) (ys_out Y))"
  shows "outs_ok Y"
  using assms by (simp add: outs_ok_def)

lemma outs_okD:
  assumes "outs_ok Y"
  shows "issued (ys_pc Y c) = Some (p, req) \<Longrightarrow>
      sink_trace (HttpSink c) (ys_out Y) = sink_trace (HttpSink c) (rn_out (ys_obj Y p))"
    and "issued (ys_pc Y c) = None \<Longrightarrow> own_trace (ys_pc Y c) (ys_call Y c) (sink_trace (HttpSink c) (ys_out Y))"
  using assms by (simp_all add: outs_ok_def)

lemma outs_same:
  assumes "outs_ok Y" "ys_out Y' = ys_out Y"
    "\<And>c p req. issued (ys_pc Y c) = Some (p, req) \<Longrightarrow> rn_out (ys_obj Y' p) = rn_out (ys_obj Y p)"
    "\<And>c. issued (ys_pc Y' c) = issued (ys_pc Y c)"
    "\<And>c es. issued (ys_pc Y c) = None \<Longrightarrow> own_trace (ys_pc Y c) (ys_call Y c) es \<Longrightarrow> own_trace (ys_pc Y' c) (ys_call Y' c) es"
  shows "outs_ok Y'"
proof (rule outs_okI)
  show "sink_trace (HttpSink c) (ys_out Y') = sink_trace (HttpSink c) (rn_out (ys_obj Y' p))"
    if "issued (ys_pc Y' c) = Some (p, req)" for c p req
  proof -
    from that assms(4) have i: "issued (ys_pc Y c) = Some (p, req)" by simp
    from outs_okD(1) [OF assms(1) i] assms(3) [OF i] assms(2) show ?thesis by simp
  qed
  show "own_trace (ys_pc Y' c) (ys_call Y' c) (sink_trace (HttpSink c) (ys_out Y'))"
    if "issued (ys_pc Y' c) = None" for c
  proof -
    from that assms(4) have i: "issued (ys_pc Y c) = None" by simp
    from assms(5) [OF i outs_okD(2) [OF assms(1) i]] assms(2) show ?thesis by simp
  qed
qed

lemma outs_refused:
  assumes "outs_ok Y" "issued (ys_pc Y c) = None" "sink_trace (HttpSink c) (ys_out Y) = []"
    "ys_out Y' = ys_out Y @ map (Pair (HttpSink c)) es" "ys_pc Y' = (ys_pc Y)(c := CReturned None e)"
    "ys_call Y' = ys_call Y" "ys_obj Y' = ys_obj Y" "own_trace (CReturned None e) (ys_call Y c) es"
  shows "outs_ok Y'"
proof (rule outs_okI)
  fix x assume "issued (ys_pc Y' x) = None"
  with assms outs_okD(2) [OF assms(1), of x]
  show "own_trace (ys_pc Y' x) (ys_call Y' x) (sink_trace (HttpSink x) (ys_out Y'))"
    by (cases "x = c") simp_all
next
  fix x p req assume "issued (ys_pc Y' x) = Some (p, req)"
  with assms outs_okD(1) [OF assms(1), of x p req]
  show "sink_trace (HttpSink x) (ys_out Y') = sink_trace (HttpSink x) (rn_out (ys_obj Y' p))"
    by (cases "x = c") simp_all
qed

lemma outs_give_up:
  assumes "outs_ok Y" "issued (ys_pc Y c) = None" "\<And>es. own_trace (ys_pc Y c) (ys_call Y c) es \<Longrightarrow> es = []"
    "is_prompt (ys_call Y c) \<Longrightarrow> e \<noteq> None"
  shows "outs_ok (give_up c t e e' Y)"
proof -
  have none: "sink_trace (HttpSink c) (ys_out Y) = []" using outs_okD(2) [OF assms(1,2)] assms(3) by blast
  note ref = outs_refused [OF assms(1,2) none]
  show ?thesis
  proof (cases "is_prompt (ys_call Y c)")
    case True
    with assms(4) show ?thesis
      by (intro ref [where es = "[EvError t ''user_caused_error'', EvDone]" and e = e])
        (simp_all add: give_up_def own_trace_def)
  next
    case False
    then show ?thesis
      by (intro ref [where es = "[]" and e = e']) (simp_all add: give_up_def own_trace_def)
  qed
qed

lemma outs_adopt: "calls_ok W Y \<Longrightarrow> outs_ok Y \<Longrightarrow> outs_ok (adopt r Y)"
  by (rule outs_same) (auto dest: calls_okD(5) simp: issued_ok_def)

lemma outs_submit:
  assumes "relay_ok W Y" "outs_ok Y" "ys_pc Y c = CReady p bs" "relay_ok W Y'"
    and Y': "Y' = pushed c p req acc (Y\<lparr>ys_next_req := n,
         ys_obj := (ys_obj Y)(p := (upd_queue q (ys_obj Y p))\<lparr>rn_reqs := h, rn_used := u\<rparr>)\<rparr>)"
  shows "outs_ok Y'"
proof (cases acc)
  case True
  have p: "p < ys_next_obj Y" using calls_okD(3) [of W Y c p] assms(1,3) by (simp add: relay_ok_def)
  have none: "sink_trace (HttpSink c) (ys_out Y) = []" using outs_okD(2) [OF assms(2), of c] assms(3)
    by (simp add: own_trace_def)
  have silent: "sink_trace (HttpSink c) (rn_out (ys_obj Y p)) = []"
    by (rule silent_session [OF assms(1) p]) (simp add: assms(3))
  have out: "ys_out Y' = ys_out Y" using True by (simp add: Y' pushed_def)
  have pc: "ys_pc Y' = (ys_pc Y)(c := pushed_pc (ys_call Y c) p req True)" using True by (simp add: Y')
  show ?thesis
  proof (rule outs_okI)
    fix x p' r assume "issued (ys_pc Y' x) = Some (p', r)"
    with outs_okD(1) [OF assms(2), of x p' r] none silent
    show "sink_trace (HttpSink x) (ys_out Y') = sink_trace (HttpSink x) (rn_out (ys_obj Y' p'))"
      by (cases "x = c") (auto simp: out pc, auto simp: Y')
  next
    fix x assume "issued (ys_pc Y' x) = None"
    with outs_okD(2) [OF assms(2), of x]
    show "own_trace (ys_pc Y' x) (ys_call Y' x) (sink_trace (HttpSink x) (ys_out Y'))"
      by (cases "x = c") (auto simp: out pc, auto simp: Y')
  qed
next
  case False
  let ?Y = "Y\<lparr>ys_next_req := n, ys_obj := (ys_obj Y)(p := (upd_queue q (ys_obj Y p))\<lparr>rn_reqs := h, rn_used := u\<rparr>)\<rparr>"
  have "outs_ok ?Y" by (rule outs_same [OF assms(2)]) simp_all
  then have "outs_ok (give_up c ''relay: session unavailable'' (Some ''session queue stopped'') None ?Y)"
    by (rule outs_give_up) (use assms(3) in \<open>simp_all add: own_trace_def\<close>)
  with False show ?thesis by (simp add: Y' pushed_def)
qed

lemma outs_move:
  assumes "relay_ok W Y" "outs_ok Y" "relay_ok W Y'" "p < ys_next_obj Y"
    and st: "session_step cfg ag a (ys_obj Y p) s" "a \<noteq> Outside"
    and Y': "Y' = put_run p s Y"
  shows "outs_ok Y'"
proof -
  obtain evs where evs: "rn_out s = rn_out (ys_obj Y p) @ evs" using move_frame(6) [OF st] by blast
  have out: "ys_out Y' = ys_out Y @ evs" by (simp add: Y' put_run_def evs)
  have quiet: "sink_trace (HttpSink c) evs = []" if "\<forall>r. issued (ys_pc Y c) \<noteq> Some (p, r)" for c
    using silent_session [OF assms(1,4), of c] silent_session [OF assms(3), of p c] that assms(4)
    by (simp add: Y' evs)
  show ?thesis
  proof (rule outs_okI)
    fix c p' req assume i: "issued (ys_pc Y' c) = Some (p', req)"
    with outs_okD(1) [OF assms(2), of c p' req] quiet [of c]
    show "sink_trace (HttpSink c) (ys_out Y') = sink_trace (HttpSink c) (rn_out (ys_obj Y' p'))"
      unfolding out by (cases "p' = p") (simp_all add: Y' evs)
  next
    fix c assume "issued (ys_pc Y' c) = None"
    with outs_okD(2) [OF assms(2), of c] quiet [of c]
    show "own_trace (ys_pc Y' c) (ys_call Y' c) (sink_trace (HttpSink c) (ys_out Y'))"
      unfolding out by (simp add: Y')
  qed
qed

lemma outs_step:
  assumes "relay_step W a Y Y'" "relay_ok W Y" "outs_ok Y"
  shows "outs_ok Y'"
proof -
  have calls: "calls_ok W Y" using assms(2) by (simp add: relay_ok_def)
  note same = outs_same [OF assms(3)]
  from assms(1) show ?thesis
  proof cases
    case (Arrive call)
    with calls_okD(1) [OF calls, of "ys_next_call Y"] show ?thesis
      by (intro same) (auto simp: own_trace_def)
  next
    case (Empty c)
    with assms(3) show ?thesis by (auto simp: own_trace_def intro!: outs_give_up)
  next
    case (Refused c ag mkdir now e r)
    with assms(3) outs_adopt [OF calls] show ?thesis by (auto simp: own_trace_def intro!: outs_give_up)
  next
    case (Opened c ag mkdir now p resumed r)
    with calls_okD(5) [OF calls] show ?thesis
      by (intro same) (auto simp: own_trace_def issued_ok_def)
  next
    case (Submit c p bs req now acc q h)
    then show ?thesis using outs_submit [OF assms(2,3) _ relay_ok_step(1) [OF assms(1,2)]] by blast
  next
    case (Move p a s)
    then show ?thesis using outs_move [OF assms(2,3) relay_ok_step(1) [OF assms(1,2)]] by blast
  qed (rule same; auto simp: own_trace_def split: if_splits)+
qed

section \<open>What a prompt returns\<close>

text \<open>A prompt that is back found its request done, and took the request's error; a user turn is shed
  only when its session is stopped.\<close>

definition results_ok :: "relay_state \<Rightarrow> bool" where
  "results_ok Y \<longleftrightarrow>
     (\<forall>c p req e. ys_pc Y c = CReturned (Some (p, req)) e \<and> is_prompt (ys_call Y c) \<longrightarrow>
        rs_done (rn_reqs (ys_obj Y p) (rq_id req)) \<and>
        (\<forall>x. rs_err (rn_reqs (ys_obj Y p) (rq_id req)) = Some x \<longrightarrow> e = Some x)) \<and>
     (\<forall>c p req. issued (ys_pc Y c) = Some (p, req) \<and> is_user req \<and>
        rs_shed (rn_reqs (ys_obj Y p) (rq_id req)) \<longrightarrow> ss_run_stop (rn_st (ys_obj Y p)))"

lemma returned_step:
  assumes "relay_step W a Y Y'" "calls_ok W Y" "ys_pc Y' c = CReturned (Some (p, req)) e" "is_prompt (ys_call Y' c)"
  shows "ys_pc Y c = CReturned (Some (p, req)) e \<and> ys_call Y' c = ys_call Y c \<or>
    (\<exists>ctx. ys_pc Y c = CWait p req \<and> ys_obj Y' = ys_obj Y \<and>
       prompt_result (rq_id req) ctx (router_view p Y) = Some e)"
  using assms(1)
proof cases
  case (Arrive call)
  with calls_okD(1) [OF assms(2), of "ys_next_call Y"] assms(3,4) show ?thesis by (auto split: if_splits)
next
  case (Submit c' p' bs req' now acc q h)
  with assms(3,4) show ?thesis by (auto simp: pushed_pc_def split: if_splits)
qed (use assms(3,4) in \<open>auto split: if_splits\<close>)

text \<open>Whose request a step can shed.\<close>

lemma user_shed_step:
  assumes "relay_ok W Y" "p < ys_next_obj Y" "issued (ys_pc Y c) = Some (p, req)" "is_user req"
    and st: "session_step cfg ag a (ys_obj Y p) s" "rs_shed (rn_reqs s (rq_id req))"
    and old: "rs_shed (rn_reqs (ys_obj Y p) (rq_id req)) \<longrightarrow> ss_run_stop (rn_st (ys_obj Y p))"
  shows "ss_run_stop (rn_st s)"
proof (cases "rs_shed (rn_reqs (ys_obj Y p) (rq_id req))")
  case True
  with old stop_flag_step [OF st(1)] show ?thesis by blast
next
  case False
  from shed_step [OF st(1) False st(2)] show ?thesis
  proof
    assume "\<exists>r \<in> set (current (rn_pc (ys_obj Y p)) @ sq_q (ss_queue (rn_st (ys_obj Y p)))).
      rq_id r = rq_id req \<and> is_reaction r"
    then obtain r where r: "r \<in> known (ys_obj Y p)" "rq_id r = rq_id req" "is_reaction r" by (auto simp: known_def)
    then obtain c' where c': "issued (ys_pc Y c') = Some (p, r)" using known_issued [OF assms(1,2)] by blast
    have "calls_ok W Y" using assms(1) by (simp add: relay_ok_def)
    from calls_okD(6) [OF this c' assms(3) r(2)] c' assms(3,4) r(3) show ?thesis by simp
  qed
qed

text \<open>A request that has just been pushed is not shed.\<close>

lemma new_not_shed:
  assumes "push req (ss_queue (rn_st s)) (rn_reqs s) = Inr (True, q, h)" "rq_id req \<notin> rn_used s"
    "reqs_ok s" "history_ok s"
  shows "\<not> rs_shed (h (rq_id req))"
proof -
  from history_push [OF assms] have "history_ok ((upd_queue q s)\<lparr>rn_reqs := h, rn_used := insert (rq_id req) (rn_used s)\<rparr>)"
    by simp
  moreover have "req \<in> set (sq_q q)" using assms(1) by (cases rule: push_cases) auto
  ultimately show ?thesis by (auto simp: history_ok_def)
qed

lemma shed_ok_step:
  assumes "relay_step W a Y Y'" "relay_ok W Y" "results_ok Y" "issued (ys_pc Y' c) = Some (p, req)" "is_user req"
    "rs_shed (rn_reqs (ys_obj Y' p) (rq_id req))"
  shows "ss_run_stop (rn_st (ys_obj Y' p))"
proof -
  note calls = assms(2) [unfolded relay_ok_def, THEN conjunct2, THEN conjunct1]
  have old: "ss_run_stop (rn_st (ys_obj Y p))"
    if "issued (ys_pc Y c) = Some (p, req)" "rs_shed (rn_reqs (ys_obj Y p) (rq_id req))"
    using assms(3,5) that unfolding results_ok_def by blast
  have kept: ?thesis if "issued (ys_pc Y c) = Some (p, req)" "ys_obj Y' p = ys_obj Y p"
    using old that assms(6) by simp
  have moved: ?thesis if "issued (ys_pc Y c) = Some (p, req)" "session_step cfg ag b (ys_obj Y p) (ys_obj Y' p)" for cfg ag b
    using user_shed_step [OF assms(2) _ that(1) assms(5) that(2) assms(6)] old that(1) calls_okD(5) [OF calls that(1)]
    by (auto simp: issued_ok_def)
  have p: "p < ys_next_obj Y" if "issued (ys_pc Y c) = Some (p, req)"
    using calls_okD(5) [OF calls that] by (simp add: issued_ok_def)
  from assms(1) show ?thesis
  proof cases
    case (Arrive call)
    with calls_okD(1) [OF calls, of "ys_next_call Y"] assms(4) kept show ?thesis by (auto split: if_splits)
  next
    case (Install c' p' resumed w seed r)
    have i: "issued (ys_pc Y c) = Some (p, req)" using Install assms(4) by (auto split: if_splits)
    have "p' \<noteq> p"
      using map_okD(6) [of Y c' p' resumed] Install(3) assms(2) calls_okD(5) [OF calls i]
      by (auto simp: relay_ok_def unborn_def issued_ok_def)
    with i show ?thesis using kept Install(2) by simp
  next
    case (Submit c' p' bs req' now acc q h)
    have ok: "p' < ys_next_obj Y" "wants_session (ys_call Y c')"
      using calls_okD(2,3) [OF calls, of c'] Submit(3) by (auto simp: engaged_def)
    with assms(2) Submit(4) have new: "rq_id req' \<notin> rn_used (ys_obj Y p')"
      by (auto simp: relay_ok_def sessions_ok_def call_req_simps)
    show ?thesis
    proof (cases "c' = c")
      case True
      with Submit(2) assms(4) have "acc" "p' = p" "req' = req" by (auto split: if_splits)
      with new_not_shed [of req "ys_obj Y p" q h] Submit(2,5) new ok(1) assms(6) run_ok_obj [of W Y p] assms(2)
      show ?thesis by (auto simp: relay_ok_def run_ok_def)
    next
      case False
      with Submit(2) assms(4) have i: "issued (ys_pc Y c) = Some (p, req)" by (auto split: if_splits)
      from Push [OF new Submit(5), of "rw_cfg W" "rw_agent W"] Submit(2) moved [OF i] kept [OF i]
      show ?thesis by (cases "p' = p") auto
    qed
  next
    case (Move p' b s)
    then show ?thesis using moved kept assms(4) by (cases "p' = p") auto
  next
    case (Evict conv p' r)
    from Evict(4) have "ss_run_stop (ro_objs r p')" by (rule view_stop) simp
    with Evict(2) kept assms(4) show ?thesis by (cases "p' = p") auto
  next
    case (Look conv p')
    with assms(4,6) old show ?thesis by (cases "p' = p") auto
  next
    case (Opened c' ag mkdir now p' resumed r)
    with assms(4) kept p show ?thesis by (auto split: if_splits)
  next
    case (Refused c' ag mkdir now e r)
    with assms(4) kept p show ?thesis by (auto split: if_splits)
  qed (rule kept; use assms(4) in \<open>auto split: if_splits\<close>)+
qed

lemma results_step:
  assumes "relay_step W a Y Y'" "relay_ok W Y" "results_ok Y"
  shows "results_ok Y'"
  unfolding results_ok_def
proof (intro conjI allI impI)
  have ok: "sessions_ok W Y" "calls_ok W Y" using assms(2) by (simp_all add: relay_ok_def)
  have ev: "evolves W Y Y'" by (rule relay_ok_step(2) [OF assms(1,2)])
  fix c p req e assume a: "ys_pc Y' c = CReturned (Some (p, req)) e \<and> is_prompt (ys_call Y' c)"
  let ?st = "rn_reqs (ys_obj Y p) (rq_id req)"
  consider (before) "ys_pc Y c = CReturned (Some (p, req)) e" "ys_call Y' c = ys_call Y c"
    | (now) ctx where "ys_pc Y c = CWait p req" "prompt_result (rq_id req) ctx (router_view p Y) = Some e"
    using returned_step [OF assms(1) ok(2)] a by blast
  then have "rs_done ?st \<and> (\<forall>x. rs_err ?st = Some x \<longrightarrow> e = Some x) \<and> issued (ys_pc Y c) = Some (p, req)"
  proof cases
    case before
    with assms(3) a show ?thesis unfolding results_ok_def by force
  next
    case now
    then show ?thesis by (auto simp: prompt_result_def split: if_splits)
  qed
  moreover from this calls_okD(5) [OF ok(2), of c p req] evolvesD(5) [OF ev _ ok(1), of p "rq_id req"]
  have "rn_reqs (ys_obj Y' p) (rq_id req) = ?st" by (auto simp: issued_ok_def)
  ultimately show "rs_done (rn_reqs (ys_obj Y' p) (rq_id req))"
    "\<And>x. rs_err (rn_reqs (ys_obj Y' p) (rq_id req)) = Some x \<Longrightarrow> e = Some x" by simp_all
next
  fix c p req
  assume "issued (ys_pc Y' c) = Some (p, req) \<and> is_user req \<and> rs_shed (rn_reqs (ys_obj Y' p) (rq_id req))"
  with shed_ok_step [OF assms(1-3)] show "ss_run_stop (rn_st (ys_obj Y' p))" by blast
qed

lemma relay_reach_all:
  assumes "relay_reach W Y"
  shows "relay_ok W Y" "outs_ok Y" "results_ok Y"
proof -
  from assms have "relay_ok W Y \<and> outs_ok Y \<and> results_ok Y"
  proof (induction rule: relay_reach.induct)
    case start
    then show ?case
      by (simp add: relay_ok_start) (simp add: relay_start_def outs_ok_def results_ok_def own_trace_def)
  next
    case (step Y a Y')
    then show ?case using relay_ok_step(1) outs_step results_step by blast
  qed
  then show "relay_ok W Y" "outs_ok Y" "results_ok Y" by blast+
qed

text \<open>The only request of a prompt's session that writes to its sink is the prompt's; when it is done,
  the sink has what the completed turns wrote.\<close>

lemma prompt_facts:
  assumes "relay_reach W Y" "issued (ys_pc Y c) = Some (p, req)" "is_user req"
  shows "p < ys_next_obj Y" "rq_id req \<in> rn_used (ys_obj Y p)" "rq_sink req = HttpSink c"
    "reqs_ok (ys_obj Y p)" "history_ok (ys_obj Y p)"
    "session_reach (rw_cfg W) (rw_agent W) (ys_init Y p) (ys_obj Y p)" "fresh_session (ys_init Y p)"
    "r \<in> known (ys_obj Y p) \<Longrightarrow> rq_sink r = HttpSink c \<Longrightarrow> r = req"
    "r \<in> known (ys_obj Y p) \<Longrightarrow> rq_id r = rq_id req \<Longrightarrow> r = req"
proof -
  have all: "relay_ok W Y" "calls_ok W Y" "sessions_ok W Y"
    using relay_reach_all [OF assms(1)] by (simp_all add: relay_ok_def)
  show p: "p < ys_next_obj Y" "rq_id req \<in> rn_used (ys_obj Y p)"
    using calls_okD(5) [OF all(2) assms(2)] by (simp_all add: issued_ok_def)
  show "rq_sink req = HttpSink c" by (rule issued_kind(2) [OF all(2) assms(2,3)])
  show "reqs_ok (ys_obj Y p)" "history_ok (ys_obj Y p)"
    using run_ok_obj [OF all(3) p(1)] by (simp_all add: run_ok_def)
  show "session_reach (rw_cfg W) (rw_agent W) (ys_init Y p) (ys_obj Y p)" "fresh_session (ys_init Y p)"
    using all(3) p(1) by (simp_all add: sessions_ok_def)
  show "r = req" if "r \<in> known (ys_obj Y p)" "rq_sink r = HttpSink c"
    using known_sink [OF all(1) p(1) that] assms(2) by simp
  show "r = req" if r: "r \<in> known (ys_obj Y p)" "rq_id r = rq_id req"
  proof -
    from known_issued [OF all(1) p(1) r(1)] obtain c' where c': "issued (ys_pc Y c') = Some (p, r)" by blast
    from calls_okD(6) [OF all(2) c' assms(2) r(2)] c' assms(2) show ?thesis by simp
  qed
qed

lemma done_trace:
  assumes "relay_reach W Y" "issued (ys_pc Y c) = Some (p, req)" "is_user req"
    and "rs_done (rn_reqs (ys_obj Y p) (rq_id req))"
  shows "sink_trace (HttpSink c) (rn_out (ys_obj Y p)) =
    sink_trace (HttpSink c) (log_out (rw_cfg W) (rw_agent W) (ys_init Y p) (rn_log (ys_obj Y p)))"
proof (rule trace_of_others)
  note F = prompt_facts [OF assms(1-3)]
  show "\<forall>r \<in> set (running (rn_pc (ys_obj Y p))). rq_sink r \<noteq> HttpSink c"
  proof (intro ballI notI)
    fix r assume r: "r \<in> set (running (rn_pc (ys_obj Y p)))" "rq_sink r = HttpSink c"
    then have "r = req" using F(8) running_known(1) by blast
    with r(1) running_current [of "rn_pc (ys_obj Y p)"] F(4) assms(4) show False
      by (auto simp: reqs_ok_def pending_ok_def)
  qed
qed (rule prompt_facts [OF assms(1-3)])+

text \<open>The turn of a request that is done.\<close>

lemma done_turn:
  assumes "relay_reach W Y" "issued (ys_pc Y c) = Some (p, req)" "is_user req"
    and don: "rs_done (rn_reqs (ys_obj Y p) (rq_id req))"
  obtains (ran) pre t post where "rn_log (ys_obj Y p) = pre @ t # post" "tl_req t = req"
      "rs_err (rn_reqs (ys_obj Y p) (rq_id req)) = err_of (tl_result t)"
      "sink_trace (HttpSink c) (rn_out (ys_obj Y p)) =
        turn_body (rw_cfg W) (replay (rw_agent W) t)
          (fst (sequential (rw_cfg W) (rw_agent W) pre (ys_init Y p))) req @ [EvDone]"
  | (shed) "ss_run_stop (rn_st (ys_obj Y p))" "sink_trace (HttpSink c) (rn_out (ys_obj Y p)) = []"
proof -
  let ?s = "ys_obj Y p" and ?k = "HttpSink c"
  note F = prompt_facts [OF assms(1-3)] and tr = done_trace [OF assms]
  have logged: "tl_req t \<in> known ?s" if "t \<in> set (rn_log ?s)" for t using that running_known(2) by blast
  from F(2,5) don consider (log) t where "t \<in> set (rn_log ?s)" "rq_id (tl_req t) = rq_id req"
    | (shed) "rs_shed (rn_reqs ?s (rq_id req))" "rq_id req \<notin> log_ids ?s"
    using history_done by (fastforce simp: log_ids_def)
  then show thesis
  proof cases
    case (log t)
    then have req: "tl_req t = req" using F(9) logged by blast
    from log(1) obtain pre post where sp: "rn_log ?s = pre @ t # post" by (auto simp: in_set_conv_decomp)
    have ids: "rq_id (tl_req t) \<notin> (\<lambda>x. rq_id (tl_req x)) ` set (pre @ post)"
      using F(5) sp by (auto simp: history_ok_def)
    have "rq_sink (tl_req t') \<noteq> rq_sink (tl_req t)" if t': "t' \<in> set (pre @ post)" for t'
    proof
      assume "rq_sink (tl_req t') = rq_sink (tl_req t)"
      moreover have "t' \<in> set (rn_log ?s)" using t' sp by auto
      ultimately have "tl_req t' = req" using F(8) [OF logged] req F(3) by simp
      with ids req imageI [OF t', of "\<lambda>x. rq_id (tl_req x)"] show False by simp
    qed
    then have "\<forall>t' \<in> set (pre @ post). rq_sink (tl_req t') \<noteq> rq_sink (tl_req t)" by blast
    note one = log_out_one [OF this, of "rw_cfg W" "rw_agent W" "ys_init Y p"]
    have err: "rs_err (rn_reqs ?s (rq_id req)) = err_of (tl_result t)"
      using F(5) log(1) req unfolding history_ok_def by blast
    show thesis by (rule ran [OF sp req err]) (use one tr sp req F(3) in simp)
  next
    case shed
    have "rq_sink (tl_req t) \<noteq> ?k" if "t \<in> set (rn_log ?s)" for t
      using F(8) [OF logged [OF that]] that shed(2) by (auto simp: log_ids_def)
    then have "sink_trace ?k (rn_out ?s) = []" using tr log_out_silent by simp
    moreover have "ss_run_stop (rn_st ?s)"
      using relay_reach_all(3) [OF assms(1)] assms(2,3) shed(1) unfolding results_ok_def by blast
    ultimately show thesis using that(2) by blast
  qed
qed

lemma returned_turn:
  assumes "relay_reach W Y" "ys_pc Y c = CReturned (Some (p, req)) e" "is_prompt (ys_call Y c)"
  obtains (ran) pre t post where "rn_log (ys_obj Y p) = pre @ t # post" "tl_req t = req"
      "\<forall>err. tl_result t = Inl err \<longrightarrow> e = Some err"
      "sink_trace (HttpSink c) (ys_out Y) =
        turn_body (rw_cfg W) (replay (rw_agent W) t)
          (fst (sequential (rw_cfg W) (rw_agent W) pre (ys_init Y p))) req @ [EvDone]"
  | (shed) "ss_run_stop (rn_st (ys_obj Y p))" "sink_trace (HttpSink c) (ys_out Y) = []"
proof -
  have ok: "calls_ok W Y" "outs_ok Y" "results_ok Y"
    using relay_reach_all [OF assms(1)] by (simp_all add: relay_ok_def)
  from assms(2) have i: "issued (ys_pc Y c) = Some (p, req)" by simp
  have user: "is_user req" using issued_kind(1) [OF ok(1) i] assms(3) by simp
  have d: "rs_done (rn_reqs (ys_obj Y p) (rq_id req))"
    "\<And>m. rs_err (rn_reqs (ys_obj Y p) (rq_id req)) = Some m \<Longrightarrow> e = Some m"
    using ok(3) assms(2,3) unfolding results_ok_def by blast+
  note out = outs_okD(1) [OF ok(2) i]
  from assms(1) i user d(1) show thesis
  proof (cases rule: done_turn)
    case (ran pre t post)
    have "\<forall>err. tl_result t = Inl err \<longrightarrow> e = Some err" using ran(3) d(2) by (auto simp: err_of_def)
    with ran out show thesis by (intro that(1) [of pre t post]) simp_all
  next
    case shed
    with out show thesis by (intro that(2)) simp_all
  qed
qed

text \<open>C2: A prompt gets its own turn, whatever runs at the same time: any number of other prompts, reactions
  and cancellations, on this conversation or others, sessions being created, raced for and collected.
  When \<open>Prompt\<close> is back, its request has gone to a session of its own conversation, and its sink has
  received exactly the output of its own turn, run after the turns before it, and one \<open>Done\<close>; a failure
  of the turn is what it returns. Otherwise it was refused (one error, one \<open>Done\<close>, an error
  returned), or its session was stopped under it and the sink has received nothing.\<close>

theorem prompt_returns_its_turn:
  assumes "relay_reach W Y" "ys_pc Y c = CReturned x e" "is_prompt (ys_call Y c)"
  shows "case x of
      None \<Rightarrow> e \<noteq> None \<and> (\<exists>t. sink_trace (HttpSink c) (ys_out Y) = [EvError t ''user_caused_error'', EvDone])
    | Some (p, req) \<Rightarrow>
        ss_conv_id (rn_st (ys_obj Y p)) = call_conv (ys_call Y c) \<and>
        ((\<exists>pre t post. rn_log (ys_obj Y p) = pre @ t # post \<and> tl_req t = req \<and>
            sink_trace (HttpSink c) (ys_out Y) =
              turn_body (rw_cfg W) (replay (rw_agent W) t)
                (fst (sequential (rw_cfg W) (rw_agent W) pre (ys_init Y p))) req @ [EvDone] \<and>
            (\<forall>err. tl_result t = Inl err \<longrightarrow> e = Some err)) \<or>
         ss_run_stop (rn_st (ys_obj Y p)) \<and> sink_trace (HttpSink c) (ys_out Y) = [])"
proof (cases x)
  case None
  with outs_okD(2) [OF relay_reach_all(2) [OF assms(1)], of c] assms(2,3) show ?thesis by (simp add: own_trace_def)
next
  case (Some pr)
  then obtain p req where x: "x = Some (p, req)" by (cases pr) auto
  have "calls_ok W Y" using relay_reach_all(1) [OF assms(1)] by (simp add: relay_ok_def)
  from calls_okD(5) [OF this, of c p req] assms(2) have conv: "ss_conv_id (rn_st (ys_obj Y p)) = call_conv (ys_call Y c)"
    by (simp add: x issued_ok_def)
  from assms(1) assms(2) [unfolded x] assms(3) show ?thesis
  proof (cases rule: returned_turn)
    case (ran pre t post)
    with conv show ?thesis unfolding x by (simp only: option.case prod.case) blast
  next
    case shed
    with conv show ?thesis by (simp add: x)
  qed
qed

text \<open>The concrete run: the sink has the notification's text and \<open>Done\<close>.\<close>

theorem prompt_returns_its_turn_witness:
  "\<exists>Y e st. relay_reach demo_world Y \<and> ys_call Y 0 = demo_call \<and>
     ys_pc Y 0 = CReturned (Some (0, user_req 0 (HttpSink 0) no_options [TextBlock ''hi''] 0 0)) e \<and>
     sink_trace (HttpSink 0) (ys_out Y) =
       turn_body demo_config (replay quiet_agent
         \<lparr>tl_req = user_req 0 (HttpSink 0) no_options [TextBlock ''hi''] 0 0, tl_updates = [\<lparr>upd_message = Some (Some ''hello''), upd_thought = None\<rparr>], tl_result = Inr EndTurn\<rparr>)
         st (user_req 0 (HttpSink 0) no_options [TextBlock ''hi''] 0 0) @ [EvDone]"
proof (rule demo_returned [where u = "\<lparr>upd_message = Some (Some ''hello''), upd_thought = None\<rparr>"])
  let ?u = "\<lparr>upd_message = Some (Some ''hello''), upd_thought = None\<rparr>"
  let ?req = "user_req 0 (HttpSink 0) no_options [TextBlock ''hi''] 0 0"
  fix Y e
  assume Y: "relay_reach demo_world Y" "ys_call Y 0 = demo_call" "ys_pc Y 0 = CReturned (Some (0, ?req)) e"
    "\<not> ss_run_stop (rn_st (ys_obj Y 0))"
    "rn_log (ys_obj Y 0) = [\<lparr>tl_req = ?req, tl_updates = [?u], tl_result = Inr EndTurn\<rparr>]"
  have "is_prompt (ys_call Y 0)" by (simp add: Y(2))
  from prompt_returns_its_turn [OF Y(1,3) this] Y(4) obtain pre t post where
    "rn_log (ys_obj Y 0) = pre @ t # post" "sink_trace (HttpSink 0) (ys_out Y) =
      turn_body demo_config (replay quiet_agent t) (fst (sequential demo_config quiet_agent pre (ys_init Y 0))) ?req @ [EvDone]"
    by (auto simp: demo_world_def)
  with Y(5) have "sink_trace (HttpSink 0) (ys_out Y) =
      turn_body demo_config (replay quiet_agent \<lparr>tl_req = ?req, tl_updates = [?u], tl_result = Inr EndTurn\<rparr>)
        (fst (sequential demo_config quiet_agent pre (ys_init Y 0))) ?req @ [EvDone]"
    by (auto simp: append_eq_Cons_conv Cons_eq_append_conv)
  with Y(1-3) show ?thesis by blast
qed

end
