(* ===== verification/Handler_Runs.thy ===== *)
theory Handler_Runs
  imports Relay_Prompts Http_Handler
begin

text \<open>
  The HTTP handlers at work (internal/httpsrv/handler.go) around the relay of theory \<open>Relay_Runs\<close>:
  every query has a handler inside \<open>Router.Prompt\<close>, a goroutine watching for the client to go away
  and a heartbeat goroutine; every reaction has a handler that returns once it is queued. Writing to
  a sink is a step of its own: a goroutine that has produced events (the runner, the drain, a caller
  that is refused) makes the calls on the sink one after the other before it goes on, and anything
  else happens in between. A context is done when its client is gone, or when its handler has
  returned: net/http cancels the context of a request then.
\<close>

section \<open>The drain and the runner of a session\<close>

text \<open>The drain's turn, and the turn a \<open>beginTurn\<close> announces, is the one that has been prompted.\<close>

definition turn_current :: "run_state \<Rightarrow> bool" where
  "turn_current s \<longleftrightarrow>
     (\<forall>td. dr_td (ss_drain (rn_st s)) = Some td \<or> MsgBeginTurn td \<in> set (rn_chan s) \<longrightarrow>
        (\<exists>req. prompted (rn_pc s) = Some req \<and> td = turn_def_of req))"

lemma notif_only: "list_all is_notif ms \<Longrightarrow> MsgBeginTurn td \<notin> set ms"
  by (induction ms) auto

fun drains :: "runner_pc \<Rightarrow> bool" where
  "drains (RPrompt req) \<longleftrightarrow> True"
| "drains (REnd req res) \<longleftrightarrow> True"
| "drains (RAck req res) \<longleftrightarrow> True"
| "drains _ \<longleftrightarrow> False"

lemma quiet_chan:
  assumes "chan_ok s" "\<not> drains (rn_pc s)"
  shows "dr_td (ss_drain (rn_st s)) = None" "MsgBeginTurn td \<notin> set (rn_chan s)"
proof -
  from assms have "list_all is_notif (rn_chan s) \<and> dr_td (ss_drain (rn_st s)) = None"
    by (cases "rn_pc s") (simp_all add: chan_ok_def)
  then show "dr_td (ss_drain (rn_st s)) = None" "MsgBeginTurn td \<notin> set (rn_chan s)" by (simp_all add: notif_only)
qed

lemma drain_step_td:
  "drain_step m d = (d', evs, ack) \<Longrightarrow> dr_td d' = Some td \<Longrightarrow> dr_td d = Some td \<or> m = MsgBeginTurn td"
  by (cases m) (auto split: option.splits prod.splits)

lemma turn_current_frame:
  assumes "turn_current s" "ss_drain (rn_st s') = ss_drain (rn_st s)" "prompted (rn_pc s') = prompted (rn_pc s)"
    "\<And>td. MsgBeginTurn td \<in> set (rn_chan s') \<Longrightarrow> MsgBeginTurn td \<in> set (rn_chan s)"
  shows "turn_current s'"
  using assms unfolding turn_current_def by metis

lemma turn_current_step:
  assumes "session_step cfg ag a s s'" "chan_ok s" "turn_current s"
  shows "turn_current s'"
  using assms(1)
proof cases
  case (Begin req blocks)
  with quiet_chan [OF assms(2)] show ?thesis by (simp add: turn_current_def)
next
  case (Conclude req res)
  with quiet_chan [OF assms(2)] show ?thesis by (simp add: turn_current_def)
next
  case (Receive m ms d evs ack)
  with assms(3) drain_step_td [OF Receive(5)] show ?thesis by (auto simp: turn_current_def)
qed (rule turn_current_frame [OF assms(3)]; simp add: turn_start_def)+

lemma turn_current_reach:
  assumes "session_reach cfg ag st s" "fresh_session st"
  shows "turn_current s"
  using assms
proof (induction rule: session_reach.induct)
  case start
  then show ?case by (simp add: turn_current_def session_start_def fresh_session_def drain_init_def)
next
  case (step s a s')
  have "chan_ok s" using reach_ok [OF step.hyps(1) step.prems] by (simp add: run_ok_def)
  with step turn_current_step show ?case by blast
qed

section \<open>States\<close>

text \<open>A handler: in its call of the router, past it (\<open>done\<close> is closed), returned.\<close>

datatype handler_pc = HNone | HCall | HClosed | HBack

text \<open>The goroutine that watches for the client to go away: started, waiting in its select, about to
  call \<open>Cancel\<close>, over. A select that finds both channels closed takes either; one that waits is woken
  by the first to close.\<close>

datatype watch_pc = WNone | WStart | WParked | WFire | WEnd

text \<open>What is fixed for a run.\<close>

record handler_world =
  hw_relay :: relay_world
  hw_config :: handler_config
  hw_io :: io_env

text \<open>\<open>hr_pend\<close> is what a goroutine of the relay has still to write before it goes on; \<open>hr_acts\<close> is
  history: what has happened to a sink. Sinks and handlers go by the number of their call.\<close>

record handler_state =
  hr_relay :: relay_state
  hr_pend :: "relay_actor \<Rightarrow> (sink_ref \<times> sink_event) list"
  hr_sink :: "nat \<Rightarrow> http_sink"
  hr_acts :: "nat \<Rightarrow> sink_act list"
  hr_pc :: "nat \<Rightarrow> handler_pc"
  hr_watch :: "nat \<Rightarrow> watch_pc"
  hr_gone :: "nat \<Rightarrow> bool"

definition handler_start :: handler_state where
  "handler_start = \<lparr>hr_relay = relay_start, hr_pend = (\<lambda>_. []), hr_sink = (\<lambda>_. new_sink new_sse_writer 0),
     hr_acts = (\<lambda>_. []), hr_pc = (\<lambda>_. HNone), hr_watch = (\<lambda>_. WNone), hr_gone = (\<lambda>_. False)\<rparr>"

text \<open>The calls of the router that a query and a reaction make.\<close>

definition query_call :: "handler_config \<Rightarrow> router_config \<Rightarrow> poe_request \<Rightarrow> api_call" where
  "query_call hc cfg req = PromptCall (pq_conversation_id req) (pq_user_id req)
     (map (to_turn (sr_allow_attachments (hc_settings hc))) (pq_query req))
     (parse_options (request_params req) (cfg_defaults cfg))"

definition reaction_call :: "poe_request \<Rightarrow> api_call" where
  "reaction_call req = ReactionCall (pq_conversation_id req) (pq_user_id req) (pq_message_id req)
     (pq_reaction req) (pq_action req)"

text \<open>An act on the sink of call \<open>c\<close>, and a call on any sink; \<open>discardSink\<close> only logs.\<close>

definition act_on :: "io_env \<Rightarrow> nat \<Rightarrow> sink_act \<Rightarrow> handler_state \<Rightarrow> handler_state" where
  "act_on io c a H = H\<lparr>hr_sink := (hr_sink H)(c := sink_step io a (hr_sink H c)),
     hr_acts := (hr_acts H)(c := hr_acts H c @ [a])\<rparr>"

fun deliver :: "io_env \<Rightarrow> sink_ref \<Rightarrow> sink_event \<Rightarrow> handler_state \<Rightarrow> handler_state" where
  "deliver io (HttpSink c) e H = act_on io c (SinkCall e) H"
| "deliver io (DiscardSink conv) e H = H"

text \<open>A channel the watcher waits for is closed.\<close>

definition wake :: "watch_pc \<Rightarrow> watch_pc \<Rightarrow> watch_pc" where
  "wake next w = (if w = WParked then next else w)"

definition ctx_done :: "handler_state \<Rightarrow> nat \<Rightarrow> bool" where
  "ctx_done H c \<longleftrightarrow> hr_gone H c \<or> hr_pc H c = HBack"

definition querying :: "handler_state \<Rightarrow> nat \<Rightarrow> bool" where
  "querying H c \<longleftrightarrow> hr_pc H c \<noteq> HNone \<and> is_prompt (ys_call (hr_relay H) c)"

section \<open>Steps\<close>

text \<open>A query whose \<open>meta\<close> event could be written and that the login broker does not take; a reaction
  with a kind; the client of a request goes away; a step of the relay, by a goroutine that has nothing
  left to write; a call on a sink; the heartbeat; the way of a handler after its call; the watcher.\<close>

inductive handler_step :: "handler_world \<Rightarrow> handler_state \<Rightarrow> handler_state \<Rightarrow> bool"
  for W :: handler_world where
  Query: "c = ys_next_call (hr_relay H) \<Longrightarrow> sse_meta (hw_io W) new_sse_writer = (None, w) \<Longrightarrow>
    handler_step W H (H\<lparr>
      hr_relay := arrive (query_call (hw_config W) (rw_cfg (hw_relay W)) req) (hr_relay H),
      hr_sink := (hr_sink H)(c := new_sink w (hc_heartbeat (hw_config W))), hr_acts := (hr_acts H)(c := []),
      hr_pc := (hr_pc H)(c := HCall), hr_watch := (hr_watch H)(c := WStart)\<rparr>)"
| React: "c = ys_next_call (hr_relay H) \<Longrightarrow> pq_reaction req \<noteq> [] \<Longrightarrow>
    handler_step W H (H\<lparr>hr_relay := arrive (reaction_call req) (hr_relay H), hr_pc := (hr_pc H)(c := HCall)\<rparr>)"
| Gone: "hr_pc H c \<noteq> HNone \<Longrightarrow>
    handler_step W H (H\<lparr>hr_gone := (hr_gone H)(c := True), hr_watch := (hr_watch H)(c := wake WFire (hr_watch H c))\<rparr>)"
| Relay: "relay_step (hw_relay W) A (hr_relay H) Y \<Longrightarrow> A \<noteq> Client \<Longrightarrow> hr_pend H A = [] \<Longrightarrow>
    handler_step W H (H\<lparr>hr_relay := Y,
      hr_pend := (hr_pend H)(A := drop (length (ys_out (hr_relay H))) (ys_out Y))\<rparr>)"
| Write: "hr_pend H A = (k, e) # es \<Longrightarrow>
    handler_step W H (deliver (hw_io W) k e (H\<lparr>hr_pend := (hr_pend H)(A := es)\<rparr>))"
| Beat: "querying H c \<Longrightarrow> a = HbTick \<or> a = HbStop \<Longrightarrow> handler_step W H (act_on (hw_io W) c a H)"
| Close: "hr_pc H c = HCall \<Longrightarrow> ys_pc (hr_relay H) c = CReturned x e \<Longrightarrow> hr_pend H (Caller c) = [] \<Longrightarrow>
    handler_step W H (H\<lparr>hr_pc := (hr_pc H)(c := HClosed), hr_watch := (hr_watch H)(c := wake WEnd (hr_watch H c))\<rparr>)"
| Back: "hr_pc H c = HClosed \<Longrightarrow>
    handler_step W H (let H' = H\<lparr>hr_pc := (hr_pc H)(c := HBack), hr_watch := (hr_watch H)(c := wake WFire (hr_watch H c))\<rparr>
      in if is_prompt (ys_call (hr_relay H) c) then act_on (hw_io W) c SinkStop H' else H')"
| Park: "hr_watch H c = WStart \<Longrightarrow> \<not> ctx_done H c \<Longrightarrow> hr_pc H c = HCall \<Longrightarrow>
    handler_step W H (H\<lparr>hr_watch := (hr_watch H)(c := WParked)\<rparr>)"
| Fire: "hr_watch H c = WStart \<Longrightarrow> ctx_done H c \<Longrightarrow>
    handler_step W H (H\<lparr>hr_watch := (hr_watch H)(c := WFire)\<rparr>)"
| Stand: "hr_watch H c = WStart \<Longrightarrow> hr_pc H c \<in> {HClosed, HBack} \<Longrightarrow>
    handler_step W H (H\<lparr>hr_watch := (hr_watch H)(c := WEnd)\<rparr>)"
| Abort: "hr_watch H c = WFire \<Longrightarrow> ys_call (hr_relay H) c = PromptCall conv user query opts \<Longrightarrow>
    handler_step W H (H\<lparr>hr_relay := arrive (CancelCall conv) (hr_relay H), hr_watch := (hr_watch H)(c := WEnd)\<rparr>)"

inductive handler_reach :: "handler_world \<Rightarrow> handler_state \<Rightarrow> bool" for W :: handler_world where
  start: "handler_reach W handler_start"
| step: "handler_reach W H \<Longrightarrow> handler_step W H H' \<Longrightarrow> handler_reach W H'"

text \<open>The router's part of a run is a run of the relay.\<close>

lemma act_on_simps [simp]:
  "hr_relay (act_on io c a H) = hr_relay H" "hr_pend (act_on io c a H) = hr_pend H"
  "hr_pc (act_on io c a H) = hr_pc H" "hr_watch (act_on io c a H) = hr_watch H"
  "hr_gone (act_on io c a H) = hr_gone H"
  "hr_sink (act_on io c a H) = (hr_sink H)(c := sink_step io a (hr_sink H c))"
  "hr_acts (act_on io c a H) = (hr_acts H)(c := hr_acts H c @ [a])"
  by (simp_all add: act_on_def)

lemma deliver_simps [simp]:
  "hr_relay (deliver io k e H) = hr_relay H" "hr_pend (deliver io k e H) = hr_pend H"
  "hr_pc (deliver io k e H) = hr_pc H" "hr_watch (deliver io k e H) = hr_watch H"
  "hr_gone (deliver io k e H) = hr_gone H"
  by (cases k; simp)+

lemma handler_step_relay:
  assumes "handler_step W H H'"
  shows "hr_relay H' = hr_relay H \<or> (\<exists>A. relay_step (hw_relay W) A (hr_relay H) (hr_relay H'))"
  using assms by cases (auto simp: Let_def intro: arrive_step)

lemma handler_reach_relay: "handler_reach W H \<Longrightarrow> relay_reach (hw_relay W) (hr_relay H)"
proof (induction rule: handler_reach.induct)
  case start
  show ?case by (simp add: handler_start_def relay_reach.start)
next
  case (step H H')
  with handler_step_relay [OF step.hyps(2)] show ?case by (auto intro: relay_reach.step)
qed

section \<open>Who has something to write\<close>

text \<open>The sinks a goroutine may still have to write to, by where it stands: the drain to the sink of its
  turn, the runner after the options and after the end of a turn, a caller that has been refused.\<close>

fun owes :: "relay_state \<Rightarrow> relay_actor \<Rightarrow> sink_ref \<Rightarrow> bool" where
  "owes Y (Goroutine p a) k \<longleftrightarrow> p < ys_next_obj Y \<and>
     (a = Drain \<and> (\<exists>td. dr_td (ss_drain (rn_st (ys_obj Y p))) = Some td \<and> k = td_sink td) \<or>
      a = Runner \<and> (\<exists>req. ((\<exists>bs. rn_pc (ys_obj Y p) = RBegin req bs) \<or> rn_pc (ys_obj Y p) = RFinish req) \<and>
        k = rq_sink req))"
| "owes Y (Caller c) k \<longleftrightarrow> (\<exists>e. ys_pc Y c = CReturned None e) \<and> k = HttpSink c"
| "owes Y _ k \<longleftrightarrow> False"

lemma move_events:
  assumes "session_step cfg ag a s s'" "a \<noteq> Outside"
  shows "\<exists>evs. rn_out s' = rn_out s @ evs \<and> (\<forall>k \<in> fst ` set evs.
    a = Drain \<and> (\<exists>td. dr_td (ss_drain (rn_st s')) = Some td \<and> k = td_sink td) \<or>
    a = Runner \<and> (\<exists>req. ((\<exists>bs. rn_pc s' = RBegin req bs) \<or> rn_pc s' = RFinish req) \<and> k = rq_sink req))"
  using assms(1)
proof cases
  case (Receive m ms d evs' ack)
  then show ?thesis
    by (cases m) (auto split: option.splits prod.splits)
qed (use assms(2) in auto)

lemma give_up_events:
  "\<exists>evs. ys_out (give_up c t e e' Y) = ys_out Y @ evs \<and> (\<forall>k \<in> fst ` set evs. owes (give_up c t e e' Y) (Caller c) k)"
  by (simp add: give_up_def)

lemma relay_emits:
  assumes "relay_step W A Y Y'"
  shows "\<exists>evs. ys_out Y' = ys_out Y @ evs \<and> (\<forall>k \<in> fst ` set evs. owes Y' A k)"
  using assms
proof cases
  case (Empty c)
  with give_up_events show ?thesis by blast
next
  case (Refused c ag mkdir now e r)
  with give_up_events [of c _ _ _ "adopt r Y"] show ?thesis by simp
next
  case (Submit c p bs req now acc q h)
  show ?thesis
  proof (cases acc)
    case True
    then show ?thesis by (intro exI [of _ "[]"]) (simp add: Submit(2) pushed_def)
  next
    case False
    have ext: "\<exists>evs. ys_out (give_up c u e e' Z) = ys_out Y @ evs \<and> (\<forall>k \<in> fst ` set evs. owes (give_up c u e e' Z) (Caller c) k)"
      if "ys_out Z = ys_out Y" for u e e' Z using give_up_events [of c u e e' Z] that by simp
    show ?thesis unfolding Submit(1,2) pushed_def if_P [OF False] by (rule ext) simp
  qed
next
  case (Move p a s)
  have ow: "owes Y' A k \<longleftrightarrow>
      a = Drain \<and> (\<exists>td. dr_td (ss_drain (rn_st s)) = Some td \<and> k = td_sink td) \<or>
      a = Runner \<and> (\<exists>req. ((\<exists>bs. rn_pc s = RBegin req bs) \<or> rn_pc s = RFinish req) \<and> k = rq_sink req)" for k
    using Move(1-3) by simp
  from move_events [OF Move(5,4), folded ow] obtain evs where "rn_out s = rn_out (ys_obj Y p) @ evs"
    "\<forall>k \<in> fst ` set evs. owes Y' A k" by blast
  then show ?thesis using Move(2) by (simp add: put_run_def)
qed auto

text \<open>What a goroutine owes it owes until it moves itself.\<close>

lemma move_owes:
  assumes "session_step cfg ag b s s'" "b \<noteq> Outside"
  shows "b \<noteq> Drain \<Longrightarrow> ss_drain (rn_st s') = ss_drain (rn_st s)"
    and "b \<noteq> Runner \<Longrightarrow> (\<And>req. rn_pc s \<noteq> RPrompt req) \<Longrightarrow> rn_pc s' = rn_pc s"
  using assms by (auto simp: turn_start_def elim!: session_step.cases)

lemma owes_frame:
  assumes "owes Y A k" "ys_next_obj Y \<le> ys_next_obj Y'"
    "\<And>p. p < ys_next_obj Y \<Longrightarrow> ss_drain (rn_st (ys_obj Y' p)) = ss_drain (rn_st (ys_obj Y p)) \<and>
       rn_pc (ys_obj Y' p) = rn_pc (ys_obj Y p)"
    "\<And>c e. ys_pc Y c = CReturned None e \<Longrightarrow> ys_pc Y' c = CReturned None e"
  shows "owes Y' A k"
  using assms by (cases "(Y, A, k)" rule: owes.cases) auto

lemma stop_session_drain:
  "stop_session p (router_view p Y) = Inr r \<Longrightarrow> ss_drain (ro_objs r p) = ss_drain (rn_st (ys_obj Y p))"
  by (erule view_stop) simp

lemma owes_stable:
  assumes "relay_step W B Y Y'" "relay_ok W Y" "A \<noteq> B" "owes Y A k"
  shows "owes Y' A k"
proof -
  have calls: "calls_ok W Y" using assms(2) by (simp add: relay_ok_def)
  have mono: "ys_next_obj Y \<le> ys_next_obj Y'" using relay_ok_step(2) [OF assms(1,2)] by (simp add: evolves_def)
  note frame = owes_frame [OF assms(4) mono]
  from assms(1) show ?thesis
  proof cases
    case (Arrive call)
    with calls_okD(1) [OF calls, of "ys_next_call Y"] show ?thesis by (intro frame) auto
  next
    case (Move p b s)
    note m = move_owes [OF Move(5,4)]
    show ?thesis
    proof (cases A)
      case (Goroutine q a)
      with assms(3,4) Move(1,2) m show ?thesis
        by (cases "q = p") auto
    qed (use assms(4) Move(2) in simp_all)
  next
    case (Install c p resumed w seed r)
    then show ?thesis
      by (intro frame) (auto elim!: create_finish_cases dest!: stop_session_drain)
  next
    case (Evict conv p r)
    with stop_session_drain [OF Evict(4)] show ?thesis by (intro frame) auto
  qed (rule frame; use calls in auto)+
qed

lemma owes_issued:
  assumes "relay_ok W Y" "owes Y (Goroutine p a) (HttpSink c)"
  obtains req where "issued (ys_pc Y c) = Some (p, req)" "req \<in> set (current (rn_pc (ys_obj Y p)))" "p < ys_next_obj Y"
proof -
  have p: "p < ys_next_obj Y" using assms(2) by simp
  have "fresh_session (ys_init Y p)" "session_reach (rw_cfg W) (rw_agent W) (ys_init Y p) (ys_obj Y p)"
    using assms(1) p by (auto simp: relay_ok_def sessions_ok_def)
  then have cur: "turn_current (ys_obj Y p)" by (rule turn_current_reach [rotated])
  have "\<exists>req. req \<in> set (current (rn_pc (ys_obj Y p))) \<and> rq_sink req = HttpSink c"
    using assms(2)
  proof (simp, elim conjE disjE exE)
    fix td assume td: "dr_td (ss_drain (rn_st (ys_obj Y p))) = Some td" "HttpSink c = td_sink td"
    from cur td(1) obtain req where req: "prompted (rn_pc (ys_obj Y p)) = Some req" "td = turn_def_of req"
      unfolding turn_current_def by blast
    have "rq_sink req = HttpSink c" using td(2) req(2) by (simp add: turn_def_of_def)
    with req(1) show ?thesis by (cases "rn_pc (ys_obj Y p)") simp_all
  next
    fix req bs assume "rn_pc (ys_obj Y p) = RBegin req bs" "HttpSink c = rq_sink req"
    then show ?thesis by simp
  next
    fix req assume "rn_pc (ys_obj Y p) = RFinish req" "HttpSink c = rq_sink req"
    then show ?thesis by simp
  qed
  then obtain req where req: "req \<in> set (current (rn_pc (ys_obj Y p)))" "rq_sink req = HttpSink c" by blast
  from known_sink [OF assms(1) p _ req(2)] req(1) have "issued (ys_pc Y c) = Some (p, req)" by (auto simp: known_def)
  then show thesis using that req(1) p by blast
qed

lemma owes_not_refused:
  assumes "relay_ok W Y" "owes Y (Goroutine p a) (HttpSink c)"
  shows "ys_pc Y c \<noteq> CReturned None e"
  by (rule owes_issued [OF assms]) auto

lemma owes_one_session:
  assumes "relay_ok W Y" "owes Y (Goroutine p a) (HttpSink c)" "owes Y (Goroutine q b) (HttpSink c)"
  shows "p = q \<and> a = b"
proof -
  obtain r1 where 1: "issued (ys_pc Y c) = Some (p, r1)" by (rule owes_issued [OF assms(1,2)])
  obtain r2 where "issued (ys_pc Y c) = Some (q, r2)" by (rule owes_issued [OF assms(1,3)])
  with 1 have pq: "q = p" by simp
  have p: "p < ys_next_obj Y" using assms(2) by simp
  have "turn_current (ys_obj Y p)"
    using assms(1) p turn_current_reach by (auto simp: relay_ok_def sessions_ok_def)
  with assms(2,3) show ?thesis by (auto simp: pq turn_current_def)
qed

lemma owes_unique:
  assumes "relay_ok W Y" "owes Y A (HttpSink c)" "owes Y B (HttpSink c)"
  shows "A = B"
proof -
  consider p a q b where "A = Goroutine p a" "B = Goroutine q b" | p a d where "A = Goroutine p a" "B = Caller d"
    | p a d where "B = Goroutine p a" "A = Caller d" | d d' where "A = Caller d" "B = Caller d'"
    using assms(2,3) by (cases A; cases B) auto
  then show ?thesis
  proof cases
    case (1 p a q b)
    from owes_one_session [OF assms(1) assms(2) [unfolded 1] assms(3) [unfolded 1]] 1 show ?thesis by simp
  next
    case (2 p a d)
    from owes_not_refused [OF assms(1) assms(2) [unfolded 2]] assms(3) 2 show ?thesis by simp
  next
    case (3 p a d)
    from owes_not_refused [OF assms(1) assms(3) [unfolded 3]] assms(2) 3 show ?thesis by simp
  next
    case (4 d d')
    with assms(2,3) show ?thesis by simp
  qed
qed

section \<open>The invariant\<close>

definition pend_ok :: "handler_state \<Rightarrow> bool" where
  "pend_ok H \<longleftrightarrow> (\<forall>A. \<forall>k \<in> fst ` set (hr_pend H A). owes (hr_relay H) A k)"

text \<open>A sink has received what the relay's trace says, but for the rest of one goroutine.\<close>

definition trace_ok :: "handler_state \<Rightarrow> nat \<Rightarrow> bool" where
  "trace_ok H c \<longleftrightarrow> (\<exists>A. (\<forall>B. B \<noteq> A \<longrightarrow> sink_trace (HttpSink c) (hr_pend H B) = []) \<and>
     sink_trace (HttpSink c) (ys_out (hr_relay H)) =
       calls_of (hr_acts H c) @ sink_trace (HttpSink c) (hr_pend H A))"

lemma sink_trace_empty: "sink_trace k out = [] \<longleftrightarrow> k \<notin> fst ` set out"
  by (auto simp: sink_trace_def filter_empty_conv)

lemma pend_relay:
  assumes "relay_step W A Y Y'" "relay_ok W Y" "hr_relay H = Y" "pend_ok H" "hr_pend H A = []"
    and H': "hr_relay H' = Y'" "hr_pend H' = (hr_pend H)(A := drop (length (ys_out Y)) (ys_out Y'))"
  shows "pend_ok H'"
proof -
  from relay_emits [OF assms(1)] obtain evs where
    evs: "ys_out Y' = ys_out Y @ evs" "\<forall>k \<in> fst ` set evs. owes Y' A k" by blast
  have "owes Y' B k" if "B \<noteq> A" "k \<in> fst ` set (hr_pend H B)" for B k
    using owes_stable [OF assms(1,2) that(1)] assms(3,4) that(2) by (auto simp: pend_ok_def)
  with evs show ?thesis unfolding pend_ok_def H' by (metis append_eq_conv_conj fun_upd_apply)
qed

lemma trace_relay:
  assumes "relay_step W A Y Y'" "relay_ok W Y" "hr_relay H = Y" "pend_ok H" "hr_pend H A = []" "trace_ok H c"
    and H': "hr_relay H' = Y'" "hr_pend H' = (hr_pend H)(A := drop (length (ys_out Y)) (ys_out Y'))"
      "hr_acts H' = hr_acts H"
  shows "trace_ok H' c"
proof -
  let ?k = "HttpSink c"
  from relay_emits [OF assms(1)] obtain evs where
    evs: "ys_out Y' = ys_out Y @ evs" "\<forall>k \<in> fst ` set evs. owes Y' A k" by blast
  have pend: "hr_pend H' = (hr_pend H)(A := evs)" using evs(1) H'(2) by simp
  from assms(6) obtain C where C: "\<forall>B. B \<noteq> C \<longrightarrow> sink_trace ?k (hr_pend H B) = []"
    "sink_trace ?k (ys_out Y) = calls_of (hr_acts H c) @ sink_trace ?k (hr_pend H C)"
    by (auto simp: trace_ok_def assms(3))
  show ?thesis
  proof (cases "sink_trace ?k evs = []")
    case True
    then show ?thesis unfolding trace_ok_def using C assms(5)
      by (intro exI [of _ C]) (auto simp: pend H'(1,3) evs(1))
  next
    case False
    with evs(2) have mine: "owes Y' A ?k" unfolding sink_trace_empty by blast
    have others: "sink_trace ?k (hr_pend H B) = []" for B
    proof (cases "B = A")
      case B: False
      have "relay_ok W Y'" using relay_ok_step(1) [OF assms(1,2)] .
      with owes_unique [OF this _ mine] B have "\<not> owes Y' B ?k" by blast
      then have "\<not> owes Y B ?k" using owes_stable [OF assms(1,2) B] by blast
      then show ?thesis using assms(4) unfolding pend_ok_def assms(3) sink_trace_empty by blast
    qed (simp add: assms(5))
    show ?thesis unfolding trace_ok_def
      by (intro exI [of _ A]) (use C(2) others in \<open>simp add: pend H'(1,3) evs(1)\<close>)
  qed
qed

text \<open>Everything but a step of the relay and a call on a sink leaves the traces alone.\<close>

lemma trace_frame:
  assumes "trace_ok H c" "hr_pend H' = hr_pend H" "ys_out (hr_relay H') = ys_out (hr_relay H)"
    "calls_of (hr_acts H' c) = calls_of (hr_acts H c)"
  shows "trace_ok H' c"
  using assms by (simp add: trace_ok_def)

lemma calls_of_snoc [simp]:
  "calls_of (as @ [SinkCall e]) = calls_of as @ [e]" "calls_of (as @ [HbTick]) = calls_of as"
  "calls_of (as @ [HbStop]) = calls_of as" "calls_of (as @ [SinkStop]) = calls_of as"
  by (induction as rule: calls_of.induct) auto

lemma pend_frame:
  assumes "pend_ok H" "hr_pend H' = hr_pend H" "hr_relay H' = hr_relay H \<or> hr_relay H' = arrive call (hr_relay H)"
    "relay_ok W (hr_relay H)"
  shows "pend_ok H'"
  unfolding pend_ok_def
proof (intro allI ballI)
  fix A k assume "k \<in> fst ` set (hr_pend H' A)"
  then have "k \<in> fst ` set (hr_pend H A)" by (simp only: assms(2))
  with assms(1) have old: "owes (hr_relay H) A k" unfolding pend_ok_def by blast
  then have "A \<noteq> Client" by auto
  with owes_stable [OF arrive_step assms(4) this old] assms(3) old show "owes (hr_relay H') A k" by auto
qed

lemma pend_write: "pend_ok H \<Longrightarrow> hr_pend H A = x # es \<Longrightarrow> pend_ok (H\<lparr>hr_pend := (hr_pend H)(A := es)\<rparr>)"
  by (auto simp: pend_ok_def)

lemma pend_deliver [simp]: "pend_ok (deliver io k e H) = pend_ok H"
  by (simp add: pend_ok_def)

lemma trace_write:
  assumes "trace_ok H c" "hr_pend H A = (k, e) # es"
  shows "trace_ok (deliver io k e (H\<lparr>hr_pend := (hr_pend H)(A := es)\<rparr>)) c"
proof -
  let ?k = "HttpSink c"
  from assms(1) obtain C where C: "\<forall>B. B \<noteq> C \<longrightarrow> sink_trace ?k (hr_pend H B) = []"
    "sink_trace ?k (ys_out (hr_relay H)) = calls_of (hr_acts H c) @ sink_trace ?k (hr_pend H C)"
    by (auto simp: trace_ok_def)
  show ?thesis
  proof (cases "k = ?k")
    case True
    then have "sink_trace ?k (hr_pend H A) = e # sink_trace ?k es" by (simp add: assms(2) sink_trace_def)
    with C have "C = A" by fastforce
    with C True assms(2) show ?thesis unfolding trace_ok_def by (intro exI [of _ A]) (simp add: sink_trace_def)
  next
    case False
    have same: "sink_trace ?k (if B = A then es else hr_pend H B) = sink_trace ?k (hr_pend H B)" for B
      using False assms(2) by (simp add: sink_trace_def)
    have "hr_acts (deliver io k e (H\<lparr>hr_pend := (hr_pend H)(A := es)\<rparr>)) c = hr_acts H c"
      using False by (cases k) auto
    with C same show ?thesis unfolding trace_ok_def by (intro exI [of _ C]) (simp add: fun_upd_def)
  qed
qed

text \<open>One handler with its sink and its watcher.\<close>

definition sink_ok :: "handler_world \<Rightarrow> handler_state \<Rightarrow> nat \<Rightarrow> bool" where
  "sink_ok W H c \<longleftrightarrow> (\<exists>w. sse_meta (hw_io W) new_sse_writer = (None, w) \<and>
     hr_sink H c = sink_run (hw_io W) (hr_acts H c) (new_sink w (hc_heartbeat (hw_config W))))"

definition one_ok :: "handler_world \<Rightarrow> handler_state \<Rightarrow> nat \<Rightarrow> bool" where
  "one_ok W H c \<longleftrightarrow>
     (ys_next_call (hr_relay H) \<le> c \<longrightarrow> hr_pc H c = HNone \<and> hr_watch H c = WNone) \<and>
     (c < ys_next_call (hr_relay H) \<and> is_prompt (ys_call (hr_relay H) c) \<longrightarrow> hr_pc H c \<noteq> HNone) \<and>
     (hr_pc H c = HClosed \<or> hr_pc H c = HBack \<longrightarrow>
        (\<exists>x e. ys_pc (hr_relay H) c = CReturned x e) \<and> hr_pend H (Caller c) = []) \<and>
     (querying H c \<longrightarrow> sink_ok W H c) \<and>
     (hr_watch H c = WParked \<longrightarrow> hr_pc H c = HCall \<and> \<not> hr_gone H c) \<and>
     (hr_watch H c \<noteq> WNone \<longrightarrow> querying H c)"

definition handler_ok :: "handler_world \<Rightarrow> handler_state \<Rightarrow> bool" where
  "handler_ok W H \<longleftrightarrow> pend_ok H \<and> (\<forall>c. trace_ok H c) \<and> (\<forall>c. one_ok W H c)"

lemma sink_ok_act: "sink_ok W H c \<Longrightarrow> sink_ok W (act_on (hw_io W) d a H) c"
  by (auto simp: sink_ok_def sink_run_def)

lemma sink_ok_frame: "sink_ok W H c \<Longrightarrow> hr_sink H' c = hr_sink H c \<Longrightarrow> hr_acts H' c = hr_acts H c \<Longrightarrow> sink_ok W H' c"
  by (simp add: sink_ok_def)

lemma sink_ok_deliver: "sink_ok W H c \<Longrightarrow> sink_ok W (deliver (hw_io W) k e H) c"
  by (cases k) (simp_all add: sink_ok_act)

lemma one_ok_frame:
  assumes "one_ok W H c" "hr_relay H' = hr_relay H" "hr_pc H' c = hr_pc H c" "hr_watch H' c = hr_watch H c"
    "hr_gone H' c = hr_gone H c" "hr_pend H (Caller c) = [] \<Longrightarrow> hr_pend H' (Caller c) = []"
    "sink_ok W H c \<Longrightarrow> sink_ok W H' c"
  shows "one_ok W H' c"
  using assms unfolding one_ok_def querying_def by auto

text \<open>A new call is no concern of the others.\<close>

lemma one_ok_arrive:
  assumes "one_ok W H c" "hr_relay H' = arrive call (hr_relay H)" "c \<noteq> ys_next_call (hr_relay H)"
    "hr_pc H' c = hr_pc H c" "hr_watch H' c = hr_watch H c \<or> hr_watch H' c = WEnd \<and> hr_watch H c = WFire"
    "hr_gone H' c = hr_gone H c" "hr_pend H' = hr_pend H" "hr_sink H' c = hr_sink H c" "hr_acts H' c = hr_acts H c"
  shows "one_ok W H' c"
proof -
  have eqs: "ys_call (hr_relay H') c = ys_call (hr_relay H) c" "ys_pc (hr_relay H') c = ys_pc (hr_relay H) c"
    "ys_next_call (hr_relay H') = Suc (ys_next_call (hr_relay H))" using assms(2,3) by simp_all
  have q: "querying H' c = querying H c" "sink_ok W H' c = sink_ok W H c"
    by (simp_all add: querying_def sink_ok_def eqs assms(4,8,9))
  from assms(5) show ?thesis
  proof (elim disjE conjE)
    assume w: "hr_watch H' c = hr_watch H c"
    show ?thesis using assms(1,3) unfolding one_ok_def q eqs assms(4,6,7) w
      by (meson Suc_leD le_neq_implies_less less_Suc_eq_le)
  next
    assume w: "hr_watch H' c = WEnd" "hr_watch H c = WFire"
    show ?thesis using assms(1,3) unfolding one_ok_def q eqs assms(4,6,7) w by (simp add: less_Suc_eq_le)
  qed
qed

lemma relay_keeps:
  assumes "relay_step W A Y Y'" "A \<noteq> Client"
  shows "ys_call Y' = ys_call Y" "ys_next_call Y' = ys_next_call Y"
    "ys_pc Y c = CReturned x e \<Longrightarrow> ys_pc Y' c = CReturned x e \<and> A \<noteq> Caller c"
  using assms by (auto elim!: relay_step.cases)

lemma querying_simps [simp]:
  "querying (act_on io d a H) c = querying H c" "querying (deliver io k e H) c = querying H c"
  "querying (H\<lparr>hr_pend := f\<rparr>) c = querying H c" "querying (H\<lparr>hr_watch := w\<rparr>) c = querying H c"
  "querying (H\<lparr>hr_gone := g, hr_watch := w\<rparr>) c = querying H c"
  by (simp_all add: querying_def)

lemma one_ok_relay:
  assumes "one_ok W H c" "relay_step (hw_relay W) A (hr_relay H) Y" "A \<noteq> Client"
  shows "one_ok W (H\<lparr>hr_relay := Y, hr_pend := (hr_pend H)(A := es)\<rparr>) c"
proof -
  note k = relay_keeps [OF assms(2,3)]
  let ?H = "H\<lparr>hr_relay := Y, hr_pend := (hr_pend H)(A := es)\<rparr>"
  have eqs: "querying ?H c = querying H c" "sink_ok W ?H c = sink_ok W H c"
    by (simp_all add: querying_def sink_ok_def k(1))
  have ret: "(\<exists>x e. ys_pc Y c = CReturned x e) \<and> hr_pend ?H (Caller c) = []"
    if "(\<exists>x e. ys_pc (hr_relay H) c = CReturned x e) \<and> hr_pend H (Caller c) = []"
    using that k(3) [of c] by fastforce
  show ?thesis using assms(1) ret unfolding one_ok_def eqs by (simp add: k(1,2))
qed

lemma one_ok_query:
  assumes "c = ys_next_call (hr_relay H)" "sse_meta (hw_io W) new_sse_writer = (None, w)" "is_prompt call"
    "hr_relay H' = arrive call (hr_relay H)" "hr_sink H' c = new_sink w (hc_heartbeat (hw_config W))"
    "hr_acts H' c = []" "hr_pc H' c = HCall" "hr_watch H' c = WStart"
  shows "one_ok W H' c"
  using assms by (simp add: one_ok_def querying_def sink_ok_def sink_run_def)

lemma one_ok_other:
  assumes "one_ok W H c" "c = ys_next_call (hr_relay H)" "\<not> is_prompt call" "hr_relay H' = arrive call (hr_relay H)"
    "hr_watch H' c = hr_watch H c" "hr_pc H' c = HNone \<or> hr_pc H' c = HCall"
  shows "one_ok W H' c"
  using assms by (auto simp: one_ok_def querying_def)

lemma one_ok_local:
  assumes "one_ok W H c" "hr_relay H' = hr_relay H" "hr_pend H' = hr_pend H" "hr_sink H' = hr_sink H" "hr_acts H' = hr_acts H"
    "hr_pc H' c = HNone \<longleftrightarrow> hr_pc H c = HNone" "hr_watch H' c = WNone \<longleftrightarrow> hr_watch H c = WNone"
    "hr_pc H' c = hr_pc H c \<or> (\<exists>x e. ys_pc (hr_relay H) c = CReturned x e) \<and> hr_pend H (Caller c) = []"
    "hr_watch H' c = WParked \<Longrightarrow> hr_pc H' c = HCall \<and> \<not> hr_gone H' c"
  shows "one_ok W H' c"
proof -
  have q: "querying H' c = querying H c" "sink_ok W H' c = sink_ok W H c"
    using assms(2,4-6) by (simp_all add: querying_def sink_ok_def)
  show ?thesis using assms(1) assms(6-9) unfolding one_ok_def q assms(2,3) by metis
qed

text \<open>The steps of a handler and its watcher on their own, and the arrival of a new call.\<close>

lemma one_ok_wait:
  assumes "\<And>d. one_ok W H d" "H' = H\<lparr>hr_gone := (hr_gone H)(d := True), hr_watch := (hr_watch H)(d := wake WFire (hr_watch H d))\<rparr> \<or>
      (\<exists>x e. ys_pc (hr_relay H) d = CReturned x e) \<and> hr_pend H (Caller d) = [] \<and> hr_pc H d = HCall \<and>
        H' = H\<lparr>hr_pc := (hr_pc H)(d := HClosed), hr_watch := (hr_watch H)(d := wake WEnd (hr_watch H d))\<rparr> \<or>
      hr_watch H d = WStart \<and> (\<exists>w. w \<noteq> WNone \<and> (w = WParked \<longrightarrow> hr_pc H d = HCall \<and> \<not> hr_gone H d) \<and>
        H' = H\<lparr>hr_watch := (hr_watch H)(d := w)\<rparr>)"
  shows "one_ok W H' c"
proof -
  have parked: "hr_pc H d = HCall \<and> \<not> hr_gone H d" if "hr_watch H d = WParked" for d
    using assms(1) [of d] that unfolding one_ok_def by blast
  from assms(2) show ?thesis
    by (elim disjE exE conjE; intro one_ok_local [OF assms(1)]) (use parked in \<open>auto simp: wake_def split: if_splits\<close>)
qed

lemma one_ok_new:
  assumes "\<And>d. one_ok W H d" "hr_relay H' = arrive call (hr_relay H)" "n = ys_next_call (hr_relay H)"
    and "one_ok W H' n"
    and "\<And>d. d \<noteq> n \<Longrightarrow> hr_pc H' d = hr_pc H d \<and> hr_gone H' d = hr_gone H d \<and> hr_sink H' d = hr_sink H d \<and>
      hr_acts H' d = hr_acts H d \<and> (hr_watch H' d = hr_watch H d \<or> hr_watch H' d = WEnd \<and> hr_watch H d = WFire)"
    and "hr_pend H' = hr_pend H"
  shows "one_ok W H' c"
proof (cases "c = n")
  case False
  show ?thesis by (rule one_ok_arrive [OF assms(1,2)]) (use assms(3,6) assms(5) [of c] False in simp_all)
qed (use assms(4) in simp)

lemma one_ok_step:
  assumes "handler_step W H H'" "\<And>d. one_ok W H d"
  shows "one_ok W H' c"
  using assms(1)
proof cases
  case (Query d w req)
  have "one_ok W H' d" by (rule one_ok_query [of d H, OF _ Query(3)]) (use Query in \<open>simp_all add: query_call_def\<close>)
  then show ?thesis by (rule one_ok_new [OF assms(2) _ Query(2), rotated 1]) (simp_all add: Query(1))
next
  case (React d req)
  have "one_ok W H' d" by (rule one_ok_other [OF assms(2)]) (use React in \<open>simp_all add: reaction_call_def\<close>)
  then show ?thesis by (rule one_ok_new [OF assms(2) _ React(2), rotated 1]) (simp_all add: React(1))
next
  case (Abort d conv user query opts)
  let ?n = "ys_next_call (hr_relay H)"
  have "hr_watch H ?n = WNone" "hr_pc H ?n = HNone" using assms(2) [of ?n] by (simp_all add: one_ok_def)
  moreover from this Abort(2) have "d \<noteq> ?n" by auto
  ultimately have "one_ok W H' ?n"
    by (intro one_ok_other [OF assms(2) refl, where call = "CancelCall conv"]) (simp_all add: Abort(1))
  then show ?thesis
    by (rule one_ok_new [OF assms(2) _ refl, where call = "CancelCall conv", rotated 1]) (auto simp: Abort(1,2))
next
  case (Relay A Y)
  then show ?thesis using one_ok_relay [OF assms(2)] by blast
next
  case (Write A k e es)
  show ?thesis
    by (rule one_ok_frame [OF assms(2)])
      (use Write in \<open>auto intro!: sink_ok_deliver elim: sink_ok_frame\<close>)
next
  case (Beat d a)
  show ?thesis by (rule one_ok_frame [OF assms(2)]) (use Beat in \<open>auto intro: sink_ok_act\<close>)
next
  case (Back d)
  have "one_ok W (H\<lparr>hr_pc := (hr_pc H)(d := HBack), hr_watch := (hr_watch H)(d := wake WFire (hr_watch H d))\<rparr>) c"
    using assms(2) [of c] Back(2) by (cases "c = d") (auto simp: one_ok_def querying_def wake_def sink_ok_def)
  then show ?thesis
    using Back(1) by (cases "is_prompt (ys_call (hr_relay H) d)")
      (auto simp: Let_def intro: one_ok_frame sink_ok_act)
next
  case (Gone d)
  then show ?thesis by (intro one_ok_wait [OF assms(2), of _ d]) blast
next
  case (Close d x e)
  then show ?thesis by (intro one_ok_wait [OF assms(2), of _ d]) blast
next
  case (Park d)
  then show ?thesis by (intro one_ok_wait [OF assms(2), of _ d]) (auto simp: ctx_done_def)
next
  case (Fire d)
  then show ?thesis by (intro one_ok_wait [OF assms(2), of _ d]) auto
next
  case (Stand d)
  then show ?thesis by (intro one_ok_wait [OF assms(2), of _ d]) auto
qed

lemma pend_step:
  assumes "handler_step W H H'" "relay_ok (hw_relay W) (hr_relay H)" "pend_ok H"
  shows "pend_ok H'"
  using assms(1)
proof cases
  case (Relay A Y)
  show ?thesis by (rule pend_relay [OF Relay(2) assms(2) refl assms(3)]) (use Relay in simp_all)
next
  case (Write A k e es)
  then show ?thesis using pend_write [OF assms(3)] by simp
next
  case (Back c)
  then show ?thesis using assms(3) by (simp add: pend_ok_def Let_def)
qed (rule pend_frame [OF assms(3) _ _ assms(2)]; auto)+

lemma trace_step:
  assumes "handler_step W H H'" "relay_ok (hw_relay W) (hr_relay H)" "outs_ok (hr_relay H)" "pend_ok H" "trace_ok H c"
  shows "trace_ok H' c"
  using assms(1)
proof cases
  case (Query d w req)
  show ?thesis
  proof (cases "c = d")
    case True
    have "calls_ok (hw_relay W) (hr_relay H)" using assms(2) by (simp add: relay_ok_def)
    from calls_okD(1) [OF this, of c] True Query(2) have "ys_pc (hr_relay H) c = CIdle" by simp
    with outs_okD(2) [OF assms(3), of c] have "sink_trace (HttpSink c) (ys_out (hr_relay H)) = []" by (simp add: own_trace_def)
    with assms(5) have "calls_of (hr_acts H c) = []" by (auto simp: trace_ok_def)
    with True Query(1) show ?thesis by (intro trace_frame [OF assms(5)]) simp_all
  next
    case False
    with Query(1) show ?thesis by (intro trace_frame [OF assms(5)]) simp_all
  qed
next
  case (Relay A Y)
  show ?thesis by (rule trace_relay [OF Relay(2) assms(2) refl assms(4) Relay(4) assms(5)]) (use Relay in simp_all)
next
  case (Write A k e es)
  then show ?thesis using trace_write [OF assms(5)] by simp
next
  case (Back d)
  then show ?thesis by (intro trace_frame [OF assms(5)]) (auto simp: Let_def)
qed (rule trace_frame [OF assms(5)]; auto)+

lemma handler_ok_start: "handler_ok W handler_start"
  by (simp add: handler_ok_def handler_start_def pend_ok_def trace_ok_def one_ok_def querying_def relay_start_def)

lemma handler_reach_ok: "handler_reach W H \<Longrightarrow> handler_ok W H"
proof (induction rule: handler_reach.induct)
  case start
  show ?case by (rule handler_ok_start)
next
  case (step H H')
  note all = relay_reach_all(1,2) [OF handler_reach_relay [OF step.hyps(1)]]
  have "pend_ok H" "\<And>c. trace_ok H c" "\<And>c. one_ok W H c" using step.IH by (simp_all add: handler_ok_def)
  then show ?case
    using pend_step [OF step.hyps(2) all(1)] trace_step [OF step.hyps(2) all] one_ok_step [OF step.hyps(2)]
    unfolding handler_ok_def by blast
qed

end
