(* ===== verification/Handler_Properties.thy ===== *)
theory Handler_Properties
  imports Handler_Runs
begin

text \<open>
  What holds of every run of the handlers (theory \<open>Handler_Runs\<close>): when \<open>Router.Prompt\<close> is back its
  sink has received exactly the calls of the relay's trace, and nothing writes to the response
  after that; whose context a turn runs with; whom a cancellation hits.
\<close>

section \<open>When the call is back\<close>

lemma handler_facts:
  assumes "handler_reach W H"
  shows "relay_reach (hw_relay W) (hr_relay H)" "relay_ok (hw_relay W) (hr_relay H)" "pend_ok H" "trace_ok H c" "one_ok W H c"
  using handler_reach_relay [OF assms] relay_reach_all [OF handler_reach_relay [OF assms]] handler_reach_ok [OF assms]
  by (simp_all add: handler_ok_def)

definition past_call :: "handler_state \<Rightarrow> nat \<Rightarrow> bool" where
  "past_call H c \<longleftrightarrow> hr_pc H c = HClosed \<or> hr_pc H c = HBack"

text \<open>A prompt that is back has a request that is done, so it is not current in its session.\<close>

lemma not_current:
  assumes "relay_reach W Y" "ys_pc Y c = CReturned x e" "issued (ys_pc Y c) = Some (p, req)" "is_prompt (ys_call Y c)"
  shows "req \<notin> set (current (rn_pc (ys_obj Y p)))"
proof
  assume cur: "req \<in> set (current (rn_pc (ys_obj Y p)))"
  note all = relay_reach_all [OF assms(1)]
  have "calls_ok W Y" using all(1) by (simp add: relay_ok_def)
  from issued_kind(1) [OF this assms(3)] assms(4) have "is_user req" by simp
  from prompt_facts(4) [OF assms(1,3) this] cur have "\<not> rs_done (rn_reqs (ys_obj Y p) (rq_id req))"
    by (auto simp: reqs_ok_def pending_ok_def)
  moreover have "ys_pc Y c = CReturned (Some (p, req)) e" using assms(2,3) by simp
  ultimately show False using all(3) assms(4) unfolding results_ok_def by blast
qed

lemma nothing_left:
  assumes "handler_reach W H" "past_call H c" "is_prompt (ys_call (hr_relay H) c)"
  shows "sink_trace (HttpSink c) (hr_pend H A) = []"
proof (rule ccontr)
  note F = handler_facts [OF assms(1)]
  assume "sink_trace (HttpSink c) (hr_pend H A) \<noteq> []"
  then have left: "HttpSink c \<in> fst ` set (hr_pend H A)" by (simp only: sink_trace_empty not_not)
  with F(3) have owes: "owes (hr_relay H) A (HttpSink c)" unfolding pend_ok_def by blast
  obtain x e where ret: "ys_pc (hr_relay H) c = CReturned x e" "hr_pend H (Caller c) = []"
    using F(5) [of c] assms(2) unfolding one_ok_def past_call_def by blast
  show False
  proof (cases A)
    case (Caller d)
    with owes have "d = c" by simp
    with left ret(2) Caller show False by simp
  next
    case (Goroutine p a)
    from owes_issued [OF F(2) owes [unfolded Goroutine]] obtain req where
      "issued (ys_pc (hr_relay H) c) = Some (p, req)" "req \<in> set (current (rn_pc (ys_obj (hr_relay H) p)))" by blast
    with not_current [OF F(1) ret(1) _ assms(3)] show False by blast
  qed (use owes in simp_all)
qed

lemma acts_are_trace:
  assumes "handler_reach W H" "past_call H c" "is_prompt (ys_call (hr_relay H) c)"
  shows "calls_of (hr_acts H c) = sink_trace (HttpSink c) (ys_out (hr_relay H))"
  using handler_facts(4) [OF assms(1), of c] nothing_left [OF assms] by (auto simp: trace_ok_def)

lemma past_sink:
  assumes "handler_reach W H" "past_call H c" "is_prompt (ys_call (hr_relay H) c)"
  obtains w where "sse_meta (hw_io W) new_sse_writer = (None, w)"
    "hr_sink H c = sink_run (hw_io W) (hr_acts H c) (new_sink w (hc_heartbeat (hw_config W)))"
  using handler_facts(5) [OF assms(1), of c] assms(2,3)
  by (auto simp: one_ok_def querying_def past_call_def sink_ok_def)

section \<open>After the handler has returned\<close>

lemma sink_run_done: "EvDone \<in> set (calls_of acts) \<Longrightarrow> ow_closed (hs_o (sink_run io acts s))"
proof (induction acts arbitrary: s rule: calls_of.induct)
  case (2 e acts)
  show ?case
  proof (cases "e = EvDone")
    case True
    have "ow_closed (hs_o (sink_call io EvDone s))" by (simp add: Let_def user_done_def split: prod.split)
    with sink_run_sealed [of "sink_call io EvDone s" io acts] True show ?thesis by (simp add: sink_run_def)
  qed (use 2 in \<open>simp add: sink_run_def\<close>)
qed (simp_all add: sink_run_def)

lemma sealed_act: "ow_closed (hs_o s) \<Longrightarrow> hs_o (sink_step io a s) = hs_o s"
  using sink_run_sealed [of s io "[a]"] by (simp add: sink_run_def)

lemma sealed_step:
  assumes "handler_step W H H'" "ow_closed (hs_o (hr_sink H c))" "c < ys_next_call (hr_relay H)"
  shows "hs_o (hr_sink H' c) = hs_o (hr_sink H c) \<and> c < ys_next_call (hr_relay H')"
  using assms(1)
proof cases
  case (Relay A Y)
  with assms(3) relay_keeps(2) [OF Relay(2,3)] show ?thesis by simp
next
  case (Write A k e es)
  with assms(2,3) sealed_act [OF assms(2), of "hw_io W" "SinkCall e"] show ?thesis by (cases k) auto
next
  case (Beat d a)
  with assms(2,3) sealed_act [OF assms(2)] show ?thesis by auto
next
  case (Back d)
  with assms(2,3) sealed_act [OF assms(2), of "hw_io W" SinkStop] show ?thesis by (auto simp: Let_def)
qed (use assms(3) in auto)

lemma sealed_steps:
  assumes "(handler_step W)\<^sup>*\<^sup>* H H'" "ow_closed (hs_o (hr_sink H c))" "c < ys_next_call (hr_relay H)"
  shows "hs_o (hr_sink H' c) = hs_o (hr_sink H c) \<and> c < ys_next_call (hr_relay H')"
  using assms(1)
proof (induction rule: rtranclp_induct)
  case (step H1 H2)
  then have "ow_closed (hs_o (hr_sink H1 c))" using assms(2) by simp
  from sealed_step [OF step.hyps(2) this] step.IH show ?case by simp
qed (use assms(3) in simp)

text \<open>How a prompt's trace ends when its session has not been stopped.\<close>

lemma trace_ends_done:
  assumes "relay_reach W Y" "ys_pc Y c = CReturned x e" "is_prompt (ys_call Y c)"
    "\<And>p req. x = Some (p, req) \<Longrightarrow> \<not> ss_run_stop (rn_st (ys_obj Y p))"
  shows "\<exists>es. sink_trace (HttpSink c) (ys_out Y) = es @ [EvDone]"
proof (cases x)
  case None
  with outs_okD(2) [OF relay_reach_all(2) [OF assms(1)], of c] assms(2,3)
  obtain t where "sink_trace (HttpSink c) (ys_out Y) = [EvError t ''user_caused_error''] @ [EvDone]"
    by (auto simp: own_trace_def)
  then show ?thesis by blast
next
  case (Some pr)
  then obtain p req where x: "x = Some (p, req)" by (cases pr) auto
  from assms(1) assms(2) [unfolded x] assms(3) show ?thesis
    by (cases rule: returned_turn) (use assms(4) [OF x] in blast)+
qed

text \<open>The events of a trace that ends in \<open>Done\<close>.\<close>

lemma until_done_ends: "\<exists>es. until_done (cs @ [CallDone]) = es @ [PDone] \<and> PDone \<notin> set es"
proof (induction cs)
  case (Cons c cs)
  then obtain es where es: "until_done (cs @ [CallDone]) = es @ [PDone]" "PDone \<notin> set es" by blast
  show ?case
  proof (cases "c = CallDone")
    case False
    with es have "until_done ((c # cs) @ [CallDone]) = (call_event c @ es) @ [PDone]" "PDone \<notin> set (call_event c @ es)"
      by (cases c; simp)+
    then show ?thesis by blast
  qed simp
qed simp

lemma sse_calls_append: "sse_calls (es @ es') = sse_calls es @ sse_calls es'"
  by (induction es rule: sse_calls.induct) simp_all

lemma query_sink_ends:
  assumes "calls_of acts = es @ [EvDone]"
  shows "\<exists>fs. sink_log (sink_run io_ok acts (query_sink hb)) = map wire (PMeta # fs @ [PDone]) \<and> PDone \<notin> set fs"
proof -
  obtain n where log: "sink_log (sink_run io_ok acts (query_sink hb)) = map wire (PMeta # spinner_frames n @
      clear_frames n (calls_of acts) @ sink_events (calls_of acts))" using query_sink_log by blast
  obtain fs where fs: "sink_events (calls_of acts) = fs @ [PDone]" "PDone \<notin> set fs"
    using until_done_ends [of "sse_calls es"] by (auto simp: assms sink_events_def sse_calls_append)
  have "PDone \<notin> set (spinner_frames n)" "PDone \<notin> set (clear_frames n xs)" for xs
    by (auto simp: spinner_frames_def) (induction n xs rule: clear_frames.induct; simp split: if_splits)
  with log fs show ?thesis
    by (intro exI [of _ "spinner_frames n @ clear_frames n (calls_of acts) @ fs"]) simp
qed

text \<open>C5: The response is complete when \<open>Prompt\<close> is back, and is never written to again: whatever steps
  follow, the handler returning, the heartbeat, its turn's session and every other call included, the
  ordered writer of the response stays as it is. Its frames are \<open>meta\<close>, others and one \<open>done\<close>. (The
  server may reuse the connection: a write after the handler's return would go into another response.)
  A session that is stopped under the prompt is the exception: then the response has no \<open>done\<close>.\<close>

theorem response_is_sealed:
  assumes "handler_reach W H" "hr_pc H c = HClosed \<or> hr_pc H c = HBack" "is_prompt (ys_call (hr_relay H) c)"
    and "hw_io W = io_ok"
    and "\<And>p req e. ys_pc (hr_relay H) c = CReturned (Some (p, req)) e \<Longrightarrow> \<not> ss_run_stop (rn_st (ys_obj (hr_relay H) p))"
    and "(handler_step W)\<^sup>*\<^sup>* H H'"
  shows "hs_o (hr_sink H' c) = hs_o (hr_sink H c) \<and>
    (\<exists>fs. sink_log (hr_sink H' c) = map wire (PMeta # fs @ [PDone]) \<and> PDone \<notin> set fs)"
proof -
  note past = assms(2) [folded past_call_def] and F = handler_facts [OF assms(1)]
  obtain x e where ret: "ys_pc (hr_relay H) c = CReturned x e"
    using F(5) [of c] past unfolding one_ok_def past_call_def by blast
  obtain es where es: "calls_of (hr_acts H c) = es @ [EvDone]"
    using trace_ends_done [OF F(1) ret assms(3)] assms(5) ret acts_are_trace [OF assms(1) past assms(3)] by auto
  from past_sink [OF assms(1) past assms(3)] obtain w where
    w: "sse_meta io_ok new_sse_writer = (None, w)"
      "hr_sink H c = sink_run io_ok (hr_acts H c) (new_sink w (hc_heartbeat (hw_config W)))" unfolding assms(4) by blast
  then have s: "hr_sink H c = sink_run io_ok (hr_acts H c) (query_sink (hc_heartbeat (hw_config W)))"
    by (simp add: query_sink_def)
  have "ow_closed (hs_o (hr_sink H c))" unfolding s by (rule sink_run_done) (simp add: es)
  moreover have "c < ys_next_call (hr_relay H)"
    using F(5) [of c] past unfolding one_ok_def past_call_def by fastforce
  ultimately have "hs_o (hr_sink H' c) = hs_o (hr_sink H c)" using sealed_steps [OF assms(6)] by blast
  with query_sink_ends [OF es] s show ?thesis by simp
qed

text \<open>What the exception means: a response nothing has been written to is still open when its handler has
  returned, and a heartbeat that has not noticed \<open>stop\<close> writes a frame to it. Nobody waits for the
  heartbeat goroutine.\<close>

lemma gate_open_run:
  assumes "calls_of acts = []" "gate_open s"
  shows "gate_open (sink_run io_ok acts s)"
  using assms
proof (induction acts arbitrary: s)
  case (Cons a acts)
  have "gate_open (sink_step io_ok a s)"
    using Cons.prems gate_open_tick(1) [of s]
    by (cases a) (auto simp: heartbeat_tick_def heartbeat_stop_def stop_heartbeat_def gate_open_def in_sync_def)
  moreover have "calls_of acts = []" using Cons.prems(1) by (cases a) simp_all
  ultimately show ?case using Cons.IH by (simp add: sink_run_def)
qed (simp add: sink_run_def)

lemma late_frame:
  assumes "handler_reach W H" "past_call H c" "is_prompt (ys_call (hr_relay H) c)" "hw_io W = io_ok"
    and "sink_trace (HttpSink c) (ys_out (hr_relay H)) = []" "\<not> hs_hb_exited (hr_sink H c)"
  shows "handler_step W H (act_on io_ok c HbTick H)"
    "\<exists>n. sink_log (hr_sink (act_on io_ok c HbTick H) c) = sink_log (hr_sink H c) @ [wire (PReplace (spinner_frame n))]"
proof -
  show "handler_step W H (act_on io_ok c HbTick H)"
    using Beat [of H c HbTick W] assms(2-4) by (auto simp: querying_def past_call_def)
  obtain w where w: "sse_meta io_ok new_sse_writer = (None, w)"
    "hr_sink H c = sink_run io_ok (hr_acts H c) (new_sink w (hc_heartbeat (hw_config W)))"
    by (rule past_sink [OF assms(1-3)]) (simp add: assms(4))
  have "gate_open (hr_sink H c)"
    using gate_open_run [OF _ query_sink_open(1)] acts_are_trace [OF assms(1-3)] assms(5) w by (simp add: query_sink_def)
  from gate_open_tick(2) [OF this assms(6)]
  show "\<exists>n. sink_log (hr_sink (act_on io_ok c HbTick H) c) = sink_log (hr_sink H c) @ [wire (PReplace (spinner_frame n))]"
    by (auto simp del: wire.simps)
qed

section \<open>Whose context a turn runs with\<close>

lemma call_req_ctx: "wants_session call \<Longrightarrow> rq_ctx (call_req U c call bs now i) = c"
  by (cases call) (simp_all add: user_req_def reaction_req_def)

text \<open>C6: While a user turn is with its runner (from the pop to the close of \<open>done\<close>) its handler is still in
  \<open>Router.Prompt\<close>. So the context it runs with is done only when the client of that very request has
  gone away, and the sink it writes to belongs to a response that is still open.\<close>

theorem user_turn_keeps_its_context:
  assumes "handler_reach W H" "p < ys_next_obj (hr_relay H)"
    and "req \<in> set (current (rn_pc (ys_obj (hr_relay H) p)))" "is_user req"
  shows "hr_pc H (rq_ctx req) = HCall \<and> rq_sink req = HttpSink (rq_ctx req) \<and>
    (ctx_done H (rq_ctx req) \<longleftrightarrow> hr_gone H (rq_ctx req))"
proof -
  let ?Y = "hr_relay H"
  note F = handler_facts [OF assms(1)]
  have calls: "calls_ok (hw_relay W) ?Y" using F(2) by (simp add: relay_ok_def)
  have "req \<in> known (ys_obj ?Y p)" using assms(3) by (simp add: known_def)
  from known_issued [OF F(2) assms(2) this] obtain c where
    c: "issued (ys_pc ?Y c) = Some (p, req)" "issued_ok (hw_relay W) ?Y c p req" by blast
  from c(2) obtain bs now where "req = call_req (rw_unicode (hw_relay W)) c (ys_call ?Y c) bs now (rq_id req)"
    unfolding issued_ok_def by blast
  from arg_cong [OF this, of rq_ctx] have ctx: "rq_ctx req = c"
    by (simp only: call_req_ctx [OF issued_wants [OF calls c(1)]])
  have prompt: "is_prompt (ys_call ?Y c)" "rq_sink req = HttpSink c"
    using issued_kind(1) [OF calls c(1)] issued_kind(2) [OF calls c(1) assms(4)] assms(4) by simp_all
  have "ys_pc ?Y c \<noteq> CIdle" using c(1) by auto
  then have "c < ys_next_call ?Y" using calls_okD(1) [OF calls, of c] by (meson not_le)
  then have "hr_pc H c \<noteq> HNone" using F(5) [of c] prompt(1) unfolding one_ok_def by blast
  moreover have "hr_pc H c \<noteq> HClosed" "hr_pc H c \<noteq> HBack"
    using F(5) [of c] not_current [OF F(1) _ c(1) prompt(1)] assms(3) unfolding one_ok_def by blast+
  ultimately have "hr_pc H c = HCall" by (cases "hr_pc H c") simp_all
  with ctx prompt(2) show ?thesis by (simp add: ctx_done_def)
qed

section \<open>Runs of the handlers\<close>

text \<open>What the steps of the relay leave alone.\<close>

definition same_handlers :: "handler_state \<Rightarrow> handler_state \<Rightarrow> bool" where
  "same_handlers H H' \<longleftrightarrow> hr_pc H' = hr_pc H \<and> hr_watch H' = hr_watch H \<and> hr_gone H' = hr_gone H"

lemma flush:
  "\<exists>H'. (handler_step W)\<^sup>*\<^sup>* H H' \<and> hr_relay H' = hr_relay H \<and> hr_pend H' = (hr_pend H)(A := []) \<and> same_handlers H H'"
proof (induction "hr_pend H A" arbitrary: H)
  case Nil
  then have "hr_pend H = (hr_pend H)(A := [])" by (metis fun_upd_triv)
  then show ?case by (intro exI [of _ H]) (simp add: same_handlers_def)
next
  case (Cons x es)
  obtain k e where x: "x = (k, e)" by (cases x)
  let ?H = "deliver (hw_io W) k e (H\<lparr>hr_pend := (hr_pend H)(A := es)\<rparr>)"
  have step: "handler_step W H ?H" by (rule Write) (simp add: Cons(2) [symmetric] x)
  from Cons(1) [of ?H] obtain H' where "(handler_step W)\<^sup>*\<^sup>* ?H H'" "hr_relay H' = hr_relay H"
    "hr_pend H' = (hr_pend H)(A := [])" "same_handlers ?H H'" by auto
  with step show ?case
    by (intro exI [of _ H']) (auto simp: same_handlers_def intro: converse_rtranclp_into_rtranclp)
qed

lemma lift_run:
  assumes "relay_from (hw_relay W) (hr_relay H) Y" "hr_pend H = (\<lambda>_. [])"
  shows "\<exists>H'. (handler_step W)\<^sup>*\<^sup>* H H' \<and> hr_relay H' = Y \<and> hr_pend H' = (\<lambda>_. []) \<and> same_handlers H H'"
  using assms(1)
proof (induction rule: relay_from.induct)
  case here
  then show ?case using assms(2) by (intro exI [of _ H]) (simp add: same_handlers_def)
next
  case (on Y A Y')
  then obtain H1 where H1: "(handler_step W)\<^sup>*\<^sup>* H H1" "hr_relay H1 = Y" "hr_pend H1 = (\<lambda>_. [])" "same_handlers H H1" by blast
  let ?H = "H1\<lparr>hr_relay := Y', hr_pend := (hr_pend H1)(A := drop (length (ys_out (hr_relay H1))) (ys_out Y'))\<rparr>"
  have step: "handler_step W H1 ?H" by (rule Relay) (use on H1 in simp_all)
  from flush [of W ?H A] obtain H2 where "(handler_step W)\<^sup>*\<^sup>* ?H H2" "hr_relay H2 = Y'"
    "hr_pend H2 = (hr_pend ?H)(A := [])" "same_handlers ?H H2" by auto
  with step H1 show ?case
    by (intro exI [of _ H2]) (auto simp: same_handlers_def intro: rtranclp_trans converse_rtranclp_into_rtranclp)
qed

lemma steps_reach_handlers: "(handler_step W)\<^sup>*\<^sup>* H H' \<Longrightarrow> handler_reach W H \<Longrightarrow> handler_reach W H'"
  by (induction rule: rtranclp_induct) (auto intro: handler_reach.step)

definition demo_handlers :: handler_world where
  "demo_handlers = \<lparr>hw_relay = demo_world, hw_config = demo_handler, hw_io = io_ok\<rparr>"

definition demo_post :: "gostring \<Rightarrow> poe_request" where
  "demo_post content = zero_request\<lparr>pq_type := ''query'', pq_conversation_id := ''c'', pq_user_id := ''u'',
     pq_query := [zero_message\<lparr>ms_role := ''user'', ms_content := content, ms_message_id := ''m''\<rparr>]\<rparr>"

lemma demo_handlers_simps [simp]:
  "hw_relay demo_handlers = demo_world" "hw_config demo_handlers = demo_handler" "hw_io demo_handlers = io_ok"
  by (simp_all add: demo_handlers_def)

lemma demo_post_call: "query_call demo_handler (rw_cfg demo_world) (demo_post content) =
    PromptCall ''c'' ''u'' [user_says content] no_options"
  by (simp add: query_call_def demo_post_def user_says_def demo_handler_def demo_world_def demo_config_def to_turn_def
      zero_request_def zero_message_def parse_options_def request_params_def latest_parameters_def latest_user_message_def no_options_def)

text \<open>A query of the demonstration arrives.\<close>

lemma demo_query_arrives:
  obtains H' where "handler_step demo_handlers H H'"
    "hr_relay H' = arrive (PromptCall ''c'' ''u'' [user_says content] no_options) (hr_relay H)" "hr_pend H' = hr_pend H"
    "hr_pc H' = (hr_pc H)(ys_next_call (hr_relay H) := HCall)" "hr_gone H' = hr_gone H"
    "hr_watch H' = (hr_watch H)(ys_next_call (hr_relay H) := WStart)"
proof -
  obtain w where w: "sse_meta (hw_io demo_handlers) new_sse_writer = (None, w)"
    by (simp add: sse_meta_def new_sse_writer_def io_ok_def)
  show thesis by (rule that [OF Query [OF refl w, where req = "demo_post content"]]) (simp_all add: demo_post_call)
qed

lemma demo_first:
  obtains H where "handler_reach demo_handlers H" "hr_relay H = demo_arrived" "hr_pend H = (\<lambda>_. [])"
    "hr_pc H = (\<lambda>c. if c = 0 then HCall else HNone)" "hr_watch H = (\<lambda>c. if c = 0 then WStart else WNone)"
    "hr_gone H = (\<lambda>_. False)"
proof -
  obtain H where H: "handler_step demo_handlers handler_start H"
    "hr_relay H = arrive (PromptCall ''c'' ''u'' [user_says ''hi''] no_options) (hr_relay handler_start)"
    "hr_pend H = hr_pend handler_start" "hr_pc H = (hr_pc handler_start)(ys_next_call (hr_relay handler_start) := HCall)"
    "hr_gone H = hr_gone handler_start"
    "hr_watch H = (hr_watch handler_start)(ys_next_call (hr_relay handler_start) := WStart)"
    by (rule demo_query_arrives)
  show thesis
    by (rule that [OF handler_reach.step [OF handler_reach.start H(1)]])
      (use H(2-6) in \<open>simp_all add: handler_start_def demo_arrived_def demo_call_def relay_start_def fun_eq_iff\<close>)
qed

text \<open>Its handler returns.\<close>

lemma demo_handler_back:
  obtains H e where "handler_reach demo_handlers H" "hr_pc H 0 = HBack" "ys_call (hr_relay H) 0 = demo_call"
    "ys_pc (hr_relay H) 0 = CReturned (Some (0, demo_req)) e" "\<not> ss_run_stop (rn_st (ys_obj (hr_relay H) 0))"
    "rn_log (ys_obj (hr_relay H) 0) = [\<lparr>tl_req = demo_req, tl_updates = [u], tl_result = Inr EndTurn\<rparr>]"
proof (rule demo_returned [of u])
  fix Y e assume Y: "ys_call Y 0 = demo_call" "ys_pc Y 0 = CReturned (Some (0, demo_req)) e"
    "\<not> ss_run_stop (rn_st (ys_obj Y 0))"
    "rn_log (ys_obj Y 0) = [\<lparr>tl_req = demo_req, tl_updates = [u], tl_result = Inr EndTurn\<rparr>]"
    "relay_from demo_world demo_arrived Y"
  obtain H0 where H0: "handler_reach demo_handlers H0" "hr_relay H0 = demo_arrived" "hr_pend H0 = (\<lambda>_. [])"
    "hr_pc H0 = (\<lambda>c. if c = 0 then HCall else HNone)" by (rule demo_first)
  have "relay_from (hw_relay demo_handlers) (hr_relay H0) Y" by (simp add: H0(2) Y(5))
  from lift_run [OF this H0(3)] obtain H1 where H1: "(handler_step demo_handlers)\<^sup>*\<^sup>* H0 H1" "hr_relay H1 = Y"
    "hr_pend H1 = (\<lambda>_. [])" "same_handlers H0 H1" by blast
  have pc: "hr_pc H1 0 = HCall" using H1(4) H0(4) by (simp add: same_handlers_def)
  note r1 = steps_reach_handlers [OF H1(1) H0(1)]
  have "ys_pc (hr_relay H1) 0 = CReturned (Some (0, demo_req)) e" by (simp add: H1(2) Y(2))
  from Close [OF pc this, of demo_handlers] H1(3)
  have s2: "handler_step demo_handlers H1 (H1\<lparr>hr_pc := (hr_pc H1)(0 := HClosed),
      hr_watch := (hr_watch H1)(0 := wake WEnd (hr_watch H1 0))\<rparr>)" (is "handler_step _ _ ?H2") by simp
  obtain H3 where s3: "handler_step demo_handlers ?H2 H3" "hr_pc H3 0 = HBack" "hr_relay H3 = Y"
    using Back [of ?H2 0 demo_handlers] by (simp add: Let_def H1(2) Y(1))
  show thesis
    by (rule that [OF handler_reach.step [OF handler_reach.step [OF r1 s2] s3(1)] s3(2)])
      (use Y s3(3) in simp_all)
qed

text \<open>The tick after the return of the demonstration's handler.\<close>

theorem response_is_sealed_witness:
  "\<exists>H fs. handler_reach demo_handlers H \<and> hr_pc H 0 = HBack \<and> handler_step demo_handlers H (act_on io_ok 0 HbTick H) \<and>
     sink_log (hr_sink (act_on io_ok 0 HbTick H) 0) = map wire (PMeta # fs @ [PDone]) \<and> PDone \<notin> set fs"
proof (rule demo_handler_back)
  fix H e assume H: "handler_reach demo_handlers H" "hr_pc H 0 = HBack" "ys_call (hr_relay H) 0 = demo_call"
    "ys_pc (hr_relay H) 0 = CReturned (Some (0, demo_req)) e" "\<not> ss_run_stop (rn_st (ys_obj (hr_relay H) 0))"
  have q: "is_prompt (ys_call (hr_relay H) 0)" by (simp add: H(3))
  have step: "handler_step demo_handlers H (act_on io_ok 0 HbTick H)"
    using Beat [of H 0 HbTick demo_handlers] q H(2) by (simp add: querying_def)
  have live: "\<And>p req e'. ys_pc (hr_relay H) 0 = CReturned (Some (p, req)) e' \<Longrightarrow> \<not> ss_run_stop (rn_st (ys_obj (hr_relay H) p))"
    using H(4,5) by simp
  have "\<exists>fs. sink_log (hr_sink (act_on io_ok 0 HbTick H) 0) = map wire (PMeta # fs @ [PDone]) \<and> PDone \<notin> set fs"
    by (rule response_is_sealed [OF H(1) disjI2 [OF H(2)] q demo_handlers_simps(3) _
          r_into_rtranclp [of "handler_step demo_handlers", OF step], THEN conjunct2]) (rule live)
  with H(1,2) step show ?thesis by blast
qed

text \<open>The agent has been prompted for the first query.\<close>

lemma demo_prompting:
  obtains H where "handler_reach demo_handlers H" "hr_pend H = (\<lambda>_. [])"
    "hr_pc H = (\<lambda>c. if c = 0 then HCall else HNone)" "hr_watch H = (\<lambda>c. if c = 0 then WStart else WNone)"
    "hr_gone H = (\<lambda>_. False)" "ys_pc (hr_relay H) 0 = CWait 0 demo_req" "ys_sessions (hr_relay H) = [(''c'', 0)]"
    "ys_gc (hr_relay H) = None" "ys_next_obj (hr_relay H) = 1" "ys_next_call (hr_relay H) = 1" "ys_next_req (hr_relay H) = 1"
    "rn_pc (ys_obj (hr_relay H) 0) = RPrompt demo_req" "sq_q (ss_queue (rn_st (ys_obj (hr_relay H) 0))) = []"
    "\<not> sq_stopped (ss_queue (rn_st (ys_obj (hr_relay H) 0)))"
proof (rule demo_submitted)
  fix Y assume Y: "relay_from demo_world demo_arrived Y" "ys_pc Y 0 = CWait 0 demo_req"
    "ys_call Y 0 = demo_call" "ys_next_obj Y = 1" "stands 0 RPop [] None {} [] [] (ys_obj Y 0)"
    "ss_queue (rn_st (ys_obj Y 0)) = enqueue demo_req new_session_queue"
    "ys_sessions Y = [(''c'', 0)]" "ys_gc Y = None" "ys_next_call Y = 1" "ys_next_req Y = 1"
  have q: "sq_q (ss_queue (rn_st (ys_obj Y 0))) = [demo_req]" "\<not> sq_stopped (ss_queue (rn_st (ys_obj Y 0)))"
    using Y(6) by (simp_all add: enqueue_def new_session_queue_def)
  have id: "rq_id demo_req = 0" "\<not> stale_reaction 0 demo_req" by (simp_all add: user_req_def stale_reaction_def)
  obtain s where s: "(own_step demo_config quiet_agent)\<^sup>*\<^sup>* (ys_obj Y 0) s"
    "ss_queue (rn_st s) = (ss_queue (rn_st (ys_obj Y 0)))\<lparr>sq_q := [], sq_in_flight := True\<rparr>" "rn_pc s = RPrompt demo_req"
    using begin_turn_run [OF _ q(1) id(2), of None "{}" "[]" "[]" demo_config quiet_agent] Y(5)
    unfolding id(1) stands_def by blast
  from own_steps_relay [of demo_world Y 0 s] s(1) Y(4) obtain Y1 where Y1: "relay_from demo_world Y Y1" "ys_obj Y1 0 = s"
    "same_calls Y Y1" by (auto simp: demo_world_def)
  obtain H0 where H0: "handler_reach demo_handlers H0" "hr_relay H0 = demo_arrived" "hr_pend H0 = (\<lambda>_. [])"
    "hr_pc H0 = (\<lambda>c. if c = 0 then HCall else HNone)" "hr_watch H0 = (\<lambda>c. if c = 0 then WStart else WNone)"
    "hr_gone H0 = (\<lambda>_. False)" by (rule demo_first)
  have "relay_from (hw_relay demo_handlers) (hr_relay H0) Y1" using relay_from_trans [OF Y1(1) Y(1)] by (simp add: H0(2))
  from lift_run [OF this H0(3)] obtain H where H: "(handler_step demo_handlers)\<^sup>*\<^sup>* H0 H" "hr_relay H = Y1"
    "hr_pend H = (\<lambda>_. [])" "same_handlers H0 H" by blast
  show thesis
    by (rule that [OF steps_reach_handlers [OF H(1) H0(1)] H(3)])
      (use H(2,4) H0(4-6) Y1(2,3) Y(2,4,7-10) q(2) s(2,3) in \<open>simp_all add: same_handlers_def same_calls_def\<close>)
qed

theorem user_turn_keeps_its_context_witness:
  "\<exists>H. handler_reach demo_handlers H \<and> rn_pc (ys_obj (hr_relay H) 0) = RPrompt demo_req \<and> hr_pc H (rq_ctx demo_req) = HCall"
proof (rule demo_prompting)
  fix H assume H: "handler_reach demo_handlers H" "ys_next_obj (hr_relay H) = 1"
    "rn_pc (ys_obj (hr_relay H) 0) = RPrompt demo_req"
  have "0 < ys_next_obj (hr_relay H)" "demo_req \<in> set (current (rn_pc (ys_obj (hr_relay H) 0)))" "is_user demo_req"
    using H(2,3) by (simp_all add: user_req_def)
  from user_turn_keeps_its_context [OF H(1) this] H(1,3) show ?thesis by blast
qed

section \<open>Whom a cancellation hits\<close>

text \<open>A watcher that has made up its mind cancels what runs on its conversation.\<close>

lemma watcher_cancels:
  assumes "hr_watch H c = WFire" "ys_call (hr_relay H) c = PromptCall conv user query opts"
    "map_of (ys_sessions (hr_relay H)) conv = Some p" "ys_gc (hr_relay H) = None" "hr_pend H = (\<lambda>_. [])"
  shows "\<exists>H'. (handler_step W)\<^sup>*\<^sup>* H H' \<and> ys_obj (hr_relay H') = ys_obj (hr_relay H) \<and> hr_gone H' = hr_gone H \<and>
    hr_pc H' = hr_pc H \<and> ys_calls (hr_relay H') =
      ys_calls (hr_relay H) @ [CallCancel (ss_session_id (rn_st (ys_obj (hr_relay H) p)))]"
proof -
  let ?n = "ys_next_call (hr_relay H)" and ?Y = "arrive (CancelCall conv) (hr_relay H)"
  let ?H = "H\<lparr>hr_relay := ?Y, hr_watch := (hr_watch H)(c := WEnd)\<rparr>"
  have a: "handler_step W H ?H" by (rule Abort [OF assms(1,2)])
  obtain e r where c: "cancel (rw_agent (hw_relay W)) conv (router_view 0 ?Y) = (e, r)" by fastforce
  have r: "ro_calls r = ys_calls (hr_relay H) @ [CallCancel (ss_session_id (rn_st (ys_obj (hr_relay H) p)))]"
    using c assms(3) by (auto simp: cancel_def log_calls_def Let_def)
  let ?Y' = "set_pc ?n (CReturned None e) (?Y\<lparr>ys_calls := ro_calls r\<rparr>)"
  have "relay_step (hw_relay W) (Caller ?n) ?Y ?Y'"
    by (rule relay_step.Cancel [OF _ _ _ c]) (simp_all add: assms(4))
  then have s: "relay_step (hw_relay W) (Caller ?n) (hr_relay ?H) ?Y'" by simp
  let ?H' = "?H\<lparr>hr_relay := ?Y', hr_pend := (hr_pend ?H)(Caller ?n := drop (length (ys_out (hr_relay ?H))) (ys_out ?Y'))\<rparr>"
  have "handler_step W ?H ?H'" by (rule Relay [OF s]) (simp_all add: assms(5))
  with a have "(handler_step W)\<^sup>*\<^sup>* H ?H'" by (meson r_into_rtranclp rtranclp.rtrancl_into_rtrancl)
  then show ?thesis by (intro exI [of _ ?H']) (simp add: r)
qed

text \<open>A second query on the conversation of the demonstration, with its client still there.\<close>

abbreviation demo_req2 :: turn_req where
  "demo_req2 \<equiv> user_req 1 (HttpSink 1) no_options [TextBlock ''more''] 0 1"

lemma demo_second:
  obtains H where "handler_reach demo_handlers H" "hr_pend H = (\<lambda>_. [])"
    "hr_pc H = (\<lambda>c. if c \<le> 1 then HCall else HNone)" "hr_watch H = (\<lambda>c. if c \<le> 1 then WStart else WNone)"
    "hr_gone H = (\<lambda>_. False)" "ys_pc (hr_relay H) 1 = CStart"
    "ys_call (hr_relay H) 1 = PromptCall ''c'' ''u'' [user_says content] no_options"
    "ys_sessions (hr_relay H) = [(''c'', 0)]" "ys_gc (hr_relay H) = None" "ys_next_req (hr_relay H) = 1"
    "rn_pc (ys_obj (hr_relay H) 0) = RPrompt demo_req" "sq_q (ss_queue (rn_st (ys_obj (hr_relay H) 0))) = []"
    "\<not> sq_stopped (ss_queue (rn_st (ys_obj (hr_relay H) 0)))"
proof (rule demo_prompting)
  fix H assume H: "handler_reach demo_handlers H" "hr_pend H = (\<lambda>_. [])"
    "hr_pc H = (\<lambda>c. if c = 0 then HCall else HNone)" "hr_watch H = (\<lambda>c. if c = 0 then WStart else WNone)"
    "hr_gone H = (\<lambda>_. False)" "ys_sessions (hr_relay H) = [(''c'', 0)]" "ys_gc (hr_relay H) = None"
    "ys_next_call (hr_relay H) = 1" "ys_next_req (hr_relay H) = 1" "rn_pc (ys_obj (hr_relay H) 0) = RPrompt demo_req"
    "sq_q (ss_queue (rn_st (ys_obj (hr_relay H) 0))) = []" "\<not> sq_stopped (ss_queue (rn_st (ys_obj (hr_relay H) 0)))"
  obtain H1 where H1: "handler_step demo_handlers H H1"
    "hr_relay H1 = arrive (PromptCall ''c'' ''u'' [user_says content] no_options) (hr_relay H)" "hr_pend H1 = hr_pend H"
    "hr_pc H1 = (hr_pc H)(ys_next_call (hr_relay H) := HCall)" "hr_gone H1 = hr_gone H"
    "hr_watch H1 = (hr_watch H)(ys_next_call (hr_relay H) := WStart)" by (rule demo_query_arrives)
  show thesis
    by (rule that [OF handler_reach.step [OF H(1) H1(1)]])
      (use H(2-12) H1(2-6) in \<open>auto simp: fun_eq_iff\<close>)
qed

lemma user_says_key [simp]:
  "call_conv (PromptCall ''c'' ''u'' [user_says content] no_options) = ''c''"
  "wants_session (PromptCall ''c'' ''u'' [user_says content] no_options) \<longleftrightarrow> content \<noteq> []"
  by (simp_all add: user_says_def latest_user_text_def latest_user_turn_ref_def conv_key_def)

lemma demo_queued:
  obtains H where "handler_reach demo_handlers H" "hr_pend H = (\<lambda>_. [])" "hr_pc H = (\<lambda>c. if c \<le> 1 then HCall else HNone)"
    "hr_watch H = (\<lambda>c. if c \<le> 1 then WStart else WNone)" "hr_gone H = (\<lambda>_. False)"
    "ys_call (hr_relay H) 1 = PromptCall ''c'' ''u'' [user_says ''more''] no_options"
    "ys_sessions (hr_relay H) = [(''c'', 0)]" "ys_gc (hr_relay H) = None"
    "rn_pc (ys_obj (hr_relay H) 0) = RPrompt demo_req" "sq_q (ss_queue (rn_st (ys_obj (hr_relay H) 0))) = [demo_req2]"
proof (rule demo_second [of "''more''"])
  fix H assume H: "handler_reach demo_handlers H" "hr_pend H = (\<lambda>_. [])"
    "hr_pc H = (\<lambda>c. if c \<le> 1 then HCall else HNone)" "hr_watch H = (\<lambda>c. if c \<le> 1 then WStart else WNone)"
    "hr_gone H = (\<lambda>_. False)" "ys_pc (hr_relay H) 1 = CStart"
    "ys_call (hr_relay H) 1 = PromptCall ''c'' ''u'' [user_says ''more''] no_options"
    "ys_sessions (hr_relay H) = [(''c'', 0)]" "ys_gc (hr_relay H) = None" "ys_next_req (hr_relay H) = 1"
    "rn_pc (ys_obj (hr_relay H) 0) = RPrompt demo_req" "sq_q (ss_queue (rn_st (ys_obj (hr_relay H) 0))) = []"
    "\<not> sq_stopped (ss_queue (rn_st (ys_obj (hr_relay H) 0)))"
  let ?Y = "hr_relay H" and ?Y1 = "set_pc 1 (CGot 0 False) (hr_relay H)"
  have "relay_step demo_world (Caller 1) ?Y ?Y1"
    by (rule Hit [OF H(6) _ H(9)]) (simp_all only: H(7,8) user_says_key, simp_all)
  note r1 = caller_on [OF relay_from.here this]
  have pq: "ys_pc ?Y1 1 = CGot 0 False" "ys_call ?Y1 1 = PromptCall ''c'' ''u'' [user_says ''more''] no_options" "''more'' \<noteq> []"
    "\<not> sq_stopped (ss_queue (rn_st (ys_obj ?Y1 0)))" "sq_q (ss_queue (rn_st (ys_obj ?Y1 0))) = []"
    "demo_req2 = user_req 1 (HttpSink 1) no_options [TextBlock ''more''] 0 (ys_next_req ?Y1)"
    using H(7,10,12,13) by simp_all
  obtain Y2 where Y2: "relay_from demo_world ?Y1 Y2" "ys_call Y2 = ys_call ?Y1" "ys_sessions Y2 = ys_sessions ?Y1" "ys_gc Y2 = ys_gc ?Y1"
    "ys_obj Y2 0 = (upd_queue (enqueue demo_req2 (ss_queue (rn_st (ys_obj ?Y1 0)))) (ys_obj ?Y1 0))
       \<lparr>rn_used := insert (rq_id demo_req2) (rn_used (ys_obj ?Y1 0))\<rparr>"
    by (rule prompt_queues [OF pq], rule that)
  have "relay_from (hw_relay demo_handlers) ?Y Y2" using relay_from_trans [OF Y2(1) r1] by simp
  from lift_run [OF this H(2)] obtain H2 where H2: "(handler_step demo_handlers)\<^sup>*\<^sup>* H H2" "hr_relay H2 = Y2"
    "hr_pend H2 = (\<lambda>_. [])" "same_handlers H H2" by blast
  show thesis
    by (rule that [OF steps_reach_handlers [OF H2(1) H(1)] H2(3)])
      (use H2(2,4) H(3-5,7-9,11,12) Y2(2-5) in \<open>simp_all add: same_handlers_def enqueue_def\<close>)
qed

text \<open>C39: The client of a query that waits in the queue goes away. The watcher cancels by conversation, and
  what the agent works on then is the turn of another request, whose client is waiting for it: that
  turn is cancelled, and the one whose client is gone will still be run.\<close>

theorem cancel_hits_another_turn:
  "\<exists>H H'. handler_reach demo_handlers H \<and> (handler_step demo_handlers)\<^sup>*\<^sup>* H H' \<and>
     (\<forall>c. hr_gone H c \<longleftrightarrow> c = 1) \<and> hr_gone H' = hr_gone H \<and> hr_pc H' 0 = HCall \<and>
     rn_pc (ys_obj (hr_relay H') 0) = RPrompt demo_req \<and> rq_sink demo_req = HttpSink 0 \<and>
     sq_q (ss_queue (rn_st (ys_obj (hr_relay H') 0))) = [demo_req2] \<and> rq_sink demo_req2 = HttpSink 1 \<and>
     ys_calls (hr_relay H') = ys_calls (hr_relay H) @ [CallCancel (ss_session_id (rn_st (ys_obj (hr_relay H) 0)))]"
proof (rule demo_queued)
  fix H2 assume H2: "handler_reach demo_handlers H2" "hr_pend H2 = (\<lambda>_. [])" "hr_pc H2 = (\<lambda>c. if c \<le> 1 then HCall else HNone)"
    "hr_watch H2 = (\<lambda>c. if c \<le> 1 then WStart else WNone)" "hr_gone H2 = (\<lambda>_. False)"
    "ys_call (hr_relay H2) 1 = PromptCall ''c'' ''u'' [user_says ''more''] no_options"
    "ys_sessions (hr_relay H2) = [(''c'', 0)]" "ys_gc (hr_relay H2) = None"
    "rn_pc (ys_obj (hr_relay H2) 0) = RPrompt demo_req" "sq_q (ss_queue (rn_st (ys_obj (hr_relay H2) 0))) = [demo_req2]"
  have "hr_pc H2 1 \<noteq> HNone" by (simp add: H2(3))
  note s3 = Gone [OF this, of demo_handlers]
  let ?H3 = "H2\<lparr>hr_gone := (hr_gone H2)(1 := True), hr_watch := (hr_watch H2)(1 := wake WFire (hr_watch H2 1))\<rparr>"
  have w: "hr_watch ?H3 1 = WStart" by (simp add: H2(4) wake_def)
  have s4: "handler_step demo_handlers ?H3 (?H3\<lparr>hr_watch := (hr_watch ?H3)(1 := WFire)\<rparr>)" (is "handler_step _ _ ?H4")
    by (rule Fire [OF w]) (simp add: ctx_done_def)
  have c: "ys_call (hr_relay ?H4) 1 = PromptCall ''c'' ''u'' [user_says ''more''] no_options" using H2(6) by simp
  have "\<exists>H'. (handler_step demo_handlers)\<^sup>*\<^sup>* ?H4 H' \<and> ys_obj (hr_relay H') = ys_obj (hr_relay ?H4) \<and> hr_gone H' = hr_gone ?H4 \<and>
      hr_pc H' = hr_pc ?H4 \<and> ys_calls (hr_relay H') =
        ys_calls (hr_relay ?H4) @ [CallCancel (ss_session_id (rn_st (ys_obj (hr_relay ?H4) 0)))]"
    by (rule watcher_cancels [OF _ c]) (simp_all add: H2(2,7,8))
  then obtain H' where H': "(handler_step demo_handlers)\<^sup>*\<^sup>* ?H4 H'" "ys_obj (hr_relay H') = ys_obj (hr_relay ?H4)"
    "hr_gone H' = hr_gone ?H4" "hr_pc H' = hr_pc ?H4"
    "ys_calls (hr_relay H') = ys_calls (hr_relay ?H4) @ [CallCancel (ss_session_id (rn_st (ys_obj (hr_relay ?H4) 0)))]"
    by blast
  have "\<forall>c. hr_gone ?H4 c \<longleftrightarrow> c = 1" "hr_pc H' 0 = HCall" using H2(3,5) H'(4) by simp_all
  moreover have "rn_pc (ys_obj (hr_relay H') 0) = RPrompt demo_req"
    "sq_q (ss_queue (rn_st (ys_obj (hr_relay H') 0))) = [demo_req2]" using H'(2) H2(9,10) by simp_all
  moreover have "rq_sink demo_req = HttpSink 0" "rq_sink demo_req2 = HttpSink 1" by (simp_all add: user_req_def)
  ultimately show ?thesis
    using handler_reach.step [OF handler_reach.step [OF H2(1) s3] s4] H'(1,3,5) by blast
qed

text \<open>A handler whose call is back returns; its watcher has not been scheduled yet.\<close>

lemma handler_returns:
  assumes "hr_pc H c = HCall" "ys_pc (hr_relay H) c = CReturned x e" "hr_pend H = (\<lambda>_. [])"
  shows "\<exists>H'. (handler_step W)\<^sup>*\<^sup>* H H' \<and> hr_relay H' = hr_relay H \<and> hr_pend H' = (\<lambda>_. []) \<and>
    hr_pc H' = (hr_pc H)(c := HBack) \<and> hr_gone H' = hr_gone H \<and> (hr_watch H c \<noteq> WParked \<longrightarrow> hr_watch H' = hr_watch H)"
proof -
  let ?H1 = "H\<lparr>hr_pc := (hr_pc H)(c := HClosed), hr_watch := (hr_watch H)(c := wake WEnd (hr_watch H c))\<rparr>"
  have s1: "handler_step W H ?H1" by (rule Close [OF assms(1,2)]) (simp add: assms(3))
  have pc: "hr_pc ?H1 c = HClosed" by simp
  let ?H2 = "?H1\<lparr>hr_pc := (hr_pc ?H1)(c := HBack), hr_watch := (hr_watch ?H1)(c := wake WFire (hr_watch ?H1 c))\<rparr>"
  let ?H3 = "if is_prompt (ys_call (hr_relay ?H1) c) then act_on (hw_io W) c SinkStop ?H2 else ?H2"
  have "handler_step W ?H1 ?H3" using Back [OF pc, of W] by (simp only: Let_def)
  with s1 have "(handler_step W)\<^sup>*\<^sup>* H ?H3" by (meson r_into_rtranclp rtranclp.rtrancl_into_rtrancl)
  then show ?thesis by (intro exI [of _ ?H3]) (auto simp: assms(3) wake_def)
qed

text \<open>No client has gone away, and still a turn is cancelled: a query with no text is answered at once,
  and when its watcher comes to its select after the handler has returned both channels are closed. It
  may take the one of the context, which net/http has cancelled, and cancels the conversation's
  running turn.\<close>

theorem late_watcher_cancels:
  "\<exists>H H'. handler_reach demo_handlers H \<and> (handler_step demo_handlers)\<^sup>*\<^sup>* H H' \<and>
     (\<forall>c. \<not> hr_gone H' c) \<and> hr_pc H 1 = HBack \<and> hr_pc H' 0 = HCall \<and>
     rn_pc (ys_obj (hr_relay H') 0) = RPrompt demo_req \<and>
     ys_calls (hr_relay H') = ys_calls (hr_relay H) @ [CallCancel (ss_session_id (rn_st (ys_obj (hr_relay H) 0)))]"
proof (rule demo_second [of "[]"])
  fix H assume H: "handler_reach demo_handlers H" "hr_pend H = (\<lambda>_. [])"
    "hr_pc H = (\<lambda>c. if c \<le> 1 then HCall else HNone)" "hr_watch H = (\<lambda>c. if c \<le> 1 then WStart else WNone)"
    "hr_gone H = (\<lambda>_. False)" "ys_pc (hr_relay H) 1 = CStart"
    "ys_call (hr_relay H) 1 = PromptCall ''c'' ''u'' [user_says []] no_options"
    "ys_sessions (hr_relay H) = [(''c'', 0)]" "ys_gc (hr_relay H) = None" "rn_pc (ys_obj (hr_relay H) 0) = RPrompt demo_req"
  let ?Y = "hr_relay H" and ?Y1 = "give_up 1 ''empty user message'' (Some ''empty user message'') None (hr_relay H)"
  have "relay_step demo_world (Caller 1) ?Y ?Y1"
    by (rule Empty [OF H(6)]) (simp_all only: H(7) user_says_key is_prompt.simps simp_thms)
  then have "relay_from (hw_relay demo_handlers) ?Y ?Y1" using caller_on [OF relay_from.here] by simp
  from lift_run [OF this H(2)] obtain H1 where H1: "(handler_step demo_handlers)\<^sup>*\<^sup>* H H1" "hr_relay H1 = ?Y1"
    "hr_pend H1 = (\<lambda>_. [])" "same_handlers H H1" by blast
  have "hr_pc H1 1 = HCall" "hr_watch H1 1 = WStart" using H1(4) H(3,4) by (simp_all add: same_handlers_def)
  moreover have "ys_pc (hr_relay H1) 1 = CReturned None (Some ''empty user message'')"
    using H(7) by (simp add: H1(2))
  ultimately obtain H2 where H2: "(handler_step demo_handlers)\<^sup>*\<^sup>* H1 H2" "hr_relay H2 = ?Y1" "hr_pend H2 = (\<lambda>_. [])"
    "hr_pc H2 = (hr_pc H1)(1 := HBack)" "hr_gone H2 = hr_gone H1" "hr_watch H2 1 = WStart"
    using handler_returns [of H1 1 None "Some ''empty user message''" demo_handlers] H1(2,3) by auto
  let ?H3 = "H2\<lparr>hr_watch := (hr_watch H2)(1 := WFire)\<rparr>"
  have s3: "handler_step demo_handlers H2 ?H3" by (rule Fire [OF H2(6)]) (simp add: ctx_done_def H2(4))
  have c: "ys_call (hr_relay ?H3) 1 = PromptCall ''c'' ''u'' [user_says []] no_options" using H(7) by (simp add: H2(2))
  have "\<exists>H'. (handler_step demo_handlers)\<^sup>*\<^sup>* ?H3 H' \<and> ys_obj (hr_relay H') = ys_obj (hr_relay ?H3) \<and> hr_gone H' = hr_gone ?H3 \<and>
      hr_pc H' = hr_pc ?H3 \<and> ys_calls (hr_relay H') =
        ys_calls (hr_relay ?H3) @ [CallCancel (ss_session_id (rn_st (ys_obj (hr_relay ?H3) 0)))]"
    by (rule watcher_cancels [OF _ c]) (simp_all add: H2(2,3) H(8,9))
  then obtain H' where H': "(handler_step demo_handlers)\<^sup>*\<^sup>* ?H3 H'" "ys_obj (hr_relay H') = ys_obj (hr_relay ?H3)"
    "hr_gone H' = hr_gone ?H3" "hr_pc H' = hr_pc ?H3"
    "ys_calls (hr_relay H') = ys_calls (hr_relay ?H3) @ [CallCancel (ss_session_id (rn_st (ys_obj (hr_relay ?H3) 0)))]"
    by blast
  have "handler_reach demo_handlers ?H3"
    by (rule handler_reach.step [OF steps_reach_handlers [OF H2(1) steps_reach_handlers [OF H1(1) H(1)]] s3])
  moreover have "\<forall>c. \<not> hr_gone H' c" "hr_pc ?H3 1 = HBack" "hr_pc H' 0 = HCall"
    using H1(4) H(3,5) H2(4,5) H'(3,4) by (simp_all add: same_handlers_def)
  moreover have "rn_pc (ys_obj (hr_relay H') 0) = RPrompt demo_req" using H'(2) H(10) H2(2) by simp
  ultimately show ?thesis using H'(1,5) by blast
qed

section \<open>The context of a reaction\<close>

definition demo_reaction :: poe_request where
  "demo_reaction = zero_request\<lparr>pq_type := ''report_reaction'', pq_conversation_id := ''c'', pq_user_id := ''u'',
     pq_message_id := ''m'', pq_reaction := ''like'', pq_action := ''added''\<rparr>"

abbreviation demo_reaction_req :: turn_req where
  "demo_reaction_req \<equiv> reaction_req ascii_tables 0 ''c'' ''m'' ''like'' ''added'' 0 0"

lemma demo_reaction_call: "reaction_call demo_reaction = ReactionCall ''c'' ''u'' ''m'' ''like'' ''added''"
  by (simp add: reaction_call_def demo_reaction_def zero_request_def)

text \<open>\<open>ReportReaction\<close> on a new conversation: it queues the turn and is back.\<close>

lemma reaction_returns:
  obtains Y where "relay_from demo_world (arrive (reaction_call demo_reaction) relay_start) Y"
    "ys_pc Y 0 = CReturned (Some (0, demo_reaction_req)) None" "ys_next_obj Y = 1"
    "stands 0 RPop [] None {} [] [] (ys_obj Y 0)" "sq_q (ss_queue (rn_st (ys_obj Y 0))) = [demo_reaction_req]"
proof -
  let ?W = demo_world and ?call = "reaction_call demo_reaction"
  obtain Y1 st where Y1: "relay_from ?W (arrive ?call relay_start) Y1" "ys_pc Y1 0 = CGot 0 False" "ys_call Y1 0 = ?call"
    "ys_next_obj Y1 = 1" "ys_next_req Y1 = 0" "ys_obj Y1 0 = session_start st" "fresh_session st"
    by (rule first_session [of ?call]) (simp_all add: demo_reaction_call conv_key_def)
  let ?Y2 = "set_pc 0 (CReady 0 []) Y1" and ?q = "ss_queue (rn_st (ys_obj Y1 0))"
  have q: "?q = new_session_queue" using Y1(6,7) by (simp add: session_start_def fresh_session_def)
  have "relay_step ?W (Caller 0) Y1 ?Y2" by (rule Reaction [OF Y1(2)]) (simp add: Y1(3) demo_reaction_call)
  note r2 = caller_on [OF Y1(1) this]
  have psh: "push demo_reaction_req (ss_queue (rn_st (ys_obj ?Y2 0))) (rn_reqs (ys_obj ?Y2 0)) =
      Inr (True, enqueue demo_reaction_req ?q, rn_reqs (ys_obj Y1 0))"
    by (simp add: q push_def new_session_queue_def session_queue_cap_def)
  have "demo_reaction_req = call_req (rw_unicode ?W) 0 (ys_call ?Y2 0) [] 0 (ys_next_req ?Y2)"
    by (simp add: Y1(3,5) demo_reaction_call demo_world_def conv_key_def)
  note s = Submit [OF _ this psh]
  show thesis
    by (rule that [OF caller_on [OF r2 s]])
      (use Y1(3,4,6,7) q in \<open>simp_all add: pushed_def demo_reaction_call stands_def session_start_def fresh_session_def
         drain_init_def fresh_status_def enqueue_def new_session_queue_def\<close>)
qed

text \<open>C40: The turn of a reaction runs with the context of its request, whose handler has answered and
  returned by then: the context is done although no client has gone away.\<close>

theorem reaction_runs_on_a_dead_context:
  "\<exists>H. handler_reach demo_handlers H \<and> rn_pc (ys_obj (hr_relay H) 0) = RPrompt demo_reaction_req \<and>
     is_reaction demo_reaction_req \<and> ctx_done H (rq_ctx demo_reaction_req) \<and> (\<forall>c. \<not> hr_gone H c)"
proof (rule reaction_returns)
  fix Y assume Y: "relay_from demo_world (arrive (reaction_call demo_reaction) relay_start) Y"
    "ys_pc Y 0 = CReturned (Some (0, demo_reaction_req)) None" "ys_next_obj Y = 1"
    "stands 0 RPop [] None {} [] [] (ys_obj Y 0)" "sq_q (ss_queue (rn_st (ys_obj Y 0))) = [demo_reaction_req]"
  let ?H0 = "handler_start\<lparr>hr_relay := arrive (reaction_call demo_reaction) (hr_relay handler_start),
    hr_pc := (hr_pc handler_start)(0 := HCall)\<rparr>"
  have "handler_step demo_handlers handler_start ?H0"
    by (rule React) (simp_all add: handler_start_def relay_start_def demo_reaction_def)
  note r0 = handler_reach.step [OF handler_reach.start this]
  have "relay_from (hw_relay demo_handlers) (hr_relay ?H0) Y" using Y(1) by (simp add: handler_start_def)
  from lift_run [OF this] obtain H1 where H1: "(handler_step demo_handlers)\<^sup>*\<^sup>* ?H0 H1" "hr_relay H1 = Y"
    "hr_pend H1 = (\<lambda>_. [])" "same_handlers ?H0 H1" by (auto simp: handler_start_def)
  have "hr_pc H1 0 = HCall" using H1(4) by (simp add: same_handlers_def)
  moreover have "ys_pc (hr_relay H1) 0 = CReturned (Some (0, demo_reaction_req)) None" by (simp add: H1(2) Y(2))
  ultimately obtain H2 where H2: "(handler_step demo_handlers)\<^sup>*\<^sup>* H1 H2" "hr_relay H2 = hr_relay H1" "hr_pend H2 = (\<lambda>_. [])"
    "hr_pc H2 = (hr_pc H1)(0 := HBack)" "hr_gone H2 = hr_gone H1"
    by (rule handler_returns [OF _ _ H1(3), THEN exE]) blast
  have id: "rq_id demo_reaction_req = 0" "\<not> stale_reaction 0 demo_reaction_req" "rq_ctx demo_reaction_req = 0"
    by (simp_all add: reaction_req_def stale_reaction_def reaction_max_age_def)
  obtain s where s: "(own_step demo_config quiet_agent)\<^sup>*\<^sup>* (ys_obj Y 0) s" "rn_pc s = RPrompt demo_reaction_req"
    using begin_turn_run [OF _ Y(5) id(2), of None "{}" "[]" "[]" demo_config quiet_agent] Y(4)
    unfolding id(1) stands_def by blast
  from own_steps_relay [of demo_world Y 0 s] s(1) Y(3) obtain Y1 where Y1: "relay_from demo_world Y Y1" "ys_obj Y1 0 = s"
    by (auto simp: demo_world_def)
  have "relay_from (hw_relay demo_handlers) (hr_relay H2) Y1" using Y1(1) by (simp add: H1(2) H2(2))
  from lift_run [OF this H2(3)] obtain H where H: "(handler_step demo_handlers)\<^sup>*\<^sup>* H2 H" "hr_relay H = Y1"
    "same_handlers H2 H" by blast
  have "handler_reach demo_handlers H"
    by (rule steps_reach_handlers [OF H(1) steps_reach_handlers [OF H2(1) steps_reach_handlers [OF H1(1) r0]]])
  moreover have "ctx_done H (rq_ctx demo_reaction_req)" "\<forall>c. \<not> hr_gone H c"
    using H(3) H2(4,5) H1(4) id(3) by (simp_all add: ctx_done_def same_handlers_def handler_start_def)
  moreover have "is_reaction demo_reaction_req" by (simp add: reaction_req_def)
  ultimately show ?thesis using H(2) Y1(2) s(2) by blast
qed

end
