(* ===== verification/Relay_Liveness.thy ===== *)
theory Relay_Liveness
  imports Relay_Prompts Router_Invariant
begin

text \<open>
  Every call comes back. Without new calls, notifications and collections each step of a caller, a
  runner, a drain or the agent lowers a measure, and as long as a call is not back a step is
  possible: no operation panics, no wake-up is lost, no caller waits for another one.
\<close>

section \<open>The measure\<close>

fun call_work :: "call_pc \<Rightarrow> nat" where
  "call_work CIdle = 0"
| "call_work CStart = 30"
| "call_work CMiss = 29"
| "call_work (CMade p resumed) = 25"
| "call_work (CGot p seed) = 20"
| "call_work (CReady p bs) = 19"
| "call_work (CWait p req) = 1"
| "call_work (CReturned x e) = 0"

definition relay_work :: "relay_state \<Rightarrow> nat" where
  "relay_work Y = (\<Sum>p < ys_next_obj Y. work (ys_obj Y p)) + (\<Sum>c < ys_next_call Y. call_work (ys_pc Y c))"

definition quiet_actor :: "relay_actor \<Rightarrow> bool" where
  "quiet_actor a \<longleftrightarrow> (\<exists>c. a = Caller c) \<or> (\<exists>p. a \<in> {Goroutine p Runner, Goroutine p Drain, Goroutine p Answer})"

definition quiet_step :: "relay_world \<Rightarrow> relay_state \<Rightarrow> relay_state \<Rightarrow> bool" where
  "quiet_step W Y Y' \<longleftrightarrow> (\<exists>a. quiet_actor a \<and> relay_step W a Y Y')"

lemma sum_upd:
  fixes f :: "'a \<Rightarrow> nat" and g :: "nat \<Rightarrow> 'a"
  assumes "p < n"
  shows "(\<Sum>q < n. f ((g(p := x)) q)) + f (g p) = (\<Sum>q < n. f (g q)) + f x"
proof -
  have "(\<Sum>q < n. f ((g(p := x)) q)) = f x + (\<Sum>q \<in> {..<n} - {p}. f (g q))"
    using assms by (subst sum.remove [of _ p]) auto
  moreover have "(\<Sum>q < n. f (g q)) = f (g p) + (\<Sum>q \<in> {..<n} - {p}. f (g q))"
    using assms by (subst sum.remove [of _ p]) auto
  ultimately show ?thesis by simp
qed

text \<open>A step of one call that leaves the sessions as they are, or makes one session work more.\<close>

lemma work_call:
  assumes "c < ys_next_call Y" "ys_next_call Y' = ys_next_call Y" "ys_pc Y' = (ys_pc Y)(c := ys_pc Y' c)"
    "(\<Sum>p < ys_next_obj Y'. work (ys_obj Y' p)) + call_work (ys_pc Y' c) < (\<Sum>p < ys_next_obj Y. work (ys_obj Y p)) + call_work (ys_pc Y c)"
  shows "relay_work Y' < relay_work Y"
proof -
  have "(\<Sum>c < ys_next_call Y. call_work (ys_pc Y' c)) + call_work (ys_pc Y c) =
      (\<Sum>c < ys_next_call Y. call_work (ys_pc Y c)) + call_work (ys_pc Y' c)"
    by (subst (1) assms(3)) (rule sum_upd [OF assms(1)])
  with assms(2,4) show ?thesis by (simp add: relay_work_def)
qed

lemma work_adopt:
  assumes "open_session cfg ag mkdir now conv user (router_view 0 Y) = (res, r)"
  shows "(\<Sum>p < ro_next_obj r. work (ys_obj (adopt r Y) p)) \<le> (\<Sum>p < ys_next_obj Y. work (ys_obj Y p)) + 3"
proof -
  have old: "(\<Sum>p < ys_next_obj Y. work (ys_obj (adopt r Y) p)) = (\<Sum>p < ys_next_obj Y. work (ys_obj Y p))"
    by (rule sum.cong) simp_all
  have new: "work (session_start st) = 3" if "fresh_session st" for st
    using that by (simp add: work_def session_start_def fresh_session_def new_session_queue_def)
  from open_session_new [OF assms] show ?thesis
    using old new by (auto simp: adopt_def)
qed

lemma push_work:
  assumes "push req (ss_queue (rn_st s)) (rn_reqs s) = Inr (acc, q, h)"
  shows "work ((upd_queue q s)\<lparr>rn_reqs := h, rn_used := u\<rparr>) \<le> work s + 15"
  using assms by (cases rule: push_cases) (auto simp: work_def push_sheds_def)

lemma stop_work:
  assumes "stop_session p (router_view p Y) = Inr r"
  shows "work ((ys_obj Y p)\<lparr>rn_st := ro_objs r p, rn_reqs := h\<rparr>) \<le> work (ys_obj Y p)"
  using assms by (auto simp: work_def stop_queue_def elim!: view_stop split: sum.splits)

lemma quiet_work:
  assumes "relay_ok W Y" "quiet_step W Y Y'"
  shows "relay_work Y' < relay_work Y"
proof -
  have calls: "calls_ok W Y" using assms(1) by (simp add: relay_ok_def)
  have c: "c < ys_next_call Y" if "ys_pc Y c \<noteq> CIdle" for c
    using calls_okD(1) [OF calls, of c] that by (meson not_le)
  from assms(2) obtain a where a: "quiet_actor a" "relay_step W a Y Y'" by (auto simp: quiet_step_def)
  from a(2) show ?thesis
  proof cases
    case (Refused c' ag mkdir now e r)
    from work_adopt [OF Refused(4)] Refused(2,3) c [of c'] show ?thesis
      by (intro work_call [of c']) simp_all
  next
    case (Opened c' ag mkdir now p resumed r)
    from work_adopt [OF Opened(4)] Opened(2,3) c [of c'] show ?thesis
      by (intro work_call [of c']) simp_all
  next
    case (Install c' p resumed w seed r)
    have p: "p < ys_next_obj Y" using assms(1) map_okD(6) Install(3) by (fastforce simp: relay_ok_def unborn_def)
    let ?s = "(ys_obj Y p)\<lparr>rn_st := ro_objs r p, rn_reqs := ro_reqs r\<rparr>"
    from Install(5) have "work ?s \<le> work (ys_obj Y p)"
      by (cases rule: create_finish_cases) (auto simp: stop_work)
    with sum_upd [OF p, of work "ys_obj Y" ?s] Install(2,3) c [of c'] show ?thesis
      by (intro work_call [of c']) simp_all
  next
    case (Submit c' p bs req now acc q h)
    have p: "p < ys_next_obj Y" using calls_okD(3) [OF calls, of c'] Submit(3) by simp
    let ?s = "(upd_queue q (ys_obj Y p))\<lparr>rn_reqs := h,
      rn_used := (if acc then insert (rq_id req) (rn_used (ys_obj Y p)) else rn_used (ys_obj Y p))\<rparr>"
    have "work ?s \<le> work (ys_obj Y p) + 15" by (rule push_work [OF Submit(5)])
    moreover have "call_work (pushed_pc (ys_call Y c') p req acc) \<le> 1" by (simp add: pushed_pc_def)
    ultimately show ?thesis
      using sum_upd [OF p, of work "ys_obj Y" ?s] Submit(2,3) c [of c']
      by (intro work_call [of c']) simp_all
  next
    case (Move p b s)
    then have "internal_step (rw_cfg W) (rw_agent W) (ys_obj Y p) s"
      using a(1) by (auto simp: internal_step_def quiet_actor_def)
    from internal_step_work [OF this] sum_upd [OF Move(3), of work "ys_obj Y" s] Move(2)
    show ?thesis by (simp add: relay_work_def)
  qed (use a(1) c in \<open>auto simp: quiet_actor_def intro!: work_call\<close>)
qed

section \<open>Progress\<close>

text \<open>No collection is under way and no call works with a stopped session.\<close>

definition serving :: "relay_state \<Rightarrow> bool" where
  "serving Y \<longleftrightarrow> ys_gc Y = None \<and> (\<forall>c p. target (ys_pc Y c) = Some p \<longrightarrow> \<not> ss_run_stop (rn_st (ys_obj Y p)))"

lemma serving_frame:
  assumes "serving Y" "ys_gc Y' = ys_gc Y"
    "\<And>c p. target (ys_pc Y' c) = Some p \<Longrightarrow> \<exists>c. target (ys_pc Y c) = Some p \<and>
       ss_run_stop (rn_st (ys_obj Y' p)) = ss_run_stop (rn_st (ys_obj Y p))"
  shows "serving Y'"
  using assms unfolding serving_def by metis

lemma serving_got:
  assumes "serving Y" "ys_gc Y' = ys_gc Y" "ys_pc Y' = (ys_pc Y)(c := CGot w seed)"
    "\<not> ss_run_stop (rn_st (ys_obj Y' w))"
    "\<And>c p. target (ys_pc Y c) = Some p \<Longrightarrow> ss_run_stop (rn_st (ys_obj Y' p)) = ss_run_stop (rn_st (ys_obj Y p))"
  shows "serving Y'"
  using assms unfolding serving_def by (auto split: if_splits)

lemma install_serving:
  assumes "map_ok Y" "ys_pc Y c = CMade p resumed"
    and "create_finish (call_conv (ys_call Y c)) query p resumed (router_view p Y) = Inr ((w, seed), r)"
    and obj: "ob = (ys_obj Y)(p := (ys_obj Y p)\<lparr>rn_st := ro_objs r p, rn_reqs := ro_reqs r\<rparr>)"
  shows "\<not> ss_run_stop (rn_st (ob w))"
    "target (ys_pc Y x) = Some q \<Longrightarrow> ss_run_stop (rn_st (ob q)) = ss_run_stop (rn_st (ys_obj Y q))"
proof -
  have un: "unborn Y c p" by (rule map_okD(6) [OF assms(1,2)])
  then show "target (ys_pc Y x) = Some q \<Longrightarrow> ss_run_stop (rn_st (ob q)) = ss_run_stop (rn_st (ys_obj Y q))"
    by (auto simp: obj unborn_def)
  from assms(3) show "\<not> ss_run_stop (rn_st (ob w))"
  proof (cases rule: create_finish_cases)
    case won
    with un show ?thesis by (simp add: obj unborn_def)
  next
    case lost
    then have m: "(call_conv (ys_call Y c), w) \<in> set (ys_sessions Y)" by (simp add: map_of_SomeD)
    with un have "w \<noteq> p" by (force simp: unborn_def)
    with map_okD(5) [OF assms(1) m] show ?thesis by (simp add: obj)
  qed
qed

lemma serving_step:
  assumes "relay_ok W Y" "serving Y" "quiet_step W Y Y'"
  shows "serving Y'"
proof -
  have ok: "calls_ok W Y" "map_ok Y" using assms(1) by (simp_all add: relay_ok_def)
  from assms(3) obtain a where a: "quiet_actor a" "relay_step W a Y Y'" by (auto simp: quiet_step_def)
  note frame = serving_frame [OF assms(2)] and lt = calls_okD(3) [OF ok(1)]
  from a(2) show ?thesis
  proof cases
    case (Hit c p)
    then have "(call_conv (ys_call Y c), p) \<in> set (ys_sessions Y)" by (simp add: map_of_SomeD)
    from map_okD(5) [OF ok(2) this] Hit(2) show ?thesis
      by (intro serving_got [OF assms(2), of Y' c p False]) simp_all
  next
    case (Install c p resumed w seed r)
    from install_serving [OF ok(2) Install(3,5) refl] Install(2) show ?thesis
      by (intro serving_got [OF assms(2), of Y' c w seed]) simp_all
  next
    case (Blocks c p seed bs r)
    then show ?thesis by (intro frame) (auto split: if_splits intro: exI [of _ c])
  next
    case (Reaction c p seed)
    then show ?thesis by (intro frame) (auto split: if_splits intro: exI [of _ c])
  next
    case (Submit c p bs req now acc q h)
    then have c: "target (ys_pc Y c) = Some p" by simp
    show ?thesis
      by (intro frame) (use Submit(2) c in \<open>auto simp: pushed_pc_def split: if_splits\<close>)
  next
    case (Move p b s)
    from move_frame(3) [OF Move(5,4)] Move(2) show ?thesis by (intro frame) auto
  next
    case (Refused c ag mkdir now e r)
    then show ?thesis by (intro frame) (auto dest: lt split: if_splits)
  next
    case (Opened c ag mkdir now p resumed r)
    then show ?thesis by (intro frame) (auto dest: lt split: if_splits)
  qed (use a(1) in \<open>auto simp: quiet_actor_def intro!: frame split: if_splits\<close>)
qed

lemma quiet_caller: "relay_step W (Caller c) Y Y' \<Longrightarrow> \<exists>Y'. quiet_step W Y Y'"
  by (auto simp: quiet_step_def quiet_actor_def)

text \<open>A call that has not pushed yet can go on, whatever its state: nothing panics.\<close>

lemma start_goes_on:
  assumes "ys_gc Y = None" "ys_pc Y c = CStart"
  shows "\<exists>Y'. quiet_step W Y Y'"
proof (cases "wants_session (ys_call Y c)")
  case True
  then show ?thesis
    using quiet_caller [OF Hit [OF assms(2) True assms(1)]] quiet_caller [OF Miss [OF assms(2) True assms(1)]]
    by (cases "map_of (ys_sessions Y) (call_conv (ys_call Y c))") auto
next
  case False
  show ?thesis
  proof (cases "ys_call Y c")
    case (PromptCall conv user query opts)
    with False quiet_caller [OF Empty [OF assms(2)]] show ?thesis by simp
  next
    case (CancelCall conv)
    obtain e r where "cancel (rw_agent W) conv (router_view 0 Y) = (e, r)" by fastforce
    from quiet_caller [OF Cancel [OF assms(2) CancelCall assms(1) this]] show ?thesis .
  qed (use False in simp)
qed

lemma miss_goes_on:
  assumes "ys_pc Y c = CMiss"
  shows "\<exists>Y'. quiet_step W Y Y'"
proof -
  obtain res r where op: "open_session (rw_cfg W) (rw_agent W) (\<lambda>_. None) 0 (call_conv (ys_call Y c))
    (call_user (ys_call Y c)) (router_view 0 Y) = (res, r)" by fastforce
  show ?thesis
  proof (cases res)
    case (Inl e)
    from quiet_caller [OF Refused [OF assms op [unfolded Inl] refl]] show ?thesis .
  next
    case (Inr pr)
    then obtain p b where "res = Inr (p, b)" by (cases pr) auto
    from quiet_caller [OF Opened [OF assms op [unfolded this] refl]] show ?thesis .
  qed
qed

lemma made_goes_on:
  assumes "relay_ok W Y" "ys_gc Y = None" "ys_pc Y c = CMade p resumed"
  shows "\<exists>Y'. quiet_step W Y Y'"
proof -
  have un: "unborn Y c p" using map_okD(6) [OF _ assms(3)] assms(1) by (simp add: relay_ok_def)
  then have p: "p < ys_next_obj Y" "\<not> ss_run_stop (rn_st (ys_obj Y p))" "rn_used (ys_obj Y p) = {}"
    by (simp_all add: unborn_def)
  from assms(1) p(1) have s: "session_reach (rw_cfg W) (rw_agent W) (ys_init Y p) (ys_obj Y p)"
    "fresh_session (ys_init Y p)" by (simp_all add: relay_ok_def sessions_ok_def)
  have "sq_q (ss_queue (rn_st (ys_obj Y p))) = []" using unused_resting [OF s p(3)] by (simp add: idle_def)
  moreover have "\<not> ss_drain_stop (rn_st (ys_obj Y p))"
    using reach_ok [OF s] p(2) by (simp add: run_ok_def wake_ok_def)
  ultimately have "\<exists>r. stop_session p (router_view p Y) = Inr r"
    using p(2) by (simp add: stop_session_def stop_queue_def Let_def)
  then have "\<exists>x. create_finish (call_conv (ys_call Y c)) (call_query (ys_call Y c)) p resumed (router_view p Y) = Inr x"
    by (cases "map_of (ys_sessions Y) (call_conv (ys_call Y c))") (auto simp: create_finish_def install_def)
  then obtain w seed r where "create_finish (call_conv (ys_call Y c)) (call_query (ys_call Y c)) p resumed
      (router_view p Y) = Inr ((w, seed), r)" by auto
  from quiet_caller [OF Install [OF assms(3,2) this]] show ?thesis .
qed

lemma got_goes_on:
  assumes "disk_ok (rw_att W)" "ys_pc Y c = CGot p seed"
  shows "\<exists>Y'. quiet_step W Y Y'"
proof (cases "is_prompt (ys_call Y c)")
  case True
  obtain bs r where "prompt_blocks (rw_cfg W) (rw_agent W) (rw_att W) (call_query (ys_call Y c)) seed
      (ss_cwd (rn_st (ys_obj Y p))) (router_view p Y) = Inr (bs, r)"
    by (rule prompt_blocks_ok [OF assms(1)])
  from quiet_caller [OF Blocks [OF assms(2) True this]] show ?thesis .
next
  case False
  from quiet_caller [OF Reaction [OF assms(2) False]] show ?thesis .
qed

lemma ready_goes_on:
  assumes "relay_ok W Y" "ys_pc Y c = CReady p bs"
  shows "\<exists>Y'. quiet_step W Y Y'"
proof -
  have "calls_ok W Y" "sessions_ok W Y" using assms(1) by (simp_all add: relay_ok_def)
  moreover from calls_okD(3) [OF this(1), of c p] assms(2) have "p < ys_next_obj Y" by simp
  ultimately have "reqs_ok (ys_obj Y p)" using run_ok_obj(1) by (auto simp: run_ok_def)
  then have "\<forall>r \<in> set (sq_q (ss_queue (rn_st (ys_obj Y p)))). \<not> rs_done (rn_reqs (ys_obj Y p) (rq_id r))"
    by (auto simp: reqs_ok_def pending_ok_def)
  from push_no_panic [OF this] obtain acc q h where
    "push (call_req (rw_unicode W) c (ys_call Y c) bs 0 (ys_next_req Y)) (ss_queue (rn_st (ys_obj Y p)))
      (rn_reqs (ys_obj Y p)) = Inr (acc, q, h)" by blast
  from quiet_caller [OF Submit [OF assms(2) refl this]] show ?thesis .
qed

text \<open>A prompt that waits: its session moves, or the request is done.\<close>

lemma wait_goes_on:
  assumes "relay_ok W Y" "serving Y" "ys_pc Y c = CWait p req"
  shows "\<exists>Y'. quiet_step W Y Y'"
proof -
  have ok: "calls_ok W Y" "sessions_ok W Y" using assms(1) by (simp_all add: relay_ok_def)
  have p: "p < ys_next_obj Y" "rq_id req \<in> rn_used (ys_obj Y p)"
    using calls_okD(5) [OF ok(1), of c p req] assms(3) by (simp_all add: issued_ok_def)
  note run = run_ok_obj(1) [OF ok(2) p(1)]
  have ns: "\<not> ss_run_stop (rn_st (ys_obj Y p))"
    using assms(2,3) unfolding serving_def by (metis target.simps(3))
  from progress [OF run ns] show ?thesis
  proof (elim disjE exE conjE)
    fix s assume "internal_step (rw_cfg W) (rw_agent W) (ys_obj Y p) s"
    then obtain a where a: "a \<in> {Runner, Drain, Answer}" "session_step (rw_cfg W) (rw_agent W) a (ys_obj Y p) s"
      by (auto simp: internal_step_def)
    have "quiet_actor (Goroutine p a)" using a(1) by (auto simp: quiet_actor_def)
    with Move [OF p(1) _ a(2)] a(1) show ?thesis by (auto simp: quiet_step_def)
  next
    assume "rn_pc (ys_obj Y p) = RWait" "sq_q (ss_queue (rn_st (ys_obj Y p))) = []"
    with run p(2) have "rs_done (rn_reqs (ys_obj Y p) (rq_id req))"
      by (auto simp: run_ok_def reqs_ok_def pending_ok_def)
    then have "\<exists>res. prompt_result (rq_id req) None (router_view p Y) = Some res" by (simp add: prompt_result_def)
    then obtain res where "prompt_result (rq_id req) None (router_view p Y) = Some res" ..
    from quiet_caller [OF Return [OF assms(3) this]] show ?thesis .
  qed
qed

lemma relay_progress:
  assumes "relay_ok W Y" "serving Y" "disk_ok (rw_att W)" "\<nexists>Y'. quiet_step W Y Y'"
  shows "ys_pc Y c = CIdle \<or> (\<exists>x e. ys_pc Y c = CReturned x e)"
  using assms(4) start_goes_on [of Y c W] miss_goes_on [of Y c W] made_goes_on [OF assms(1), of c]
    got_goes_on [OF assms(3), of Y c] ready_goes_on [OF assms(1), of c] wait_goes_on [OF assms(1,2), of c] assms(2)
  by (cases "ys_pc Y c") (auto simp: serving_def)

lemma quiet_keeps:
  assumes "relay_ok W Y" "quiet_step W Y Y'"
  shows "relay_ok W Y'" "ys_next_call Y' = ys_next_call Y" "ys_pc Y c \<noteq> CIdle \<Longrightarrow> ys_pc Y' c \<noteq> CIdle"
proof -
  from assms(2) obtain a where a: "quiet_actor a" "relay_step W a Y Y'" by (auto simp: quiet_step_def)
  show "relay_ok W Y'" by (rule relay_ok_step(1) [OF a(2) assms(1)])
  show "ys_next_call Y' = ys_next_call Y" using a(2) by cases (use a(1) in \<open>auto simp: quiet_actor_def\<close>)
  show "ys_pc Y' c \<noteq> CIdle" if "ys_pc Y c \<noteq> CIdle"
    using a(2) by cases (use a(1) that in \<open>auto simp: quiet_actor_def pushed_pc_def\<close>)
qed

text \<open>The calls \<open>C\<close> made, in a router that serves them; and all of them back.\<close>

definition calls_served :: "relay_world \<Rightarrow> nat set \<Rightarrow> relay_state \<Rightarrow> bool" where
  "calls_served W C Y \<longleftrightarrow>
     relay_ok W Y \<and> serving Y \<and> disk_ok (rw_att W) \<and> (\<forall>c \<in> C. ys_pc Y c \<noteq> CIdle)"

definition calls_back :: "nat set \<Rightarrow> relay_state \<Rightarrow> bool" where
  "calls_back C Y \<longleftrightarrow> (\<forall>c \<in> C. \<exists>x e. ys_pc Y c = CReturned x e)"

interpretation call_bound: bounded_runs "quiet_step W" "calls_served W C" relay_work "calls_back C" for W C
proof unfold_locales
  fix Y Y' assume live: "calls_served W C Y" and step: "quiet_step W Y Y'"
  then have ok: "relay_ok W Y" "serving Y" by (simp_all add: calls_served_def)
  note keeps = quiet_keeps [OF ok(1) step]
  from live keeps(1,3) serving_step [OF ok step] show "calls_served W C Y'" by (auto simp: calls_served_def)
  show "relay_work Y' < relay_work Y" by (rule quiet_work [OF ok(1) step])
next
  fix Y assume live: "calls_served W C Y" and stuck: "\<nexists>Y'. quiet_step W Y Y'"
  then have "ys_pc Y c = CIdle \<or> (\<exists>x e. ys_pc Y c = CReturned x e)" for c
    by (intro relay_progress [OF _ _ _ stuck]) (simp_all add: calls_served_def)
  with live show "calls_back C Y" unfolding calls_served_def calls_back_def by blast
qed

text \<open>Liveness: every \<open>Prompt\<close>, \<open>ReportReaction\<close> and \<open>Cancel\<close> comes back. While no session a call works
  with is being stopped, and without new calls and notifications, at most \<open>relay_work\<close> steps of
  callers, runners, drains and the agent are possible, in any order, and when none is, every call has
  returned: whatever else is in progress no operation panics and no caller is blocked for ever.\<close>

theorem every_call_returns:
  assumes "relay_reach W Y" "serving Y" "disk_ok (rw_att W)" "(quiet_step W ^^ n) Y Y'"
  shows "n \<le> relay_work Y \<and>
    ((\<nexists>Y''. quiet_step W Y' Y'') \<longrightarrow> (\<forall>c. ys_pc Y c \<noteq> CIdle \<longrightarrow> (\<exists>x e. ys_pc Y' c = CReturned x e)))"
proof -
  have live: "calls_served W {c. ys_pc Y c \<noteq> CIdle} Y"
    using relay_reach_all(1) [OF assms(1)] assms(2,3) by (simp add: calls_served_def)
  from call_bound.run_bounded [OF assms(4) live] call_bound.run_settles [OF assms(4) live]
  show ?thesis by (auto simp: calls_back_def)
qed

theorem every_call_returns_witness:
  "\<exists>n Y' x e. (quiet_step demo_world ^^ n) demo_arrived Y' \<and> n \<le> relay_work demo_arrived \<and> ys_pc Y' 0 = CReturned x e"
proof -
  have sv: "serving demo_arrived" by (simp add: serving_def demo_arrived_def relay_start_def)
  have disk: "disk_ok (rw_att demo_world)" by (simp add: demo_world_def disk_ok_def demo_env_def)
  have "calls_served demo_world {} demo_arrived"
    using relay_reach_all(1) [OF demo_arrived_reach] sv disk by (simp add: calls_served_def)
  from call_bound.run_halts [OF this] obtain n Y' where
    run: "(quiet_step demo_world ^^ n) demo_arrived Y'" "\<nexists>Y''. quiet_step demo_world Y' Y''" by blast
  have "ys_pc demo_arrived 0 \<noteq> CIdle" by (simp add: demo_arrived_def relay_start_def)
  then show ?thesis using every_call_returns [OF demo_arrived_reach sv disk run(1)] run by blast
qed

end
