(* ===== verification/Handler_Liveness.thy ===== *)
theory Handler_Liveness
  imports Handler_Properties Relay_Liveness
begin

text \<open>
  Every handler returns: the steps of the relay (theory \<open>Relay_Liveness\<close>), the calls on the sinks
  they lead to and the handlers' own way out are bounded by a measure, and as long as a handler has
  not returned one of them is possible. New requests, notifications, collections, heartbeats and
  watchers are what the measure does not bound; none of them is needed.
\<close>

section \<open>The measure\<close>

fun handler_work :: "handler_pc \<Rightarrow> nat" where
  "handler_work HNone = 0"
| "handler_work HCall = 2"
| "handler_work HClosed = 1"
| "handler_work HBack = 0"

definition busy :: "handler_state \<Rightarrow> relay_actor set" where
  "busy H = {A. hr_pend H A \<noteq> []}"

definition pend_work :: "handler_state \<Rightarrow> nat" where
  "pend_work H = (\<Sum>A \<in> busy H. length (hr_pend H A))"

text \<open>A step of the relay writes at most two events.\<close>

definition handlers_work :: "handler_state \<Rightarrow> nat" where
  "handlers_work H = 3 * relay_work (hr_relay H) + pend_work H + (\<Sum>c < ys_next_call (hr_relay H). handler_work (hr_pc H c))"

lemma pend_work_upd:
  assumes "finite (busy H)" "hr_pend H' = (hr_pend H)(A := es)"
  shows "finite (busy H')" "pend_work H' + length (hr_pend H A) = pend_work H + length es"
proof -
  have sub: "busy H' \<subseteq> insert A (busy H)" by (auto simp: busy_def assms(2))
  then show "finite (busy H')" using assms(1) finite_subset by blast
  let ?S = "busy H - {A}"
  have total: "pend_work K = length (hr_pend K A) + (\<Sum>B \<in> ?S. length (hr_pend H B))"
    if "busy K - {A} = ?S" "finite (busy K)" "\<And>B. B \<noteq> A \<Longrightarrow> hr_pend K B = hr_pend H B" for K
  proof -
    have "pend_work K = length (hr_pend K A) + (\<Sum>B \<in> busy K - {A}. length (hr_pend K B))"
    proof (cases "A \<in> busy K")
      case True
      then show ?thesis using that(2) by (simp add: pend_work_def sum.remove)
    next
      case False
      then show ?thesis by (simp add: pend_work_def) (simp add: busy_def)
    qed
    moreover have "(\<Sum>B \<in> busy K - {A}. length (hr_pend K B)) = (\<Sum>B \<in> ?S. length (hr_pend H B))"
      using that(1,3) by (intro sum.cong) auto
    ultimately show ?thesis by simp
  qed
  have "busy H' - {A} = ?S" by (auto simp: busy_def assms(2))
  with total [of H'] total [of H] assms \<open>finite (busy H')\<close> show "pend_work H' + length (hr_pend H A) = pend_work H + length es"
    by simp
qed

lemma few_events:
  "length (option_events ag st req) \<le> 2" "length (conclude_events res) \<le> 2"
  "length (snd (snd (drain_process_chunk u td first mode))) \<le> 2"
  by (auto simp: option_events_def conclude_events_def drain_process_chunk_def Let_def
      split: option.splits sum.splits stop_reason.splits)

lemma move_few:
  assumes "session_step cfg ag a s s'" "a \<noteq> Outside"
  shows "length (rn_out s') \<le> length (rn_out s) + 2"
  using assms(1)
proof cases
  case (Receive m ms d evs ack)
  have "length evs \<le> 2"
  proof (cases m)
    case (MsgNotif u)
    with Receive(5) few_events(3) show ?thesis
      by (cases "dr_td (ss_drain (rn_st s))") (auto split: prod.splits, metis snd_conv)
  qed (use Receive(5) in auto)
  with Receive(2) show ?thesis by simp
qed (use assms(2) few_events in auto)

lemma relay_few:
  assumes "relay_step W A Y Y'"
  shows "length (ys_out Y') \<le> length (ys_out Y) + 2"
  using assms
proof cases
  case (Move p a s)
  with move_few [OF Move(5,4)] show ?thesis by (simp add: put_run_def)
qed (auto simp: give_up_def pushed_def)

lemma finite_busy: "handler_reach W H \<Longrightarrow> finite (busy H)"
proof (induction rule: handler_reach.induct)
  case start
  show ?case by (simp add: handler_start_def busy_def)
next
  case (step H H')
  note upd = pend_work_upd(1) [OF step.IH]
  from step.hyps(2) show ?case
  proof cases
    case (Relay A Y)
    show ?thesis by (rule upd) (simp add: Relay(1))
  next
    case (Write A k e es)
    show ?thesis by (rule upd) (simp add: Write(1))
  next
    case (Back c)
    then have "busy H' = busy H" by (simp add: busy_def Let_def)
    with step.IH show ?thesis by simp
  qed (use step.IH in \<open>simp_all add: busy_def\<close>)
qed

lemma arrived: "relay_reach W Y \<Longrightarrow> c < ys_next_call Y \<Longrightarrow> ys_pc Y c \<noteq> CIdle"
proof (induction arbitrary: c rule: relay_reach.induct)
  case start
  then show ?case by (simp add: relay_start_def)
next
  case (step Y a Y')
  from step.hyps(2) show ?case
  proof cases
    case (Arrive call)
    with step.IH [of c] step.prems show ?thesis by (auto simp: less_Suc_eq)
  qed (use step.IH [of c] step.prems in \<open>auto simp: pushed_pc_def\<close>)
qed

section \<open>The steps\<close>

text \<open>What has to go on for the calls in progress.\<close>

inductive handler_quiet :: "handler_world \<Rightarrow> handler_state \<Rightarrow> handler_state \<Rightarrow> bool" for W :: handler_world where
  relay: "quiet_actor A \<Longrightarrow> relay_step (hw_relay W) A (hr_relay H) Y \<Longrightarrow> hr_pend H A = [] \<Longrightarrow>
    handler_quiet W H (H\<lparr>hr_relay := Y, hr_pend := (hr_pend H)(A := drop (length (ys_out (hr_relay H))) (ys_out Y))\<rparr>)"
| pen: "hr_pend H A = (k, e) # es \<Longrightarrow>
    handler_quiet W H (deliver (hw_io W) k e (H\<lparr>hr_pend := (hr_pend H)(A := es)\<rparr>))"
| close: "hr_pc H c = HCall \<Longrightarrow> ys_pc (hr_relay H) c = CReturned x e \<Longrightarrow> hr_pend H (Caller c) = [] \<Longrightarrow>
    handler_quiet W H (H\<lparr>hr_pc := (hr_pc H)(c := HClosed), hr_watch := (hr_watch H)(c := wake WEnd (hr_watch H c))\<rparr>)"
| out: "hr_pc H c = HClosed \<Longrightarrow>
    handler_quiet W H (let H' = H\<lparr>hr_pc := (hr_pc H)(c := HBack), hr_watch := (hr_watch H)(c := wake WFire (hr_watch H c))\<rparr>
      in if is_prompt (ys_call (hr_relay H) c) then act_on (hw_io W) c SinkStop H' else H')"

lemma quiet_not_client: "quiet_actor A \<Longrightarrow> A \<noteq> Client"
  by (auto simp: quiet_actor_def)

lemma quiet_handler_step: "handler_quiet W H H' \<Longrightarrow> handler_step W H H'"
  by (induction rule: handler_quiet.induct) (rule handler_step.intros; auto dest: quiet_not_client)+

lemma quiet_costs:
  assumes "handler_quiet W H H'" "handler_reach W H"
  shows "handlers_work H' < handlers_work H"
proof -
  have ok: "relay_ok (hw_relay W) (hr_relay H)" "finite (busy H)"
    using handler_facts(2) [OF assms(2)] finite_busy [OF assms(2)] by simp_all
  have known: "c < ys_next_call (hr_relay H)" if "hr_pc H c \<noteq> HNone" for c
    using handler_facts(5) [OF assms(2), of c] that unfolding one_ok_def by (meson not_le)
  have handlers: "(\<Sum>d < n. handler_work (((hr_pc H)(c := x)) d)) + handler_work (hr_pc H c) =
      (\<Sum>d < n. handler_work (hr_pc H d)) + handler_work x" if "c < n" for c x n
    by (rule sum_upd [OF that])
  from assms(1) show ?thesis
  proof cases
    case (relay A Y)
    from pend_work_upd(2) [OF ok(2), of H' A "drop (length (ys_out (hr_relay H))) (ys_out Y)"] relay(1,4) relay_few [OF relay(3)]
    have "pend_work H' \<le> pend_work H + 2" by simp
    moreover have "relay_work Y < relay_work (hr_relay H)"
      by (rule quiet_work [OF ok(1)]) (use relay(2,3) in \<open>auto simp: quiet_step_def\<close>)
    ultimately show ?thesis using relay_keeps(2) [OF relay(3) quiet_not_client [OF relay(2)]]
      by (simp add: handlers_work_def relay(1))
  next
    case (pen A k e es)
    from pend_work_upd(2) [OF ok(2), of H' A es] pen have "pend_work H' < pend_work H" by simp
    then show ?thesis by (simp add: handlers_work_def pen(1))
  next
    case (close c x e)
    have "pend_work H' = pend_work H" by (simp add: pend_work_def busy_def close(1))
    with handlers [OF known [of c], of HClosed] close show ?thesis by (simp add: handlers_work_def)
  next
    case (out c)
    have "pend_work H' = pend_work H" by (simp add: pend_work_def busy_def out(1) Let_def)
    with handlers [OF known [of c], of HBack] out show ?thesis by (simp add: handlers_work_def Let_def)
  qed
qed

section \<open>Every handler returns\<close>

definition handlers_served :: "handler_world \<Rightarrow> nat set \<Rightarrow> handler_state \<Rightarrow> bool" where
  "handlers_served W C H \<longleftrightarrow> handler_reach W H \<and> serving (hr_relay H) \<and> disk_ok (rw_att (hw_relay W)) \<and>
     (\<forall>c \<in> C. hr_pc H c \<noteq> HNone)"

definition handlers_back :: "nat set \<Rightarrow> handler_state \<Rightarrow> bool" where
  "handlers_back C H \<longleftrightarrow> (\<forall>c \<in> C. hr_pc H c = HBack)"

lemma handlers_stuck:
  assumes "handlers_served W C H" "\<nexists>H'. handler_quiet W H H'"
  shows "handlers_back C H"
proof -
  have live: "handler_reach W H" "serving (hr_relay H)" "disk_ok (rw_att (hw_relay W))" "\<And>c. c \<in> C \<Longrightarrow> hr_pc H c \<noteq> HNone"
    using assms(1) by (simp_all add: handlers_served_def)
  note F = handler_facts [OF live(1)]
  have none: "hr_pend H A = []" for A
  proof (cases "hr_pend H A")
    case (Cons x es)
    with assms(2) handler_quiet.pen [of H A "fst x" "snd x" es W] show ?thesis by auto
  qed
  have "\<nexists>Y. quiet_step (hw_relay W) (hr_relay H) Y"
    using assms(2) handler_quiet.relay [OF _ _ none] unfolding quiet_step_def by blast
  note calls = relay_progress [OF F(2) live(2,3) this]
  have "hr_pc H c = HBack" if "c \<in> C" for c
  proof -
    have "c < ys_next_call (hr_relay H)" using F(5) [of c] live(4) [OF that] unfolding one_ok_def by (meson not_le)
    with arrived [OF F(1)] calls [of c] obtain x e where "ys_pc (hr_relay H) c = CReturned x e" by blast
    with assms(2) handler_quiet.close [OF _ _ none] have "hr_pc H c \<noteq> HCall" by blast
    moreover have "hr_pc H c \<noteq> HClosed" using assms(2) handler_quiet.out by blast
    ultimately show ?thesis using live(4) [OF that] by (cases "hr_pc H c") simp_all
  qed
  then show ?thesis by (simp add: handlers_back_def)
qed

lemma quiet_serves:
  assumes "handlers_served W C H" "handler_quiet W H H'"
  shows "handlers_served W C H'"
proof -
  have live: "handler_reach W H" "serving (hr_relay H)" "disk_ok (rw_att (hw_relay W))" "\<And>c. c \<in> C \<Longrightarrow> hr_pc H c \<noteq> HNone"
    using assms(1) by (simp_all add: handlers_served_def)
  have "serving (hr_relay H') \<and> (\<forall>c. hr_pc H c \<noteq> HNone \<longrightarrow> hr_pc H' c \<noteq> HNone)"
    using assms(2)
  proof cases
    case (relay A Y)
    have "serving Y"
      by (rule serving_step [OF handler_facts(2) [OF live(1)] live(2)]) (use relay(2,3) in \<open>auto simp: quiet_step_def\<close>)
    then show ?thesis by (simp add: relay(1))
  qed (use live(2) in \<open>auto simp: Let_def\<close>)
  with live handler_reach.step [OF live(1) quiet_handler_step [OF assms(2)]] show ?thesis
    by (simp add: handlers_served_def)
qed

interpretation handler_bound: bounded_runs "handler_quiet W" "handlers_served W C" handlers_work "handlers_back C" for W C
proof unfold_locales
  fix H H' assume live: "handlers_served W C H" and step: "handler_quiet W H H'"
  show "handlers_served W C H'" by (rule quiet_serves [OF live step])
  show "handlers_work H' < handlers_work H"
    by (rule quiet_costs [OF step]) (use live in \<open>simp add: handlers_served_def\<close>)
next
  fix H assume "handlers_served W C H" "\<nexists>H'. handler_quiet W H H'"
  then show "handlers_back C H" by (rule handlers_stuck)
qed

text \<open>C3: Liveness: every handler returns, so every query gets its response and every reaction its answer.
  While no session a call works with is being stopped, and without new requests and notifications,
  at most \<open>handlers_work\<close> steps are possible of callers, runners, drains and the agent, of their calls on
  the sinks and of handlers whose call is back, in any order; and when none is, every handler has
  returned: no operation panics and nobody waits for ever, whatever else is in progress.\<close>

theorem every_handler_returns:
  assumes "handler_reach W H" "serving (hr_relay H)" "disk_ok (rw_att (hw_relay W))" "(handler_quiet W ^^ n) H H'"
  shows "n \<le> handlers_work H \<and>
    ((\<nexists>H''. handler_quiet W H' H'') \<longrightarrow> (\<forall>c. hr_pc H c \<noteq> HNone \<longrightarrow> hr_pc H' c = HBack))"
proof -
  have live: "handlers_served W {c. hr_pc H c \<noteq> HNone} H" using assms(1-3) by (simp add: handlers_served_def)
  from handler_bound.run_bounded [OF assms(4) live] handler_bound.run_settles [OF assms(4) live]
  show ?thesis by (auto simp: handlers_back_def)
qed

theorem every_handler_returns_witness:
  "\<exists>n H H'. handler_reach demo_handlers H \<and> hr_relay H = demo_arrived \<and> (handler_quiet demo_handlers ^^ n) H H' \<and>
     n \<le> handlers_work H \<and> hr_pc H' 0 = HBack"
proof (rule demo_first)
  fix H assume H: "handler_reach demo_handlers H" "hr_relay H = demo_arrived" "hr_pc H = (\<lambda>c. if c = 0 then HCall else HNone)"
  have sv: "serving (hr_relay H)" by (simp add: H(2) serving_def demo_arrived_def relay_start_def)
  have disk: "disk_ok (rw_att (hw_relay demo_handlers))" by (simp add: demo_world_def disk_ok_def demo_env_def)
  have "handlers_served demo_handlers {} H" using H(1) sv disk by (simp add: handlers_served_def)
  from handler_bound.run_halts [OF this] obtain n H' where
    run: "(handler_quiet demo_handlers ^^ n) H H'" "\<nexists>H''. handler_quiet demo_handlers H' H''" by blast
  have "hr_pc H 0 \<noteq> HNone" by (simp add: H(3))
  with every_handler_returns [OF H(1) sv disk run(1)] run H(1,2) show ?thesis by blast
qed

end
