(* ===== verification/Spec2Isabelle.thy ===== *)
theory Spec2Isabelle
  imports Conversation Attachment_Sweep Relay_Main Handler_Liveness
begin

text \<open>
  poe-acp relays the Poe server-bot protocol to an agent that speaks ACP over stdio. A Poe request
  (internal/httpsrv) is decoded (internal/poeproto), answered at once (settings, reports, login
  commands handled by internal/authbroker) or handed to the router (internal/router), which keeps one
  agent session per conversation: a queue of turns, a goroutine that runs them one at a time on the
  agent (internal/acpclient), and a goroutine that drains the agent's notifications into the response
  of the current turn, where they meet a heartbeat on one SSE stream. This library models these parts
  as functions and step relations and proves what makes them correct.

  \<^bold>\<open>Theories.\<close>
  \<^item> \<open>Relay_Prelude\<close>, \<open>Relay_Types\<close>: Go strings as byte lists, errors as sums, panics, 64-bit wrap-around,
    list lemmas; the types shared by the components.
  \<^item> \<open>Go_Utf8\<close>, \<open>Go_Json\<close>, \<open>Go_Strings\<close>, \<open>Go_Path\<close>, \<open>Go_Codec\<close>, \<open>Go_Decode\<close>: the parts of Go's standard
    library the code uses: UTF-8, writing JSON, strings, filepath, SHA-256, hex, base64 and URL escaping,
    and decoding JSON into structs.
  \<^item> \<open>Session_Queue\<close>, \<open>Chunk_Drain\<close>, \<open>Router_State\<close>, \<open>Turns\<close>, \<open>Attachments\<close>, \<open>Router\<close>, \<open>Attachment_Sweep\<close>
    (internal/router/router.go): \<open>sessionQueue\<close>, \<open>drainChunks\<close>, the state of the router, \<open>runOneTurn\<close>
    and \<open>applyOptions\<close>, downloading attachments, \<open>Prompt\<close>, \<open>ReportReaction\<close>, \<open>getOrCreate\<close>, \<open>Cancel\<close>,
    \<open>gcOnce\<close>, \<open>Debug\<close>, and the sweep. \<open>Router_Invariant\<close> and \<open>Router_Properties\<close> prove the invariant of
    every reachable router and what its operations do.
  \<^item> \<open>Session_Runs\<close>, \<open>Session_Refinement\<close>: the goroutines of one session as a step relation, one step per
    atomic action, and the proof that every interleaving has the effect of the turns of \<open>Turns\<close> one
    after the other, and that accepted turns finish. \<open>Session_History\<close>: what the log of completed turns
    says about each request.
  \<^item> \<open>Relay_Runs\<close>: the whole router at work, any number of such sessions and any number of calls of
    \<open>Prompt\<close>, \<open>ReportReaction\<close> and \<open>Cancel\<close> in progress, with \<open>gcOnce\<close>. \<open>Relay_Invariant\<close> is its
    invariant (each session a reachable one of \<open>Session_Runs\<close>, the map, the requests), \<open>Relay_Prompts\<close>
    what a returned \<open>Prompt\<close> has done, \<open>Relay_Liveness\<close> that calls return, \<open>Relay_Example\<close> some runs.
  \<^item> \<open>Handler_Runs\<close> (internal/httpsrv/handler.go): the handlers of all queries and reactions around that
    router, with the goroutines that watch for clients going away and the heartbeats; a goroutine of the
    router makes its calls on a sink one by one, each a step of its own. Its invariant says who may still
    have something to write. \<open>Handler_Properties\<close>: what a sink has received when a handler is past its
    call, whose context a turn runs with, whom a cancellation hits. \<open>Handler_Liveness\<close>: handlers return.
  \<^item> \<open>Conversation\<close>: Poe's view, one conversation over many queries, collections and restarts.
  \<^item> \<open>Sse_Stream\<close>, \<open>Http_Sink\<close>, \<open>Poe_Proto\<close>, \<open>Http_Handler\<close> (internal/poeproto, internal/httpsrv): the SSE
    writer and a client that reads it, the sink with its heartbeat, request decoding and settings,
    and the handlers composed of all components.
  \<^item> \<open>Auth_Broker\<close>, \<open>Policy\<close>, \<open>Acp_Client\<close>, \<open>Acp_Properties\<close> (internal/authbroker, internal/policy,
    internal/acpclient): logins in two calls, permission policies, the requests to the agent and the
    calls from it.
  \<^item> \<open>Relay_Config\<close>, \<open>Param_Ctl\<close>, \<open>Skills\<close>, \<open>Relay_Main\<close> (internal/config, internal/paramctl,
    internal/skills, cmd/poe-acp, internal/debuglog): configuration, parameter controls, the skills
    catalogue, start-up, routes and helpers.

  \<^bold>\<open>Conventions.\<close> A Go struct is a record, a method a function from the state to its results and the new
  state; an error is the left side of a sum or an option; a panic is a left value of \<open>go_panic\<close>. A
  \<open>*sessionState\<close> is an index into a heap of objects. Calls on the agent, on sinks and on the disk are
  kept as histories. Whatever is not in this repository is an argument: the agent's answers
  (\<open>agent_env\<close>, \<open>acp_peer\<close>), the clock, the network and the disk (\<open>att_env\<close>, \<open>host_disk\<close>, \<open>disk_env\<close>),
  the scanner of encoding/json (\<open>json_lib\<close>), the Unicode tables beyond ASCII (\<open>unicode\<close>), the errors of
  writing to the connection (\<open>io_env\<close>). \<open>getOrCreate\<close>, \<open>gcOnce\<close> and the broker's \<open>start\<close> are cut where
  the code gives up a lock, so that races are expressible.

  \<^bold>\<open>Interfaces.\<close> Locales state what one component relies on: \<open>permission_policy\<close> (\<open>Policy\<close>, used by the
  client), \<open>auth_broker\<close> (\<open>Auth_Broker\<close>, used by the handler), \<open>update_routing\<close> (\<open>Acp_Properties\<close>),
  \<open>shedding_fifo\<close> (\<open>Session_Queue\<close>), and \<open>bounded_runs\<close> (\<open>Relay_Prelude\<close>) for the three liveness arguments,
  of a session, of the whole router and of the handlers; each is interpreted on the model of the code that provides it.

  \<^bold>\<open>What is shown.\<close> The composition: with any number of requests in progress the agent's output of a
  turn reaches the user of its query unaltered through turn, drain, heartbeat and SSE, and the
  response is never written to after \<open>done\<close>; every request
  is answered; settings show the defaults the router applies; nothing happens without the secret.
  Concurrency: a returned prompt's sink has the output of its own turn and nothing else; every handler
  returns, and a user turn runs while its handler waits for it; the interleavings of a session refine sequential turns, accepted turns finish (measures
  bound the internal steps, no wake-up is lost), no channel is closed twice, a creation race has one
  winner. Conversations: whatever is collected or restarted, the session that answers has been sent
  every message of the user. Components: queue order and shedding, rendering of chunks, round
  trips of SSE and of the skills catalogue, options, attachments (bounds, confinement, fresh names),
  sweep and collection, logins, policies, routing of notifications, configuration, extraction of
  skills. Some theorems state what goes wrong: a collection that races a prompt can hang it, a
  reaction that comes before the first query loses the transcript, a conversation id can leave its
  directory, a query without an id is never cancelled, a client that leaves the queue cancels the turn
  of another one, a reaction runs with a context that is done, a large window crashes a file read.

  \<^bold>\<open>Bounds and fuel.\<close> \<open>read_stream\<close> and \<open>read_entries\<close> (readers used in statements, not code) take fuel;
  the theorems give one that is enough. Loops of the code terminate by structural recursion or a
  measure; \<open>uniqueName\<close>'s search is bounded by the number of names taken. Integers that can
  overflow wrap (\<open>int64\<close>); sizes of queues and channels are the code's (\<open>session_queue_cap\<close>,
  \<open>chunk_cap\<close>). \<open>relay_work\<close> bounds the steps until every call is back: it adds up how far each call has
  to go and the measures of the sessions; new calls and notifications are what it does not bound.
  \<open>handlers_work\<close> adds what is still to be written (a step of the relay writes at most two events) and
  the way out of each handler.

  \<^bold>\<open>Not modelled.\<close> Log output; the timing of tickers (a tick is a step that may happen at any time);
  starting the agent's process, signals, the listener and shutdown; flag parsing; the SDK's connection;
  what the SDK and net/http do with a context that is done (\<open>ctx_done\<close> says when it is); \<open>http.ServeMux\<close> beyond plain paths; file modes; the order of
  equal elements in \<open>sort.Slice\<close> beyond what the theorems on distinct names need. In \<open>Relay_Runs\<close> the
  time of last use is not compared, so that more sessions may be collected than by the code, and
  downloads and requests for options find the same network, disk and agent throughout a run (what
  sessions and prompts are answered is open); the theory \<open>Router\<close> has an environment for each operation.

  In \<open>Handler_Runs\<close> every query is one the login broker does not take; those that it takes are
  answered without the router (\<open>Http_Handler\<close>). The agent is an environment there; the client's side
  of its connection (\<open>Acp_Client\<close>) is joined to the router by \<open>client_refines_agent\<close>, one operation at a time.
\<close>

section \<open>Properties of the whole relay\<close>


text \<open>A relay started with an agent that advertises nothing, no configuration file and no skills.\<close>

definition demo_flags :: main_flags where
  "demo_flags = \<lparr>mf_agent_cmd = ''fir'', mf_agent_dir = [], mf_state_dir = ''/s'', mf_config = ''/c'',
     mf_permission = [], mf_access_key_env = ''K'', mf_poe_path = ''/poe'', mf_introduction = [],
     mf_session_ttl = 0, mf_heartbeat = 0, mf_allow_attachments = True\<rparr>"

definition demo_main :: main_env where
  "demo_main = \<lparr>me_json = demo_json_lib, me_unicode = ascii_tables,
     me_host = \<lparr>ho_getenv = (\<lambda>_. ''secret''), ho_home = Inl [], ho_tmp = ''/tmp''\<rparr>, me_environ = [],
     me_config = (\<lambda>_. NoFile), me_mkdir = (\<lambda>_. None), me_spawn = (\<lambda>_ _ _. Inr demo_peer),
     me_probe_dir = Inr ''/tmp/p'', me_bundle = [], me_disk = empty_disk, me_abs = Inr,
     me_entries = (\<lambda>_. Inr None), me_read = (\<lambda>_. Missing)\<rparr>"

lemma demo_start: "\<exists>rl. start_relay demo_flags demo_main = Inr (Inr rl) \<and> rl_secret rl = ''secret''"
proof -
  have f: "go_fields ''fir'' = [''fir'']" by code_simp
  have p: "parse_policy ascii_tables [] = Inr AllowAll" by code_simp
  obtain a where s: "start_agent ascii_tables (\<lambda>_ _ _. Inr demo_peer) ''/tmp'' [''fir''] ''/s'' (Some []) (Some AllowAll) =
      Inr (demo_peer, a)" and m: "ap_models a = None"
    by (simp add: start_agent_def connect_def demo_peer_def)
  have "fst (load_builtin t [] empty_disk) = Inr []" for t
    by (simp add: load_builtin_def bundle_hash_def sort_by_def)
  then have c: "skills_catalog demo_flags demo_main = []"
    by (simp add: skills_catalog_def demo_main_def load_dir_def build_skills_catalog_def merge_skills_def
        merge_map_def sort_by_def split: if_splits)
  have sd: "state_dir demo_flags demo_main = ''/s''" by (simp add: state_dir_def demo_flags_def)
  have "\<exists>a'. probe_models demo_peer (Inr ''/tmp/p'') a = Inr (None, a')"
    by (simp add: probe_models_def m new_session_def demo_peer_def Let_def)
  then obtain a' where pr: "probe_models demo_peer (Inr ''/tmp/p'') a = Inr (None, a')" ..
  have "\<exists>rl. wire_relay demo_flags demo_main ''secret'' empty_config demo_peer a = Inr (Inr rl) \<and> rl_secret rl = ''secret''"
    unfolding wire_relay_def c sd
    by (simp add: demo_main_def pr new_config_def Let_def hour_ns_def default_attachment_ttl_def)
  then show ?thesis
    unfolding start_relay_def main_checks_def launch_relay_def sd
    by (simp add: demo_main_def demo_flags_def p load_config_def f s child_env_def Let_def)
qed


theorem printed_catalogue_is_installed_witness:
  "\<exists>rl. run_main ''1'' False False demo_flags demo_main = Inr (Serving rl) \<and>
     (\<exists>cat. run_main ''1'' False True demo_flags demo_main = Inr (PrintCatalog cat))"
proof -
  obtain rl where "start_relay demo_flags demo_main = Inr (Inr rl)" using demo_start by blast
  then have "run_main ''1'' False False demo_flags demo_main = Inr (Serving rl)" by (simp add: serving_iff)
  with printed_catalogue_is_installed [OF this] show ?thesis by blast
qed

text \<open>C27: Without the secret nothing happens: a request without the exact bearer header gets no answer
  but a refusal, \<open>not found\<close> or the health line, and changes neither the router nor the logins.\<close>

theorem nothing_without_the_secret:
  assumes "start_relay F E = Inr (Inr rl)" "auth \<noteq> ''Bearer '' @ rl_secret rl"
  shows "\<exists>rep. serve_path H rl poe_path a k path meth auth body s = Inr (rep, s) \<and>
    (rep = http_error 401 ''unauthorized'' \<or> rep = http_error 404 ''404 page not found'' \<or>
     path = ''/healthz'' \<and> rep = ReplyText (''ok sessions='' @ itoa (int (router_len (sv_router s))) @ [nl]))"
proof -
  from assms(2) have "bearer_rejects (rl_secret rl) auth" using bearer_is_exact by blast
  then show ?thesis by (auto simp: serve_path_def bearer_auth_def)
qed

theorem nothing_without_the_secret_witness:
  "\<exists>rl rep. start_relay demo_flags demo_main = Inr (Inr rl) \<and>
     serve_path demo_http rl ''/poe'' demo_proc (HttpSink 0) ''/poe'' ''POST'' ''Bearer guess'' (Inr []) demo_server =
       Inr (rep, demo_server)"
proof -
  obtain rl where rl: "start_relay demo_flags demo_main = Inr (Inr rl)" "rl_secret rl = ''secret''"
    using demo_start by blast
  then have "''Bearer guess'' \<noteq> ''Bearer '' @ rl_secret rl" by simp
  from nothing_without_the_secret [OF rl(1) this] rl(1) show ?thesis by blast
qed

text \<open>The body of a normal turn, its calls on the sink mixed with ticks of the heartbeat in any way,
  reaches a client that reads and renders the stream.\<close>

lemma body_reaches_client:
  assumes "ag_prompt ag (ss_session_id st) (turn_blocks cfg st req) = (us, Inr EndTurn)"
    and "fst (apply_options ag (ss_session_id st) (rq_opts req) (ss_applied st)) = None"
    and "calls_of acts = turn_body cfg ag st req @ [EvDone]"
  shows "\<exists>n es ts. read_stream n (concat (map sse_frame (sink_log (sink_run io_ok acts (query_sink hb))))) = Some es \<and>
    concat ts = render_turn (rq_hide_thinking req) us \<and>
    render_body es [] = concat (map to_valid_utf8 ts)"
proof -
  let ?body = "turn_body cfg ag st req"
  from assms(3) obtain es where log: "sink_log (sink_run io_ok acts (query_sink hb)) = map wire es"
    and body: "render_body (map utf8_event es) [] = render_body (map utf8_event (sink_events (?body @ [EvDone]))) []"
    using query_sink_body [of acts hb] by auto
  have "read_stream (length es) (concat (map sse_frame (map wire es))) = Some (map utf8_event es)"
    using read_stream_frames [of es "length es"] by simp
  moreover have "render_body (map utf8_event es) [] = concat (map to_valid_utf8 (texts_of ?body))"
    using body render_texts [OF normal_turn_body(1) [OF assms(1,2)]] by simp
  moreover have "concat (texts_of ?body) = render_turn (rq_hide_thinking req) us"
    using normal_turn_body(2) [OF assms(1,2)] by (simp add: concat_texts_of)
  ultimately show ?thesis unfolding log by blast
qed



end
